(* ===== verification/Prelude.thy ===== *)
theory Prelude
  imports "HOL-Library.Word"
begin

unbundle bit_operations_syntax

section \<open>Shared vocabulary: machine integers, byte buffers, failing computations\<close>

text \<open>
  What every component uses: the widths of \<open>src/afl/types.h\<close>, little-endian loads and
  stores on byte buffers (the \<open>*(u16*)(buf + i)\<close> accesses of the C code on x86-64), block
  copies, byte swaps, bounded loops that may leave early, and computations that may stop the
  process. The collections \<open>buf_simps\<close> and \<open>res_simps\<close> hold the facts the component
  theories hand to the simplifier.
\<close>

named_theorems buf_simps \<open>facts on byte buffers\<close>
named_theorems res_simps \<open>facts on failing computations\<close>

type_synonym u8 = "8 word"
type_synonym u16 = "16 word"
type_synonym u32 = "32 word"
type_synonym u64 = "64 word"
type_synonym bytes = "u8 list"

subsection \<open>Little-endian loads and stores\<close>

primrec ld_le :: "bytes \<Rightarrow> 'a::len word" where
  "ld_le [] = 0"
| "ld_le (b # bs) = ucast b OR push_bit 8 (ld_le bs)"

definition st_le :: "nat \<Rightarrow> 'a::len word \<Rightarrow> bytes" where
  "st_le n w = map (\<lambda>k. ucast (drop_bit (8 * k) w)) [0..<n]"

abbreviation ld16 :: "bytes \<Rightarrow> u16" where "ld16 bs \<equiv> ld_le (take 2 bs)"
abbreviation ld32 :: "bytes \<Rightarrow> u32" where "ld32 bs \<equiv> ld_le (take 4 bs)"
abbreviation ld64 :: "bytes \<Rightarrow> u64" where "ld64 bs \<equiv> ld_le (take 8 bs)"
abbreviation st16 :: "u16 \<Rightarrow> bytes" where "st16 w \<equiv> st_le 2 w"
abbreviation st32 :: "u32 \<Rightarrow> bytes" where "st32 w \<equiv> st_le 4 w"
abbreviation st64 :: "u64 \<Rightarrow> bytes" where "st64 w \<equiv> st_le 8 w"

lemma length_st_le [simp]: "length (st_le n w) = n"
  by (simp add: st_le_def)

lemma bit_ld_le:
  "bit (ld_le bs :: 'a::len word) n \<longleftrightarrow>
     n < LENGTH('a) \<and> n < 8 * length bs \<and> bit (bs ! (n div 8)) (n mod 8)"
proof (induction bs arbitrary: n)
  case Nil
  then show ?case by simp
next
  case (Cons b bs)
  show ?case
  proof (cases "n < 8")
    case True
    then show ?thesis by (auto simp: bit_or_iff bit_push_bit_iff bit_ucast_iff)
  next
    case False
    then obtain m where n: "n = m + 8" by (metis add.commute le_Suc_ex not_less)
    then have d: "n div 8 = Suc (m div 8)" "n mod 8 = m mod 8" by simp_all
    show ?thesis using n unfolding d
      by (auto simp: bit_or_iff bit_push_bit_iff bit_ucast_iff Cons.IH dest: bit_imp_le_length)
  qed
qed

lemma nth_st_le: "k < n \<Longrightarrow> st_le n w ! k = ucast (drop_bit (8 * k) w)"
  by (simp add: st_le_def)

lemma bit_nth_st_le:
  "k < n \<Longrightarrow> bit (st_le n w ! k) j \<longleftrightarrow> j < 8 \<and> bit w (8 * k + j)"
  by (auto simp: nth_st_le bit_simps)

lemma st_le_ld_le [simp]:
  assumes "8 * length bs \<le> LENGTH('a::len)" and "n = length bs"
  shows "st_le n (ld_le bs :: 'a word) = bs"
proof (rule nth_equalityI)
  fix k assume "k < length (st_le n (ld_le bs :: 'a word))"
  then have k: "k < n" "k < length bs" using assms by simp_all
  show "st_le n (ld_le bs :: 'a word) ! k = bs ! k"
  proof (rule bit_eqI)
    fix j
    have "j < 8 \<Longrightarrow> 8 * k + j < 8 * length bs" using k by linarith
    moreover have "j < 8 \<Longrightarrow> 8 * k + j < LENGTH('a)" using k assms by linarith
    moreover have "j < 8 \<Longrightarrow> (8 * k + j) div 8 = k \<and> (8 * k + j) mod 8 = j" by simp
    moreover have "bit (bs ! k) j \<Longrightarrow> j < 8" by (auto dest: bit_imp_le_length)
    ultimately show "bit (st_le n (ld_le bs :: 'a word) ! k) j = bit (bs ! k) j"
      using k by (auto simp: bit_nth_st_le bit_ld_le)
  qed
qed (use assms in simp)

lemma ld_le_st_le [simp]:
  assumes "8 * n = LENGTH('a::len)"
  shows "ld_le (st_le n w) = (w :: 'a word)"
proof (rule bit_eqI)
  fix m assume "possible_bit TYPE('a word) m"
  then have m: "m < 8 * n" using assms by simp
  then have "m div 8 < n" by linarith
  moreover have "8 * (m div 8) + m mod 8 = m" by simp
  ultimately show "bit (ld_le (st_le n w) :: 'a word) m = bit w m"
    using m assms by (simp add: bit_ld_le bit_nth_st_le)
qed

lemma ld_le_eq_0_iff:
  assumes "8 * length bs \<le> LENGTH('a::len)"
  shows "(ld_le bs :: 'a word) = 0 \<longleftrightarrow> (\<forall>k < length bs. bs ! k = 0)"
  using assms
proof (induction bs)
  case (Cons b bs)
  have "(ld_le (b # bs) :: 'a word) = 0 \<longleftrightarrow> b = 0 \<and> (ld_le bs :: 'a word) = 0"
  proof
    assume z: "(ld_le (b # bs) :: 'a word) = 0"
    have b: "bit (ld_le (b # bs) :: 'a word) j \<longleftrightarrow> bit b j" if "j < 8" for j
      using that Cons.prems by (simp add: bit_ld_le del: ld_le.simps)
    have "b = 0"
    proof (rule bit_eqI)
      fix j assume "possible_bit TYPE(8 word) j"
      then show "bit b j = bit 0 j" using b [of j] z by simp
    qed
    moreover have "(ld_le bs :: 'a word) = 0"
    proof (rule bit_eqI)
      fix j
      have "(j + 8) div 8 = Suc (j div 8)" by simp
      then have "bit (ld_le bs :: 'a word) j \<Longrightarrow> bit (ld_le (b # bs) :: 'a word) (j + 8)"
        using Cons.prems by (simp add: bit_ld_le del: ld_le.simps)
      then show "bit (ld_le bs :: 'a word) j = bit 0 j" unfolding z by auto
    qed
    ultimately show "b = 0 \<and> (ld_le bs :: 'a word) = 0" by simp
  qed simp
  then show ?case using Cons by (simp add: All_less_Suc2)
qed simp

lemma ld_le_and:
  assumes "length bs = length cs"
  shows "(ld_le bs AND ld_le cs :: 'a::len word) = ld_le (map2 (AND) bs cs)"
  using assms by (intro bit_eqI) (auto simp: bit_ld_le bit_simps)

lemma ld_le_and_not:
  assumes "length bs = length cs"
  shows "(ld_le bs AND NOT (ld_le cs) :: 'a::len word) = ld_le (map2 (\<lambda>b c. b AND NOT c) bs cs)"
  using assms by (intro bit_eqI) (auto simp: bit_ld_le bit_simps)

subsection \<open>Byte swaps\<close>

definition SWAP16 :: "u16 \<Rightarrow> u16" where
  "SWAP16 x = push_bit 8 x OR drop_bit 8 x"

definition SWAP32 :: "u32 \<Rightarrow> u32" where
  "SWAP32 x = push_bit 24 x OR drop_bit 24 x OR (push_bit 8 x AND 0x00FF0000) OR
     (drop_bit 8 x AND 0x0000FF00)"

subsection \<open>Block copies and reads\<close>

text \<open>\<open>memcpy(buf + i, bs, |bs|)\<close> inside the buffer.\<close>

definition put :: "nat \<Rightarrow> 'a list \<Rightarrow> 'a list \<Rightarrow> 'a list" where
  "put i bs buf = take i buf @ bs @ drop (i + length bs) buf"

definition slice :: "nat \<Rightarrow> nat \<Rightarrow> 'a list \<Rightarrow> 'a list" where
  "slice i n buf = take n (drop i buf)"

lemma length_put [simp, buf_simps]:
  "i + length bs \<le> length buf \<Longrightarrow> length (put i bs buf) = length buf"
  by (simp add: put_def)

lemma length_slice [simp, buf_simps]: "length (slice i n buf) = min n (length buf - i)"
  by (simp add: slice_def)

lemma nth_put:
  assumes "i + length bs \<le> length buf" and "k < length buf"
  shows "put i bs buf ! k = (if i \<le> k \<and> k < i + length bs then bs ! (k - i) else buf ! k)"
  using assms by (auto simp: put_def nth_append)

lemma nth_slice: "k < n \<Longrightarrow> i + k < length buf \<Longrightarrow> slice i n buf ! k = buf ! (i + k)"
  by (simp add: slice_def)

lemma put_put_same [simp, buf_simps]:
  assumes "length bs = length cs" and "i + length cs \<le> length buf"
  shows "put i bs (put i cs buf) = put i bs buf"
  using assms by (simp add: put_def)

lemma put_slice [simp, buf_simps]: "put i (slice i n buf) buf = buf"
  unfolding put_def slice_def
  by (metis append_take_drop_id drop_drop add.commute length_take min_def nat_le_linear
      take_all_iff drop_all append_Nil2 length_drop)

text \<open>Restoring a clobbered span from the unmodified copy.\<close>

lemma put_restore [buf_simps]:
  assumes "i + length bs \<le> length buf" and "n = length bs"
  shows "put i (slice i n buf) (put i bs buf) = buf"
  using assms by (simp add: put_put_same)

text \<open>Buffers written out as lists hold whole words.\<close>

lemma whole_words [simp]:
  "8 dvd Suc (Suc (Suc (Suc (Suc (Suc (Suc (Suc 0)))))))"
  "4 dvd Suc (Suc (Suc (Suc 0)))"
proof -
  have "Suc (Suc (Suc (Suc (Suc (Suc (Suc (Suc 0))))))) = 8" "Suc (Suc (Suc (Suc 0))) = 4"
    by simp_all
  then show "8 dvd Suc (Suc (Suc (Suc (Suc (Suc (Suc (Suc 0)))))))" "4 dvd Suc (Suc (Suc (Suc 0)))"
    by (metis dvd_refl)+
qed

subsection \<open>Failing computations\<close>

text \<open>
  \<open>FATAL\<close> and \<open>PFATAL\<close> end the process; a read through a null pointer or a division by
  zero traps. All are values of \<open>fatal\<close>, so every such branch of the code is visible in
  the result.
\<close>

datatype fatal =
    Fatal string       \<comment> \<open>\<open>FATAL(...)\<close> / \<open>PFATAL(...)\<close>: message printed, process exits\<close>
  | NullDeref          \<comment> \<open>SIGSEGV: a null pointer was followed\<close>
  | DivByZero          \<comment> \<open>SIGFPE: \<open>x / 0\<close> or \<open>x % 0\<close>\<close>
  | OutOfBounds        \<comment> \<open>an access outside an array or a string\<close>
  | Diverges           \<comment> \<open>a loop that outlives the fuel its model is given\<close>

type_synonym 'a res = "fatal + 'a"

definition bnd :: "'e + 'a \<Rightarrow> ('a \<Rightarrow> 'e + 'b) \<Rightarrow> 'e + 'b" where
  "bnd m f = (case m of Inl e \<Rightarrow> Inl e | Inr x \<Rightarrow> f x)"

lemma bnd_simps [simp, res_simps]: "bnd (Inl e) f = Inl e" "bnd (Inr x) f = f x"
  by (simp_all add: bnd_def)

lemma bnd_Inr_iff [res_simps]: "bnd m f = Inr y \<longleftrightarrow> (\<exists>x. m = Inr x \<and> f x = Inr y)"
  by (cases m) simp_all

lemma bnd_Inl_iff: "bnd m f = Inl e \<longleftrightarrow> m = Inl e \<or> (\<exists>x. m = Inr x \<and> f x = Inl e)"
  by (cases m) simp_all

lemma bnd_InrE:
  assumes "bnd m f = Inr y"
  obtains x where "m = Inr x" "f x = Inr y"
  using assms by (auto simp: bnd_Inr_iff)

lemma bnd_cong [fundef_cong]:
  "m = m' \<Longrightarrow> (\<And>x. m' = Inr x \<Longrightarrow> f x = g x) \<Longrightarrow> bnd m f = bnd m' g"
  by (cases m) auto

text \<open>How a computation failed, if it did.\<close>

definition failure :: "'a res \<Rightarrow> fatal option" where
  "failure r = (case r of Inl e \<Rightarrow> Some e | Inr _ \<Rightarrow> None)"

lemma failure_Some: "failure r = Some e \<longleftrightarrow> r = Inl e"
  by (cases r) (simp_all add: failure_def)

text \<open>What holds of the value of a computation that does not fail.\<close>

definition post :: "('a \<Rightarrow> bool) \<Rightarrow> 'e + 'a \<Rightarrow> bool" where
  "post P m \<longleftrightarrow> (\<forall>x. m = Inr x \<longrightarrow> P x)"

lemma post_simps [simp]: "post P (Inl e)" "post P (Inr x) \<longleftrightarrow> P x"
  by (simp_all add: post_def)

lemma post_bnd:
  assumes "post Q m" and "\<And>x. Q x \<Longrightarrow> post P (f x)"
  shows "post P (bnd m f)"
  using assms by (cases m) simp_all

lemma postI: "(\<And>x. m = Inr x \<Longrightarrow> P x) \<Longrightarrow> post P m"
  by (simp add: post_def)

lemma postD: "post P m \<Longrightarrow> m = Inr x \<Longrightarrow> P x"
  by (simp add: post_def)

lemma post_mono: "post P m \<Longrightarrow> (\<And>x. P x \<Longrightarrow> Q x) \<Longrightarrow> post Q m"
  by (simp add: post_def)

subsection \<open>Bounded loops that may leave early\<close>

text \<open>
  \<open>for (i = ...; ...; i++) body\<close> over the listed counter values; the body answers
  \<open>True\<close> when it leaves the loop (\<open>goto abandon_entry\<close>, \<open>break\<close>).
\<close>

primrec for_each :: "'i list \<Rightarrow> ('i \<Rightarrow> 's \<Rightarrow> 'e + bool \<times> 's) \<Rightarrow> 's \<Rightarrow> 'e + bool \<times> 's" where
  "for_each [] body s = Inr (False, s)"
| "for_each (i # is) body s =
     bnd (body i s) (\<lambda>(stop, s'). if stop then Inr (True, s') else for_each is body s')"

lemma for_each_append:
  "for_each (xs @ ys) body s =
     bnd (for_each xs body s) (\<lambda>(stop, s'). if stop then Inr (True, s') else for_each ys body s')"
proof (induction xs arbitrary: s)
  case (Cons x xs)
  show ?case
    by (cases "body x s") (auto simp: Cons.IH split: prod.splits)
qed simp

lemma for_each_invariant:
  assumes "for_each xs body s = Inr (stop, s')" and "I s"
    and "\<And>i s stop s'. i \<in> set xs \<Longrightarrow> I s \<Longrightarrow> body i s = Inr (stop, s') \<Longrightarrow> I s'"
  shows "I s'"
  using assms
proof (induction xs arbitrary: s)
  case (Cons x xs)
  from Cons.prems(1) obtain st t where b: "body x s = Inr (st, t)"
    and r: "if st then stop = True \<and> s' = t else for_each xs body t = Inr (stop, s')"
    by (auto simp: bnd_Inr_iff split: if_splits)
  have "I t" using Cons.prems(3) [OF _ Cons.prems(2) b] by simp
  then show ?case
    using r Cons.IH [of t] Cons.prems(3) by (cases st) auto
qed auto

text \<open>Loops that run to the end.\<close>

primrec fold_res :: "('i \<Rightarrow> 's \<Rightarrow> 'e + 's) \<Rightarrow> 'i list \<Rightarrow> 's \<Rightarrow> 'e + 's" where
  "fold_res f [] s = Inr s"
| "fold_res f (i # is) s = bnd (f i s) (fold_res f is)"

lemma fold_res_append [res_simps]:
  "fold_res f (xs @ ys) s = bnd (fold_res f xs s) (fold_res f ys)"
proof (induction xs arbitrary: s)
  case (Cons x xs)
  show ?case by (cases "f x s") (simp_all add: Cons.IH)
qed simp

lemma fold_res_invariant:
  assumes "fold_res f xs s = Inr s'" and "I s"
    and "\<And>i s s'. i \<in> set xs \<Longrightarrow> I s \<Longrightarrow> f i s = Inr s' \<Longrightarrow> I s'"
  shows "I s'"
  using assms
proof (induction xs arbitrary: s)
  case (Cons x xs)
  then show ?case by (auto simp: bnd_Inr_iff)
qed auto

lemma fold_res_total:
  assumes "I s" and "\<And>i s. i \<in> set xs \<Longrightarrow> I s \<Longrightarrow> \<exists>s'. f i s = Inr s' \<and> I s'"
  shows "\<exists>s'. fold_res f xs s = Inr s' \<and> I s'"
  using assms
proof (induction xs arbitrary: s)
  case (Cons x xs)
  from Cons.prems(2) [of x s] Cons.prems(1) obtain t where "f x s = Inr t" "I t" by auto
  then show ?case using Cons.IH [of t] Cons.prems(2) by auto
qed auto

lemma fold_res_Inr: "fold_res (\<lambda>i s. Inr (f i s)) xs s = Inr (fold f xs s)"
  by (induction xs arbitrary: s) simp_all

end
