(* ===== verification/Bitmap.thy ===== *)
theory Bitmap
  imports Prelude
begin

section \<open>Coverage maps: novelty, classification, counting\<close>

text \<open>
  The routines of \<open>src/afl/hybrid_metric/afl-fuzz.c\<close> on the shared-memory coverage map:
  \<open>has_new_bits\<close> (both word flavours of the \<open>#ifdef __x86_64__\<close>), the hybrid-metric tests
  \<open>has_max_metric\<close> and \<open>has_new_metric\<close>, \<open>classify_counts\<close>, \<open>simplify_trace\<close>,
  \<open>minimize_bits\<close> and the three counters. A map is the list of its bytes; \<open>MAP_SIZE\<close> is the
  length of that list (65536 in \<open>config.h\<close>; the theorems need it to be a multiple of the word
  the loop steps by). Each routine is the word-stepping loop of the source, and each is shown
  equal to a byte-wise specification.
\<close>

subsection \<open>has_new_bits, 64-bit flavour\<close>

text \<open>One iteration of the loop: \<open>current\<close> and \<open>virgin\<close> point at 8 bytes.\<close>

definition hnb_step64 :: "u8 \<Rightarrow> bytes \<Rightarrow> bytes \<Rightarrow> u8 \<times> bytes" where
  "hnb_step64 ret cur vir =
     (let current = ld64 cur; virgin = ld64 vir in
      if current \<noteq> 0 \<and> current AND virgin \<noteq> 0 then
        ((if ret < 2 then
            (if (cur ! 0 \<noteq> 0 \<and> vir ! 0 = 0xff) \<or> (cur ! 1 \<noteq> 0 \<and> vir ! 1 = 0xff) \<or>
                (cur ! 2 \<noteq> 0 \<and> vir ! 2 = 0xff) \<or> (cur ! 3 \<noteq> 0 \<and> vir ! 3 = 0xff) \<or>
                (cur ! 4 \<noteq> 0 \<and> vir ! 4 = 0xff) \<or> (cur ! 5 \<noteq> 0 \<and> vir ! 5 = 0xff) \<or>
                (cur ! 6 \<noteq> 0 \<and> vir ! 6 = 0xff) \<or> (cur ! 7 \<noteq> 0 \<and> vir ! 7 = 0xff)
             then 2 else 1)
          else ret),
         st64 (virgin AND NOT current))
      else (ret, vir))"

fun hnb_loop64 :: "nat \<Rightarrow> u8 \<Rightarrow> bytes \<Rightarrow> bytes \<Rightarrow> u8 \<times> bytes" where
  "hnb_loop64 0 ret current virgin = (ret, virgin)"
| "hnb_loop64 (Suc i) ret current virgin =
     (let (ret', v) = hnb_step64 ret (take 8 current) (take 8 virgin);
          (r, rest) = hnb_loop64 i ret' (drop 8 current) (drop 8 virgin)
      in (r, v @ rest))"

text \<open>The return value and the updated virgin map.\<close>

definition has_new_bits64 :: "bytes \<Rightarrow> bytes \<Rightarrow> u8 \<times> bytes" where
  "has_new_bits64 trace_bits virgin_map =
     hnb_loop64 (length trace_bits div 8) 0 trace_bits virgin_map"

subsection \<open>has_new_bits, 32-bit flavour\<close>

definition hnb_step32 :: "u8 \<Rightarrow> bytes \<Rightarrow> bytes \<Rightarrow> u8 \<times> bytes" where
  "hnb_step32 ret cur vir =
     (let current = ld32 cur; virgin = ld32 vir in
      if current \<noteq> 0 \<and> current AND virgin \<noteq> 0 then
        ((if ret < 2 then
            (if (cur ! 0 \<noteq> 0 \<and> vir ! 0 = 0xff) \<or> (cur ! 1 \<noteq> 0 \<and> vir ! 1 = 0xff) \<or>
                (cur ! 2 \<noteq> 0 \<and> vir ! 2 = 0xff) \<or> (cur ! 3 \<noteq> 0 \<and> vir ! 3 = 0xff)
             then 2 else 1)
          else ret),
         st32 (virgin AND NOT current))
      else (ret, vir))"

fun hnb_loop32 :: "nat \<Rightarrow> u8 \<Rightarrow> bytes \<Rightarrow> bytes \<Rightarrow> u8 \<times> bytes" where
  "hnb_loop32 0 ret current virgin = (ret, virgin)"
| "hnb_loop32 (Suc i) ret current virgin =
     (let (ret', v) = hnb_step32 ret (take 4 current) (take 4 virgin);
          (r, rest) = hnb_loop32 i ret' (drop 4 current) (drop 4 virgin)
      in (r, v @ rest))"

definition has_new_bits32 :: "bytes \<Rightarrow> bytes \<Rightarrow> u8 \<times> bytes" where
  "has_new_bits32 trace_bits virgin_map =
     hnb_loop32 (length trace_bits div 4) 0 trace_bits virgin_map"

subsection \<open>What novelty means, byte by byte\<close>

definition new_tuple :: "bytes \<Rightarrow> bytes \<Rightarrow> bool" where
  "new_tuple cur vir \<longleftrightarrow> (\<exists>(c, v) \<in> set (zip cur vir). c \<noteq> 0 \<and> v = 0xff)"

definition new_bit :: "bytes \<Rightarrow> bytes \<Rightarrow> bool" where
  "new_bit cur vir \<longleftrightarrow> (\<exists>(c, v) \<in> set (zip cur vir). c AND v \<noteq> 0)"

definition novelty :: "bytes \<Rightarrow> bytes \<Rightarrow> u8" where
  "novelty cur vir = (if new_tuple cur vir then 2 else if new_bit cur vir then 1 else 0)"

definition strike :: "bytes \<Rightarrow> bytes \<Rightarrow> bytes" where
  "strike vir cur = map2 (\<lambda>v c. v AND NOT c) vir cur"

text \<open>Joining the verdicts of two stretches of the map.\<close>

definition join_ret :: "u8 \<Rightarrow> u8 \<Rightarrow> u8" where
  "join_ret r n = (if r = 2 \<or> n = 2 then 2 else if n = 1 then 1 else r)"

lemma new_tuple_nth:
  "length c = length v \<Longrightarrow> new_tuple c v \<longleftrightarrow> (\<exists>k < length v. c ! k \<noteq> 0 \<and> v ! k = 0xff)"
  by (auto simp: new_tuple_def set_zip)

lemma new_bit_nth:
  "length c = length v \<Longrightarrow> new_bit c v \<longleftrightarrow> (\<exists>k < length v. c ! k AND v ! k \<noteq> 0)"
  by (auto simp: new_bit_def set_zip)

lemma new_tuple_new_bit: "new_tuple cur vir \<Longrightarrow> new_bit cur vir"
proof -
  assume "new_tuple cur vir"
  then obtain c where "(c, 0xff) \<in> set (zip cur vir)" "c \<noteq> 0"
    by (auto simp: new_tuple_def)
  moreover have "c AND 0xff = c"
  proof -
    have "(0xff :: u8) = - 1" by simp
    then show ?thesis by (simp only: and.right_neutral)
  qed
  ultimately show ?thesis unfolding new_bit_def by (metis (mono_tags, lifting) case_prodI)
qed

lemma novelty_append:
  assumes "length c1 = length v1"
  shows "novelty (c1 @ c2) (v1 @ v2) = join_ret (novelty c1 v1) (novelty c2 v2)"
  using assms by (auto simp: novelty_def join_ret_def new_tuple_def new_bit_def)

lemma join_ret_assoc:
  "join_ret (join_ret r (novelty a b)) (novelty c d) =
   join_ret r (join_ret (novelty a b) (novelty c d))"
  by (auto simp: join_ret_def novelty_def)

lemma word_and_0_bytes:
  assumes "length c = length v" and "8 * length v \<le> LENGTH('a::len)"
  shows "(ld_le c AND ld_le v :: 'a word) \<noteq> 0 \<longleftrightarrow> new_bit c v"
  using assms by (simp add: ld_le_and ld_le_eq_0_iff new_bit_nth)

lemma strike_bytes:
  assumes "length c = length v" and "8 * length v \<le> LENGTH('a::len)"
  shows "st_le (length v) (ld_le v AND NOT (ld_le c) :: 'a word) = strike v c"
  using assms by (simp add: ld_le_and_not strike_def)

lemma strike_no_new_bit:
  assumes "length c = length v" and "\<not> new_bit c v"
  shows "strike v c = v"
proof (rule nth_equalityI)
  fix k assume "k < length (strike v c)"
  then have k: "k < length v" "k < length c" by (auto simp: strike_def)
  have "(c ! k, v ! k) \<in> set (zip c v)" using k by (auto simp: in_set_zip)
  then have z: "c ! k AND v ! k = 0" using assms(2) unfolding new_bit_def by blast
  have "v ! k AND NOT (c ! k) = v ! k"
  proof (rule bit_eqI)
    fix j show "bit (v ! k AND NOT (c ! k)) j = bit (v ! k) j"
      using arg_cong [OF z, of "\<lambda>w. bit w j"] by (auto simp: bit_simps dest: bit_imp_le_length)
  qed
  then show "strike v c ! k = v ! k" using k by (simp add: strike_def)
qed (use assms in \<open>simp add: strike_def\<close>)

lemma length_strike [simp]: "length v = length c \<Longrightarrow> length (strike v c) = length c"
  by (simp add: strike_def)

lemma strike_append:
  "length v1 = length c1 \<Longrightarrow> strike (v1 @ v2) (c1 @ c2) = strike v1 c1 @ strike v2 c2"
  by (simp add: strike_def)

lemma new_tuple_8:
  assumes "length c = 8" and "length v = 8"
  shows "new_tuple c v \<longleftrightarrow>
    (c ! 0 \<noteq> 0 \<and> v ! 0 = 0xff) \<or> (c ! 1 \<noteq> 0 \<and> v ! 1 = 0xff) \<or>
    (c ! 2 \<noteq> 0 \<and> v ! 2 = 0xff) \<or> (c ! 3 \<noteq> 0 \<and> v ! 3 = 0xff) \<or>
    (c ! 4 \<noteq> 0 \<and> v ! 4 = 0xff) \<or> (c ! 5 \<noteq> 0 \<and> v ! 5 = 0xff) \<or>
    (c ! 6 \<noteq> 0 \<and> v ! 6 = 0xff) \<or> (c ! 7 \<noteq> 0 \<and> v ! 7 = 0xff)"
proof -
  have "new_tuple c v \<longleftrightarrow> (\<exists>k < 8. c ! k \<noteq> 0 \<and> v ! k = 0xff)"
    using assms by (simp add: new_tuple_nth)
  then show ?thesis by (simp add: numeral_eq_Suc Ex_less_Suc2)
qed

lemma new_tuple_4:
  assumes "length c = 4" and "length v = 4"
  shows "new_tuple c v \<longleftrightarrow>
    (c ! 0 \<noteq> 0 \<and> v ! 0 = 0xff) \<or> (c ! 1 \<noteq> 0 \<and> v ! 1 = 0xff) \<or>
    (c ! 2 \<noteq> 0 \<and> v ! 2 = 0xff) \<or> (c ! 3 \<noteq> 0 \<and> v ! 3 = 0xff)"
proof -
  have "new_tuple c v \<longleftrightarrow> (\<exists>k < 4. c ! k \<noteq> 0 \<and> v ! k = 0xff)"
    using assms by (simp add: new_tuple_nth)
  then show ?thesis by (simp add: numeral_eq_Suc Ex_less_Suc2)
qed

lemma new_bit_nonzero:
  assumes "length c = length v" and "8 * length v \<le> LENGTH('a::len)" and "new_bit c v"
  shows "(ld_le c :: 'a word) \<noteq> 0"
  using word_and_0_bytes [OF assms(1,2)] assms(3) by auto

lemma ret_u8_cases: "(ret :: u8) \<in> {0, 1, 2} \<Longrightarrow> ret < 2 \<longleftrightarrow> ret \<noteq> 2"
  by auto

lemma hnb_step64_spec:
  assumes "length cur = 8" and "length vir = 8" and "ret \<in> {0, 1, 2}"
  shows "hnb_step64 ret cur vir = (join_ret ret (novelty cur vir), strike vir cur)"
proof -
  have nb: "(ld_le cur AND ld_le vir :: u64) \<noteq> 0 \<longleftrightarrow> new_bit cur vir"
    by (rule word_and_0_bytes) (use assms in simp_all)
  have st: "st64 (ld_le vir AND NOT (ld_le cur)) = strike vir cur"
    using strike_bytes [of cur vir, where 'a = 64] assms by simp
  have nz: "new_bit cur vir \<Longrightarrow> (ld_le cur :: u64) \<noteq> 0"
    by (rule new_bit_nonzero) (use assms in simp_all)
  show ?thesis
    unfolding hnb_step64_def Let_def new_tuple_8 [OF assms(1,2), symmetric]
    using assms nb st nz strike_no_new_bit [of cur vir] new_tuple_new_bit [of cur vir]
    by (auto simp: novelty_def join_ret_def)
qed

lemma hnb_step32_spec:
  assumes "length cur = 4" and "length vir = 4" and "ret \<in> {0, 1, 2}"
  shows "hnb_step32 ret cur vir = (join_ret ret (novelty cur vir), strike vir cur)"
proof -
  have nb: "(ld_le cur AND ld_le vir :: u32) \<noteq> 0 \<longleftrightarrow> new_bit cur vir"
    by (rule word_and_0_bytes) (use assms in simp_all)
  have st: "st32 (ld_le vir AND NOT (ld_le cur)) = strike vir cur"
    using strike_bytes [of cur vir, where 'a = 32] assms by simp
  have nz: "new_bit cur vir \<Longrightarrow> (ld_le cur :: u32) \<noteq> 0"
    by (rule new_bit_nonzero) (use assms in simp_all)
  show ?thesis
    unfolding hnb_step32_def Let_def new_tuple_4 [OF assms(1,2), symmetric]
    using assms nb st nz strike_no_new_bit [of cur vir] new_tuple_new_bit [of cur vir]
    by (auto simp: novelty_def join_ret_def)
qed

lemma join_ret_range: "ret \<in> {0, 1, 2} \<Longrightarrow> join_ret ret (novelty c v) \<in> {0, 1, 2}"
  by (auto simp: join_ret_def)

lemma novelty_Nil [simp]: "novelty [] [] = 0" "strike [] [] = []" "join_ret r 0 = r"
  by (auto simp: novelty_def new_tuple_def new_bit_def strike_def join_ret_def)

lemma hnb_loop64_spec:
  "length cur = 8 * i \<Longrightarrow> length vir = 8 * i \<Longrightarrow> ret \<in> {0, 1, 2} \<Longrightarrow>
   hnb_loop64 i ret cur vir = (join_ret ret (novelty cur vir), strike vir cur)"
proof (induction i arbitrary: ret cur vir)
  case (Suc i)
  have "hnb_loop64 i (join_ret ret (novelty (take 8 cur) (take 8 vir))) (drop 8 cur) (drop 8 vir) =
    (join_ret (join_ret ret (novelty (take 8 cur) (take 8 vir))) (novelty (drop 8 cur) (drop 8 vir)),
     strike (drop 8 vir) (drop 8 cur))"
    by (rule Suc.IH) (use Suc.prems join_ret_range in auto)
  then have "hnb_loop64 (Suc i) ret cur vir =
    (join_ret ret (novelty (take 8 cur @ drop 8 cur) (take 8 vir @ drop 8 vir)),
     strike (take 8 vir @ drop 8 vir) (take 8 cur @ drop 8 cur))"
    using Suc.prems
    by (subst novelty_append, simp, subst strike_append, simp)
       (simp add: hnb_step64_spec join_ret_assoc)
  then show ?case by simp
qed auto

lemma hnb_loop32_spec:
  "length cur = 4 * i \<Longrightarrow> length vir = 4 * i \<Longrightarrow> ret \<in> {0, 1, 2} \<Longrightarrow>
   hnb_loop32 i ret cur vir = (join_ret ret (novelty cur vir), strike vir cur)"
proof (induction i arbitrary: ret cur vir)
  case (Suc i)
  have "hnb_loop32 i (join_ret ret (novelty (take 4 cur) (take 4 vir))) (drop 4 cur) (drop 4 vir) =
    (join_ret (join_ret ret (novelty (take 4 cur) (take 4 vir))) (novelty (drop 4 cur) (drop 4 vir)),
     strike (drop 4 vir) (drop 4 cur))"
    by (rule Suc.IH) (use Suc.prems join_ret_range in auto)
  then have "hnb_loop32 (Suc i) ret cur vir =
    (join_ret ret (novelty (take 4 cur @ drop 4 cur) (take 4 vir @ drop 4 vir)),
     strike (take 4 vir @ drop 4 vir) (take 4 cur @ drop 4 cur))"
    using Suc.prems
    by (subst novelty_append, simp, subst strike_append, simp)
       (simp add: hnb_step32_spec join_ret_assoc)
  then show ?case by simp
qed auto

subsection \<open>The hybrid-metric maps\<close>

text \<open>\<open>has_max_metric\<close>: does some counter exceed the recorded maximum?\<close>

fun has_max_metric_loop :: "nat \<Rightarrow> nat \<Rightarrow> u32 list \<Rightarrow> u32 list \<Rightarrow> u8" where
  "has_max_metric_loop 0 i metric_bits max_metric = 0"
| "has_max_metric_loop (Suc n) i metric_bits max_metric =
     (if metric_bits ! i \<noteq> 0 \<and> metric_bits ! i > max_metric ! i then 1
      else has_max_metric_loop n (Suc i) metric_bits max_metric)"

definition has_max_metric :: "u32 list \<Rightarrow> u32 list \<Rightarrow> u8" where
  "has_max_metric metric_bits max_metric =
     has_max_metric_loop (length metric_bits) 0 metric_bits max_metric"

lemma has_max_metric_loop_spec:
  "has_max_metric_loop n i m mx = (if \<exists>k. i \<le> k \<and> k < i + n \<and> mx ! k < m ! k then 1 else 0)"
proof (induction n arbitrary: i)
  case (Suc n)
  have pos: "mx ! i < m ! i \<Longrightarrow> m ! i \<noteq> 0" using word_not_simps(1) by auto
  have split: "(\<exists>k. i \<le> k \<and> k < i + Suc n \<and> mx ! k < m ! k) \<longleftrightarrow>
      mx ! i < m ! i \<or> (\<exists>k. Suc i \<le> k \<and> k < Suc i + n \<and> mx ! k < m ! k)"
    by (metis Suc_leD Suc_leI add_Suc_right add_Suc_shift le_neq_implies_less less_add_same_cancel1
        order_refl zero_less_Suc)
  show ?case unfolding has_max_metric_loop.simps Suc.IH split using pos by auto
qed simp

text \<open>\<open>has_new_metric\<close>: the novelty test on 32-bit counters, one counter per iteration.\<close>

definition hnm_step :: "u8 \<Rightarrow> u32 \<Rightarrow> u32 \<Rightarrow> u8 \<times> u32" where
  "hnm_step ret current virgin =
     (if current \<noteq> 0 \<and> current AND virgin \<noteq> 0 then
        ((if ret < 2 then
            (let cur = st32 current; vir = st32 virgin in
             if (cur ! 0 \<noteq> 0 \<and> vir ! 0 = 0xff) \<or> (cur ! 1 \<noteq> 0 \<and> vir ! 1 = 0xff) \<or>
                (cur ! 2 \<noteq> 0 \<and> vir ! 2 = 0xff) \<or> (cur ! 3 \<noteq> 0 \<and> vir ! 3 = 0xff)
             then 2 else 1)
          else ret),
         virgin AND NOT current)
      else (ret, virgin))"

fun hnm_loop :: "u8 \<Rightarrow> u32 list \<Rightarrow> u32 list \<Rightarrow> u8 \<times> u32 list" where
  "hnm_loop ret (v # virgin) (c # current) =
     (let (ret', v') = hnm_step ret c v; (r, rest) = hnm_loop ret' virgin current
      in (r, v' # rest))"
| "hnm_loop ret virgin current = (ret, virgin)"

definition has_new_metric :: "u32 list \<Rightarrow> u32 list \<Rightarrow> u8 \<times> u32 list" where
  "has_new_metric virgin_metric_map metric_bits = hnm_loop 0 virgin_metric_map metric_bits"

text \<open>The bytes a map of 32-bit counters occupies.\<close>

definition map_bytes :: "u32 list \<Rightarrow> bytes" where
  "map_bytes ws = concat (map st32 ws)"

lemma map_bytes_Nil [simp]: "map_bytes [] = []"
  and map_bytes_Cons [simp]: "map_bytes (w # ws) = st32 w @ map_bytes ws"
  by (simp_all add: map_bytes_def)

lemma length_map_bytes [simp]: "length (map_bytes ws) = 4 * length ws"
  by (induction ws) simp_all

lemma hnm_step_bytes:
  assumes "ret \<in> {0, 1, 2}"
  shows "hnm_step ret c v =
    (join_ret ret (novelty (st32 c) (st32 v)), ld_le (strike (st32 v) (st32 c)))"
proof -
  have "hnb_step32 ret (st32 c) (st32 v) =
      (join_ret ret (novelty (st32 c) (st32 v)), strike (st32 v) (st32 c))"
    by (rule hnb_step32_spec) (use assms in simp_all)
  moreover have "(fst (hnb_step32 ret (st32 c) (st32 v)), ld_le (snd (hnb_step32 ret (st32 c) (st32 v))))
      = hnm_step ret c v"
    by (simp add: hnb_step32_def hnm_step_def Let_def)
  ultimately show ?thesis by simp
qed

lemma hnm_loop_spec:
  "length virgin = length current \<Longrightarrow> ret \<in> {0, 1, 2} \<Longrightarrow>
   fst (hnm_loop ret virgin current) = join_ret ret (novelty (map_bytes current) (map_bytes virgin)) \<and>
   snd (hnm_loop ret virgin current) = map2 (\<lambda>v c. v AND NOT c) virgin current"
proof (induction ret virgin current rule: hnm_loop.induct)
  case (1 ret v virgin c current)
  let ?r = "join_ret ret (novelty (st32 c) (st32 v))"
  have IH: "fst (hnm_loop ?r virgin current) = join_ret ?r (novelty (map_bytes current) (map_bytes virgin))"
    "snd (hnm_loop ?r virgin current) = map2 (\<lambda>v c. v AND NOT c) virgin current"
    using "1.IH" [of "(?r, ld_le (strike (st32 v) (st32 c)))"] "1.prems"
      hnm_step_bytes [OF "1.prems"(2)] join_ret_range [OF "1.prems"(2)] by auto
  have "(ld_le (strike (st32 v) (st32 c)) :: u32) = v AND NOT c"
  proof -
    have "st32 (v AND NOT c) = strike (st32 v) (st32 c)"
      using strike_bytes [of "st32 c" "st32 v", where 'a = 32] by simp
    then have "(ld_le (strike (st32 v) (st32 c)) :: u32) = ld_le (st32 (v AND NOT c))" by simp
    then show ?thesis by simp
  qed
  then show ?case
    using IH hnm_step_bytes [OF "1.prems"(2)]
    by (simp add: novelty_append join_ret_assoc split_beta)
qed auto

subsection \<open>Hit-count classes\<close>

definition count_class_lookup8 :: "u8 \<Rightarrow> u8" where
  "count_class_lookup8 x =
     (if x = 0 then 0 else if x = 1 then 1 else if x = 2 then 2 else if x = 3 then 4
      else if x \<le> 7 then 8 else if x \<le> 15 then 16 else if x \<le> 31 then 32
      else if x \<le> 127 then 64 else 128)"

text \<open>\<open>init_count_class16\<close>: the two nested loops filling the 16-bit table.\<close>

definition init_count_class16 :: "(u16 \<Rightarrow> u16) \<Rightarrow> u16 \<Rightarrow> u16" where
  "init_count_class16 table =
     fold (\<lambda>b1 t. fold (\<lambda>b2 t. t(push_bit 8 (of_nat b1) + of_nat b2 :=
         push_bit 8 (ucast (count_class_lookup8 (of_nat b1))) OR
         ucast (count_class_lookup8 (of_nat b2)))) [0..<256] t) [0..<256] table"

definition classify_step :: "(u16 \<Rightarrow> u16) \<Rightarrow> bytes \<Rightarrow> bytes" where
  "classify_step lookup16 mem8 =
     (if ld64 mem8 \<noteq> 0 then
        st16 (lookup16 (ld16 mem8)) @ st16 (lookup16 (ld16 (drop 2 mem8))) @
        st16 (lookup16 (ld16 (drop 4 mem8))) @ st16 (lookup16 (ld16 (drop 6 mem8)))
      else mem8)"

fun classify_loop :: "(u16 \<Rightarrow> u16) \<Rightarrow> nat \<Rightarrow> bytes \<Rightarrow> bytes" where
  "classify_loop lookup16 0 mem = mem"
| "classify_loop lookup16 (Suc i) mem =
     classify_step lookup16 (take 8 mem) @ classify_loop lookup16 i (drop 8 mem)"

text \<open>\<open>classify_counts\<close> (64-bit flavour), with the table \<open>init_count_class16\<close> set up.\<close>

definition classify_counts_with :: "(u16 \<Rightarrow> u16) \<Rightarrow> bytes \<Rightarrow> bytes" where
  "classify_counts_with lookup16 mem = classify_loop lookup16 (length mem div 8) mem"

subsection \<open>Trace simplification and compaction\<close>

definition simplify_lookup :: "u8 \<Rightarrow> u8" where
  "simplify_lookup x = (if x = 0 then 1 else 128)"

fun simplify_loop :: "nat \<Rightarrow> bytes \<Rightarrow> bytes" where
  "simplify_loop 0 mem = mem"
| "simplify_loop (Suc i) mem =
     (if ld64 mem \<noteq> 0 then
        [simplify_lookup (mem ! 0), simplify_lookup (mem ! 1), simplify_lookup (mem ! 2),
         simplify_lookup (mem ! 3), simplify_lookup (mem ! 4), simplify_lookup (mem ! 5),
         simplify_lookup (mem ! 6), simplify_lookup (mem ! 7)]
      else st64 0x0101010101010101) @ simplify_loop i (drop 8 mem)"

definition simplify_trace :: "bytes \<Rightarrow> bytes" where
  "simplify_trace mem = simplify_loop (length mem div 8) mem"

text \<open>\<open>minimize_bits(dst, src)\<close>: one bit of \<open>dst\<close> per non-zero byte of \<open>src\<close>.\<close>

definition set_map_bit :: "nat \<Rightarrow> bytes \<Rightarrow> bytes" where
  "set_map_bit i dst = dst[i div 8 := dst ! (i div 8) OR push_bit (i mod 8) 1]"

definition minimize_bits :: "bytes \<Rightarrow> bytes \<Rightarrow> bytes" where
  "minimize_bits dst src =
     fold (\<lambda>i d. if src ! i \<noteq> 0 then set_map_bit i d else d) [0..<length src] dst"

text \<open>Bit \<open>i\<close> of a compacted map.\<close>

definition map_bit :: "bytes \<Rightarrow> nat \<Rightarrow> bool" where
  "map_bit d i = bit (d ! (i div 8)) (i mod 8)"

subsection \<open>Counters\<close>

definition FF :: "nat \<Rightarrow> u32" where
  "FF b = push_bit (8 * b) 0xff"

fun count_bits_loop :: "nat \<Rightarrow> bytes \<Rightarrow> u32 \<Rightarrow> u32" where
  "count_bits_loop 0 ptr ret = ret"
| "count_bits_loop (Suc i) ptr ret =
     (let v = ld32 ptr in
      if v = 0xffffffff then count_bits_loop i (drop 4 ptr) (ret + 32)
      else
        (let v1 = v - (drop_bit 1 v AND 0x55555555);
             v2 = (v1 AND 0x33333333) + (drop_bit 2 v1 AND 0x33333333)
         in count_bits_loop i (drop 4 ptr)
              (ret + drop_bit 24 (((v2 + drop_bit 4 v2) AND 0xF0F0F0F) * 0x01010101))))"

definition count_bits :: "bytes \<Rightarrow> u32" where
  "count_bits mem = count_bits_loop (length mem div 4) mem 0"

fun count_bytes_loop :: "nat \<Rightarrow> bytes \<Rightarrow> u32 \<Rightarrow> u32" where
  "count_bytes_loop 0 ptr ret = ret"
| "count_bytes_loop (Suc i) ptr ret =
     (let v = ld32 ptr in
      if v = 0 then count_bytes_loop i (drop 4 ptr) ret
      else
        (let r0 = (if v AND FF 0 \<noteq> 0 then ret + 1 else ret);
             r1 = (if v AND FF 1 \<noteq> 0 then r0 + 1 else r0);
             r2 = (if v AND FF 2 \<noteq> 0 then r1 + 1 else r1);
             r3 = (if v AND FF 3 \<noteq> 0 then r2 + 1 else r2)
         in count_bytes_loop i (drop 4 ptr) r3))"

definition count_bytes :: "bytes \<Rightarrow> u32" where
  "count_bytes mem = count_bytes_loop (length mem div 4) mem 0"

fun count_non_255_loop :: "nat \<Rightarrow> bytes \<Rightarrow> u32 \<Rightarrow> u32" where
  "count_non_255_loop 0 ptr ret = ret"
| "count_non_255_loop (Suc i) ptr ret =
     (let v = ld32 ptr in
      if v = 0xffffffff then count_non_255_loop i (drop 4 ptr) ret
      else
        (let r0 = (if v AND FF 0 \<noteq> FF 0 then ret + 1 else ret);
             r1 = (if v AND FF 1 \<noteq> FF 1 then r0 + 1 else r0);
             r2 = (if v AND FF 2 \<noteq> FF 2 then r1 + 1 else r1);
             r3 = (if v AND FF 3 \<noteq> FF 3 then r2 + 1 else r2)
         in count_non_255_loop i (drop 4 ptr) r3))"

definition count_non_255_bytes :: "bytes \<Rightarrow> u32" where
  "count_non_255_bytes mem = count_non_255_loop (length mem div 4) mem 0"

subsection \<open>Byte-wise meaning of the word loops\<close>

lemma has_new_bits64_eq:
  assumes "8 dvd length cur" and "length vir = length cur"
  shows "has_new_bits64 cur vir = (novelty cur vir, strike vir cur)"
proof -
  from assms(1) obtain i where "length cur = 8 * i" by (auto elim: dvdE)
  then show ?thesis
    using hnb_loop64_spec [of cur i vir 0] assms
    by (simp add: has_new_bits64_def novelty_def join_ret_def)
qed

lemma has_new_bits32_eq:
  assumes "4 dvd length cur" and "length vir = length cur"
  shows "has_new_bits32 cur vir = (novelty cur vir, strike vir cur)"
proof -
  from assms(1) obtain i where "length cur = 4 * i" by (auto elim: dvdE)
  then show ?thesis
    using hnb_loop32_spec [of cur i vir 0] assms
    by (simp add: has_new_bits32_def novelty_def join_ret_def)
qed

lemma has_new_metric_eq:
  assumes "length vir = length cur"
  shows "has_new_metric vir cur =
    (novelty (map_bytes cur) (map_bytes vir), map2 (\<lambda>v c. v AND NOT c) vir cur)"
  using hnm_loop_spec [OF assms, of 0]
  by (auto simp: has_new_metric_def novelty_def join_ret_def prod_eq_iff)

lemma nth_strike:
  "k < length v \<Longrightarrow> length c = length v \<Longrightarrow> strike v c ! k = v ! k AND NOT (c ! k)"
  by (simp add: strike_def)

lemma novelty_strike: "length c = length v \<Longrightarrow> novelty c (strike v c) = 0"
proof -
  assume len: "length c = length v"
  have "x AND (y AND NOT x) = 0" for x y :: u8
    by (rule bit_eqI) (auto simp: bit_simps)
  then have "\<not> new_bit c (strike v c)"
    using len by (auto simp: new_bit_nth nth_strike)
  then show ?thesis using new_tuple_new_bit by (auto simp: novelty_def)
qed

lemma fold_upd_keys:
  "fold (\<lambda>b t. t(k b := F (k b))) xs t = (\<lambda>x. if x \<in> k ` set xs then F x else t x)"
  by (induction xs arbitrary: t) (auto simp: fun_eq_iff)

definition class_pair :: "u16 \<Rightarrow> u16" where
  "class_pair x = push_bit 8 (ucast (count_class_lookup8 (ucast (drop_bit 8 x)))) OR
     ucast (count_class_lookup8 (ucast x))"

lemma key_parts:
  assumes "b1 < 256" and "b2 < 256"
  shows "ucast (drop_bit 8 (push_bit 8 (of_nat b1) + of_nat b2 :: u16)) = (of_nat b1 :: u8)"
    and "ucast (push_bit 8 (of_nat b1) + of_nat b2 :: u16) = (of_nat b2 :: u8)"
    and "unat (push_bit 8 (of_nat b1) + of_nat b2 :: u16) = 256 * b1 + b2"
proof -
  have k: "(push_bit 8 (of_nat b1) + of_nat b2 :: u16) = of_nat (256 * b1 + b2)"
    by (simp add: push_bit_eq_mult)
  have u: "unat (of_nat (256 * b1 + b2) :: u16) = 256 * b1 + b2"
    by (subst unat_of_nat) (use assms in simp)
  show "unat (push_bit 8 (of_nat b1) + of_nat b2 :: u16) = 256 * b1 + b2"
    unfolding k u by (rule refl)
  have "unat (drop_bit 8 (of_nat (256 * b1 + b2) :: u16)) = b1"
    unfolding unat_drop_bit_eq u unfolding drop_bit_eq_div using assms by simp
  then show "ucast (drop_bit 8 (push_bit 8 (of_nat b1) + of_nat b2 :: u16)) = (of_nat b1 :: u8)"
    unfolding k using assms
    by (intro word_unat_eq_iff [THEN iffD2])
       (simp only: unsigned_ucast_eq unsigned_of_nat of_nat_id)
  have "take_bit LENGTH(8) (256 * b1 + b2) = take_bit LENGTH(8) b2"
    using assms by (simp add: take_bit_eq_mod)
  moreover have "unat (ucast (of_nat (256 * b1 + b2) :: u16) :: u8) = take_bit LENGTH(8) (256 * b1 + b2)"
    unfolding unsigned_ucast_eq u by (rule refl)
  moreover have "unat (of_nat b2 :: u8) = take_bit LENGTH(8) b2"
    by (simp only: unsigned_of_nat of_nat_id)
  ultimately show "ucast (push_bit 8 (of_nat b1) + of_nat b2 :: u16) = (of_nat b2 :: u8)"
    unfolding k word_unat_eq_iff by simp
qed

lemma init_count_class16_row:
  assumes "b1 < 256"
  shows "fold (\<lambda>b2 t. t(push_bit 8 (of_nat b1) + of_nat b2 :=
      push_bit 8 (ucast (count_class_lookup8 (of_nat b1))) OR
      ucast (count_class_lookup8 (of_nat b2)))) [0..<256] t =
    (\<lambda>x. if unat x div 256 = b1 then class_pair x else t x)"
proof -
  let ?k = "\<lambda>b2. push_bit 8 (of_nat b1) + of_nat b2 :: u16"
  have "fold (\<lambda>b2 t. t(?k b2 := push_bit 8 (ucast (count_class_lookup8 (of_nat b1))) OR
      ucast (count_class_lookup8 (of_nat b2)))) [0..<256] t =
    fold (\<lambda>b2 t. t(?k b2 := class_pair (?k b2))) [0..<256] t"
    by (rule fold_cong) (use assms in \<open>auto simp: class_pair_def key_parts\<close>)
  also have "\<dots> = (\<lambda>x. if x \<in> ?k ` set [0..<256] then class_pair x else t x)"
    by (rule fold_upd_keys)
  finally have f: "fold (\<lambda>b2 t. t(?k b2 := push_bit 8 (ucast (count_class_lookup8 (of_nat b1))) OR
      ucast (count_class_lookup8 (of_nat b2)))) [0..<256] t =
      (\<lambda>x. if x \<in> ?k ` set [0..<256] then class_pair x else t x)" .
  have "(x \<in> ?k ` set [0..<256]) \<longleftrightarrow> unat x div 256 = b1" for x
  proof
    assume "x \<in> ?k ` set [0..<256]"
    then obtain b2 where "b2 < 256" "x = ?k b2" by auto
    then show "unat x div 256 = b1" using key_parts(3) [OF assms, of b2] by simp
  next
    assume d: "unat x div 256 = b1"
    have m: "unat x mod 256 < 256" by simp
    have "unat (?k (unat x mod 256)) = unat x"
      unfolding key_parts(3) [OF assms m] using d by auto
    then have "x = ?k (unat x mod 256)" by (simp only: word_unat_eq_iff)
    then show "x \<in> ?k ` set [0..<256]" by (intro image_eqI [of _ _ "unat x mod 256"]) auto
  qed
  then show ?thesis unfolding f by simp
qed

lemma init_count_class16_eq: "init_count_class16 table = class_pair"
proof -
  have "fold (\<lambda>b1 t. fold (\<lambda>b2 t. t(push_bit 8 (of_nat b1) + of_nat b2 :=
         push_bit 8 (ucast (count_class_lookup8 (of_nat b1))) OR
         ucast (count_class_lookup8 (of_nat b2)))) [0..<256] t) [0..<n] table =
      (\<lambda>x. if unat x div 256 < n then class_pair x else table x)" if "n \<le> 256" for n
    using that
  proof (induction n)
    case (Suc n)
    have e: "[0..<Suc n] = [0..<n] @ [n]" by simp
    show ?case
      unfolding e fold_append o_apply Suc.IH [OF Suc_leD [OF Suc.prems]]
      using Suc.prems by (auto simp: init_count_class16_row fun_eq_iff less_Suc_eq)
  qed simp
  from this [of 256] have "init_count_class16 table =
      (\<lambda>x. if unat x div 256 < 256 then class_pair x else table x)"
    by (simp only: init_count_class16_def order_refl)
  moreover have "unat (x :: u16) div 256 < 256" for x
    using unsigned_less [where 'a = nat, of x] by (simp add: less_mult_imp_div_less)
  ultimately show ?thesis by simp
qed

subsection \<open>Classification and simplification, byte by byte\<close>

lemma ld_le_2: "(ld_le [a, b] :: u16) = ucast a OR push_bit 8 (ucast b)"
  by simp

lemma class_pair_bytes: "st16 (class_pair (ld_le [a, b])) = [count_class_lookup8 a, count_class_lookup8 b]"
proof -
  have lo: "ucast (ld_le [a, b] :: u16) = a"
    by (rule bit_eqI) (auto simp: bit_simps bit_ld_le nth_Cons' simp del: ld_le.simps dest: bit_imp_le_length)
  have hi: "ucast (drop_bit 8 (ld_le [a, b] :: u16)) = b"
    by (rule bit_eqI) (auto simp: bit_simps bit_ld_le nth_Cons' simp del: ld_le.simps dest: bit_imp_le_length)
  have "class_pair (ld_le [a, b]) = ld_le [count_class_lookup8 a, count_class_lookup8 b]"
    unfolding class_pair_def lo hi by (simp add: or.commute)
  then show ?thesis by (simp del: ld_le.simps)
qed

lemma length8_exhaust:
  assumes "length xs = 8"
  obtains a b c d e f g h where "xs = [a, b, c, d, e, f, g, h]"
  using assms by (auto simp: numeral_eq_Suc length_Suc_conv)

lemma ld64_zero_bytes:
  "length xs = 8 \<Longrightarrow> (ld_le xs :: u64) = 0 \<longleftrightarrow> xs = replicate 8 0"
  by (auto simp: ld_le_eq_0_iff list_eq_iff_nth_eq)

lemma count_class_lookup8_0 [simp]: "count_class_lookup8 0 = 0"
  by (simp add: count_class_lookup8_def)

lemma classify_step_bytes:
  assumes "length mem8 = 8"
  shows "classify_step class_pair mem8 = map count_class_lookup8 mem8"
proof (cases "ld64 mem8 = 0")
  case True
  then show ?thesis using assms by (simp add: classify_step_def ld64_zero_bytes map_replicate)
next
  case False
  from assms obtain a b c d e f g h where m: "mem8 = [a, b, c, d, e, f, g, h]"
    by (rule length8_exhaust)
  have "classify_step class_pair mem8 =
      st16 (class_pair (ld_le [a, b])) @ st16 (class_pair (ld_le [c, d])) @
      st16 (class_pair (ld_le [e, f])) @ st16 (class_pair (ld_le [g, h]))"
    using False by (simp add: classify_step_def m del: ld_le.simps)
  then show ?thesis unfolding class_pair_bytes m by simp
qed

lemma classify_loop_bytes:
  "length mem = 8 * i \<Longrightarrow> classify_loop class_pair i mem = map count_class_lookup8 mem"
proof (induction i arbitrary: mem)
  case (Suc i)
  have "classify_loop class_pair (Suc i) mem =
      map count_class_lookup8 (take 8 mem) @ map count_class_lookup8 (drop 8 mem)"
    using Suc by (simp add: classify_step_bytes)
  then show ?case by (simp flip: map_append)
qed simp

lemma classify_counts_eq:
  assumes "8 dvd length mem"
  shows "classify_counts_with (init_count_class16 table) mem = map count_class_lookup8 mem"
  using assms by (simp add: classify_counts_with_def init_count_class16_eq classify_loop_bytes)

lemma simplify_loop_bytes:
  "length mem = 8 * i \<Longrightarrow> simplify_loop i mem = map simplify_lookup mem"
proof (induction i arbitrary: mem)
  case (Suc i)
  have l8: "length (take 8 mem) = 8" using Suc.prems by simp
  obtain a b c d e f g h where m: "take 8 mem = [a, b, c, d, e, f, g, h]"
    using l8 by (rule length8_exhaust)
  have mem: "mem = [a, b, c, d, e, f, g, h] @ drop 8 mem"
    unfolding m [symmetric] by simp
  have "st64 0x0101010101010101 = [1, 1, 1, 1, 1, 1, 1, 1]"
    by (simp add: st_le_def upt_rec)
  then have z: "st64 0x0101010101010101 = replicate 8 1"
    by (simp only: replicate_Suc replicate_0 numeral_eq_Suc pred_numeral_simps BitM.simps)
  have IH: "simplify_loop i (drop 8 mem) = map simplify_lookup (drop 8 mem)"
    by (rule Suc.IH) (use Suc.prems in simp)
  show ?case
  proof (cases "ld64 mem = 0")
    case True
    then have "take 8 mem = replicate 8 0"
      using ld64_zero_bytes [OF l8] by simp
    then have "map simplify_lookup (take 8 mem) = replicate 8 1"
      by (simp add: map_replicate simplify_lookup_def)
    moreover have "simplify_loop (Suc i) mem = replicate 8 1 @ map simplify_lookup (drop 8 mem)"
      using True IH z by simp
    ultimately show ?thesis by (metis append_take_drop_id map_append)
  next
    case False
    then have "simplify_loop (Suc i) mem =
        map simplify_lookup (take 8 mem) @ map simplify_lookup (drop 8 mem)"
      unfolding m simplify_loop.simps IH by (subst (1 2 3 4 5 6 7 8) mem) simp
    then show ?thesis by (simp flip: map_append)
  qed
qed simp

lemma simplify_trace_eq:
  "8 dvd length mem \<Longrightarrow> simplify_trace mem = map simplify_lookup mem"
  by (auto simp: simplify_trace_def simplify_loop_bytes)

lemma length_set_map_bit [simp]: "length (set_map_bit i d) = length d"
  by (simp add: set_map_bit_def)

lemma map_bit_set:
  assumes "i < 8 * length d"
  shows "map_bit (set_map_bit i d) k \<longleftrightarrow> k = i \<or> map_bit d k"
proof (cases "k div 8 = i div 8")
  case True
  have "i div 8 < length d" using assms by linarith
  moreover have "k = i \<longleftrightarrow> k mod 8 = i mod 8" using True by (metis div_mod_decomp)
  ultimately show ?thesis
    using True
    by (simp add: map_bit_def set_map_bit_def bit_or_iff push_bit_of_1 bit_exp_iff) auto
next
  case False
  then show ?thesis by (auto simp: map_bit_def set_map_bit_def)
qed

lemma minimize_bits_fold:
  assumes "n \<le> 8 * length dst"
  shows "length (fold (\<lambda>i d. if src ! i \<noteq> 0 then set_map_bit i d else d) [0..<n] dst) = length dst \<and>
    (\<forall>k. map_bit (fold (\<lambda>i d. if src ! i \<noteq> 0 then set_map_bit i d else d) [0..<n] dst) k \<longleftrightarrow>
       map_bit dst k \<or> (k < n \<and> src ! k \<noteq> (0 :: u8)))"
  using assms
proof (induction n)
  case (Suc n)
  let ?f = "\<lambda>i d. if src ! i \<noteq> 0 then set_map_bit i d else d"
  have unf: "fold ?f [0..<Suc n] dst = ?f n (fold ?f [0..<n] dst)" by simp
  have IH: "length (fold ?f [0..<n] dst) = length dst"
    "\<And>k. map_bit (fold ?f [0..<n] dst) k \<longleftrightarrow> map_bit dst k \<or> (k < n \<and> src ! k \<noteq> 0)"
    using Suc by simp_all
  show ?case
    unfolding unf using IH Suc.prems
    by (cases "src ! n = 0") (auto simp: map_bit_set less_Suc_eq)
qed simp

lemma minimize_bits_eq:
  assumes "length src = 8 * length dst"
  shows "length (minimize_bits dst src) = length dst"
    and "map_bit (minimize_bits dst src) k \<longleftrightarrow> map_bit dst k \<or> (k < length src \<and> src ! k \<noteq> 0)"
  using minimize_bits_fold [of "length src" dst src] assms
  by (simp_all add: minimize_bits_def)

end
