(* ===== verification/Counters.thy ===== *)
theory Counters
  imports Bitmap
begin

unbundle bit_operations_syntax

section \<open>What the three map counters compute\<close>

text \<open>
  \<open>count_bits\<close>, \<open>count_bytes\<close> and \<open>count_non_255_bytes\<close> of
  \<open>src/afl/hybrid_metric/afl-fuzz.c\<close> (their definitions are in theory Bitmap): the SWAR
  population count and the two byte counters agree with counting bit by bit and byte by byte.
\<close>

subsection \<open>count_bits: the SWAR population count\<close>

text \<open>The set bits of a word; a 32-bit word is handled as its eight nibbles.\<close>

definition popcount :: "'a::len word \<Rightarrow> nat" where
  "popcount w = (\<Sum>j \<leftarrow> [0..<LENGTH('a)]. of_bool (bit w j))"

primrec ldn :: "4 word list \<Rightarrow> u32" where
  "ldn [] = 0"
| "ldn (n # ns) = ucast n + 16 * ldn ns"

lemma bit_ldn:
  "bit (ldn ns) j \<longleftrightarrow> j < 32 \<and> j < 4 * length ns \<and> bit (ns ! (j div 4)) (j mod 4)"
proof (induction ns arbitrary: j)
  case (Cons n ns)
  have "ucast n AND push_bit 4 (ldn ns) = 0"
    by (rule bit_eqI) (auto simp: bit_simps dest: bit_imp_le_length)
  then have s: "ldn (n # ns) = ucast n OR push_bit 4 (ldn ns)"
    by (simp add: disjunctive_add_eq_or push_bit_eq_mult mult.commute)
  show ?case
  proof (cases "j < 4")
    case True
    then show ?thesis unfolding s by (auto simp: bit_simps)
  next
    case False
    then obtain m where n: "j = m + 4" by (metis add.commute le_Suc_ex not_less)
    then have d: "j div 4 = Suc (m div 4)" "j mod 4 = m mod 4" by simp_all
    show ?thesis using n unfolding s d
      by (auto simp: bit_or_iff bit_push_bit_iff bit_ucast_iff Cons.IH dest: bit_imp_le_length)
  qed
qed simp

lemma word32_eqI: "list_all (\<lambda>j. bit v j = bit w j) [0..<32] \<Longrightarrow> v = (w :: u32)"
  by (rule bit_eqI) (simp add: list_all_iff)

lemma nib_ex: "\<exists>a b c d e f g h. v = ldn [a, b, c, d, e, f, g, h]"
proof -
  have "v = ldn (map (\<lambda>k. ucast (drop_bit (4 * k) v)) [0..<8])"
  proof (rule bit_eqI)
    fix j assume "possible_bit TYPE(32 word) j"
    then have j: "j < 32" by simp
    then have "j div 4 < 8" by linarith
    moreover have "4 * (j div 4) + j mod 4 = j" by simp
    ultimately show "bit v j \<longleftrightarrow> bit (ldn (map (\<lambda>k. ucast (drop_bit (4 * k) v)) [0..<8])) j"
      using j by (simp add: bit_ldn bit_ucast_iff bit_drop_bit_eq)
  qed
  then show ?thesis by (simp add: upt_rec del: ldn.simps) blast
qed

lemma swar1:
  "drop_bit 1 (ldn [a, b, c, d, e, f, g, h]) AND 0x55555555 =
   ldn (map (\<lambda>n. drop_bit 1 n AND 5) [a, b, c, d, e, f, g, h])"
  by (rule word32_eqI, simp add: bit_ldn upt_rec bit_simps del: ldn.simps, (simp add: numeral_2_eq_2 numeral_3_eq_3)?)

lemma swar2a:
  "ldn [a, b, c, d, e, f, g, h] AND 0x33333333 = ldn (map (\<lambda>n. n AND 3) [a, b, c, d, e, f, g, h])"
  by (rule word32_eqI, simp add: bit_ldn upt_rec bit_simps del: ldn.simps, (simp add: numeral_2_eq_2 numeral_3_eq_3)?)

lemma swar2b:
  "drop_bit 2 (ldn [a, b, c, d, e, f, g, h]) AND 0x33333333 =
   ldn (map (\<lambda>n. drop_bit 2 n AND 3) [a, b, c, d, e, f, g, h])"
  by (rule word32_eqI, simp add: bit_ldn upt_rec bit_simps del: ldn.simps, (simp add: numeral_2_eq_2 numeral_3_eq_3)?)

lemma swar3a: "drop_bit 4 (ldn [a, b, c, d, e, f, g, h]) = ldn [b, c, d, e, f, g, h, 0]"
  by (rule word32_eqI, simp add: bit_ldn upt_rec bit_simps del: ldn.simps, (simp add: numeral_2_eq_2 numeral_3_eq_3)?)

lemma swar3b:
  "ldn [a, b, c, d, e, f, g, h] AND 0xF0F0F0F = ldn [a, 0, c, 0, e, 0, g, 0]"
  by (rule word32_eqI, simp add: bit_ldn upt_rec bit_simps del: ldn.simps, (simp add: numeral_2_eq_2 numeral_3_eq_3)?)

lemma u4_exhaust: "list_all (\<lambda>n. P (of_nat n :: 4 word)) [0..<16] \<Longrightarrow> P (b :: 4 word)"
proof -
  assume "list_all (\<lambda>n. P (of_nat n :: 4 word)) [0..<16]"
  then have "\<forall>n\<in>{0..<16}. P (of_nat n)" by (simp add: list_all_iff)
  moreover have "unat b \<in> {0..<16}" using unsigned_less [where 'a = nat, of b] by simp
  ultimately have "P (of_nat (unat b))" by blast
  then show "P b" by simp
qed

definition nibble_count :: "4 word \<Rightarrow> 4 word" where
  "nibble_count n = (let x = n - (drop_bit 1 n AND 5) in (x AND 3) + (drop_bit 2 x AND 3))"

lemma nibble_sub: "(ucast (n - (drop_bit 1 n AND 5) :: 4 word) :: u32) = ucast n - ucast (drop_bit 1 n AND 5)"
  by (rule u4_exhaust) code_simp

lemma nibble_add: "(ucast ((x AND 3) + (drop_bit 2 x AND 3) :: 4 word) :: u32) = ucast (x AND 3) + ucast (drop_bit 2 x AND 3)"
  by (rule u4_exhaust) code_simp

lemma nibble_count: "unat (nibble_count n) = popcount n \<and> popcount n \<le> 4"
  by (rule u4_exhaust) code_simp


lemma nibble_small: "unat (nibble_count n) \<le> 4"
  using nibble_count [of n] by simp

lemma unat4_less: "unat (n :: 4 word) < 16"
  using unsigned_less [where 'a = nat, of n] by simp

lemma unat_ucast4: "unat (ucast n :: u32) = unat (n :: 4 word)"
  using unat4_less [of n] by (simp add: unsigned_ucast_eq take_bit_nat_eq_self)

lemma ucast_add_small:
  fixes x y :: "4 word"
  assumes "unat x \<le> 4" and "unat y \<le> 4"
  shows "(ucast (x + y) :: u32) = ucast x + ucast y"
proof -
  have "unat (x + y) = unat x + unat y"
    by (subst unat_word_ariths) (use assms in simp)
  moreover have "unat (ucast x + ucast y :: u32) = unat x + unat y"
    by (subst unat_word_ariths) (use assms in \<open>simp add: unat_ucast4\<close>)
  ultimately show ?thesis by (simp only: word_unat_eq_iff unat_ucast4)
qed

lemma sum_upt_blocks:
  "(\<Sum>j \<leftarrow> [0..<k * m]. f j) = (\<Sum>i \<leftarrow> [0..<m]. \<Sum>r \<leftarrow> [0..<k]. (f (k * i + r) :: nat))"
proof (induction m)
  case (Suc m)
  have "[0..<k * Suc m] = [0..<k * m + k]" by (simp add: add.commute)
  also have "\<dots> = [0..<k * m] @ [k * m..<k * m + k]" by (rule upt_add_eq_append) simp
  also have "[k * m..<k * m + k] = map (\<lambda>r. k * m + r) [0..<k]"
    using map_add_upt [of "k * m" k] by (simp add: add.commute)
  finally show ?case using Suc by (simp add: o_def)
qed simp

lemma popcount_ldn:
  assumes "length ns = 8"
  shows "popcount (ldn ns) = (\<Sum>n \<leftarrow> ns. popcount n)"
proof -
  have "popcount (ldn ns) = (\<Sum>j \<leftarrow> [0..<4 * 8]. of_bool (bit (ldn ns) j))"
    by (simp add: popcount_def)
  also have "\<dots> = (\<Sum>i \<leftarrow> [0..<8]. \<Sum>r \<leftarrow> [0..<4]. of_bool (bit (ldn ns) (4 * i + r)))"
    by (rule sum_upt_blocks)
  also have "\<dots> = (\<Sum>i \<leftarrow> [0..<8]. popcount (ns ! i))"
  proof (intro arg_cong [where f = sum_list] map_cong refl)
    fix i assume "i \<in> set [0..<8]"
    then have i: "i < 8" by simp
    show "(\<Sum>r \<leftarrow> [0..<4]. of_bool (bit (ldn ns) (4 * i + r))) = popcount (ns ! i)"
      unfolding popcount_def using i assms
      by (intro arg_cong [where f = sum_list] map_cong) (auto simp: bit_ldn)
  qed
  also have "map (\<lambda>i. popcount (ns ! i)) [0..<8] = map popcount ns"
    by (rule nth_equalityI) (use assms in auto)
  finally show ?thesis .
qed

lemma popcount_ld_le:
  assumes "length bs = 4"
  shows "popcount (ld_le bs :: u32) = (\<Sum>b \<leftarrow> bs. popcount b)"
proof -
  have "popcount (ld_le bs :: u32) = (\<Sum>j \<leftarrow> [0..<8 * 4]. of_bool (bit (ld_le bs :: u32) j))"
    by (simp add: popcount_def)
  also have "\<dots> = (\<Sum>i \<leftarrow> [0..<4]. \<Sum>r \<leftarrow> [0..<8]. of_bool (bit (ld_le bs :: u32) (8 * i + r)))"
    by (rule sum_upt_blocks)
  also have "\<dots> = (\<Sum>i \<leftarrow> [0..<4]. popcount (bs ! i))"
  proof (intro arg_cong [where f = sum_list] map_cong refl)
    fix i assume "i \<in> set [0..<4]"
    then have i: "i < 4" by simp
    show "(\<Sum>r \<leftarrow> [0..<8]. of_bool (bit (ld_le bs :: u32) (8 * i + r))) = popcount (bs ! i)"
      unfolding popcount_def using i assms
      by (intro arg_cong [where f = sum_list] map_cong) (auto simp: bit_ld_le)
  qed
  also have "map (\<lambda>i. popcount (bs ! i)) [0..<4] = map popcount bs"
    by (rule nth_equalityI) (use assms in auto)
  finally show ?thesis .
qed

primrec hval :: "4 word list \<Rightarrow> nat" where
  "hval [] = 0"
| "hval (n # ns) = unat n + 16 * hval ns"

lemma unat_ldn:
  "length ns \<le> 8 \<Longrightarrow> unat (ldn ns) = hval ns \<and> hval ns < 16 ^ length ns"
proof (induction ns)
  case (Cons n ns)
  then have IH: "unat (ldn ns) = hval ns" and b: "hval ns < 16 ^ length ns" by simp_all
  have "(16 :: nat) ^ length ns \<le> 16 ^ 7" by (rule power_increasing) (use Cons.prems in auto)
  then have h: "hval ns < 268435456" using b by simp
  have "unat (16 * ldn ns) = 16 * hval ns"
    by (subst unat_word_ariths) (use h IH in simp)
  then have "unat (ldn (n # ns)) = unat n + 16 * hval ns"
    unfolding ldn.simps using h unat4_less [of n]
    by (subst unat_word_ariths) (simp add: unat_ucast4)
  then show ?case using b unat4_less [of n] by simp
qed simp

lemma swar_mult:
  assumes "p \<le> 8" "q \<le> 8" "r \<le> 8" "s \<le> 8"
  shows "drop_bit 24 ((of_nat p + 256 * of_nat q + 65536 * of_nat r + 16777216 * of_nat s) * 0x01010101 :: u32)
    = of_nat (p + q + r + s)"
proof -
  let ?m = "p + 256 * (p + q) + 65536 * (p + q + r) + 16777216 * (p + q + r + s)"
  have e: "(of_nat p + 256 * of_nat q + 65536 * of_nat r + 16777216 * of_nat s) * 0x01010101 = (of_nat ?m :: u32)"
  proof -
    have z: "(4294967296 :: u32) = 0" "(1103806595072 :: u32) = 0" "(282578783305728 :: u32) = 0"
      by simp_all
    show ?thesis by (simp add: algebra_simps z)
  qed
  have "?m < 2 ^ 32" using assms by simp
  then have "unat (of_nat ?m :: u32) = ?m" by (simp only: unsigned_of_nat of_nat_id) (simp add: take_bit_nat_eq_self)
  then have "unat (drop_bit 24 (of_nat ?m :: u32)) = ?m div 2 ^ 24"
    by (simp only: unat_drop_bit_eq drop_bit_eq_div [where 'a = nat])
  also have "\<dots> = p + q + r + s"
    using assms by simp
  finally have "unat (drop_bit 24 (of_nat ?m :: u32)) = p + q + r + s" .
  moreover have "unat (of_nat (p + q + r + s) :: u32) = p + q + r + s"
    using assms by (simp only: unsigned_of_nat of_nat_id) (simp add: take_bit_nat_eq_self)
  ultimately have "drop_bit 24 (of_nat ?m :: u32) = of_nat (p + q + r + s)"
    by (simp only: word_unat_eq_iff)
  then show ?thesis unfolding e .
qed


definition swar :: "u32 \<Rightarrow> u32" where
  "swar v =
     (let v1 = v - (drop_bit 1 v AND 0x55555555);
          v2 = (v1 AND 0x33333333) + (drop_bit 2 v1 AND 0x33333333)
      in drop_bit 24 (((v2 + drop_bit 4 v2) AND 0xF0F0F0F) * 0x01010101))"

lemma swar_popcount: "swar v = of_nat (popcount v)"
proof -
  obtain a b c d e f g h where v: "v = ldn [a, b, c, d, e, f, g, h]"
    using nib_ex [of v] by blast
  let ?x = "\<lambda>n. n - (drop_bit 1 n AND 5) :: 4 word"
  have v1: "v - (drop_bit 1 v AND 0x55555555) = ldn (map ?x [a, b, c, d, e, f, g, h])"
    unfolding v unfolding swar1 unfolding list.map ldn.simps nibble_sub by (simp add: algebra_simps)
  have v2: "(ldn (map ?x [a, b, c, d, e, f, g, h]) AND 0x33333333) +
      (drop_bit 2 (ldn (map ?x [a, b, c, d, e, f, g, h])) AND 0x33333333) =
      ldn (map nibble_count [a, b, c, d, e, f, g, h])"
    unfolding list.map swar2a swar2b unfolding list.map ldn.simps nibble_count_def Let_def nibble_add by (simp add: algebra_simps)
  let ?n = nibble_count
  have v3: "(ldn (map ?n [a, b, c, d, e, f, g, h]) + drop_bit 4 (ldn (map ?n [a, b, c, d, e, f, g, h])))
      AND 0xF0F0F0F = ldn [?n a + ?n b, 0, ?n c + ?n d, 0, ?n e + ?n f, 0, ?n g + ?n h, 0]"
  proof -
    have "ldn (map ?n [a, b, c, d, e, f, g, h]) + drop_bit 4 (ldn (map ?n [a, b, c, d, e, f, g, h])) =
        ldn [?n a + ?n b, ?n b + ?n c, ?n c + ?n d, ?n d + ?n e, ?n e + ?n f, ?n f + ?n g, ?n g + ?n h, ?n h]"
      unfolding list.map swar3a by (simp add: ucast_add_small nibble_small algebra_simps)
    then show ?thesis by (simp only: swar3b)
  qed
  have n: "ucast (?n x + ?n y) = (of_nat (popcount x + popcount y) :: u32)" for x y
  proof -
    have "unat (?n x + ?n y) = popcount x + popcount y"
      by (subst unat_word_ariths) (use nibble_count [of x] nibble_count [of y] in simp)
    then have "unat (ucast (?n x + ?n y) :: u32) = popcount x + popcount y"
      by (simp only: unat_ucast4)
    moreover have "unat (of_nat (popcount x + popcount y) :: u32) = popcount x + popcount y"
      using nibble_count [of x] nibble_count [of y]
      by (simp only: unsigned_of_nat of_nat_id) (simp add: take_bit_nat_eq_self)
    ultimately show ?thesis by (simp only: word_unat_eq_iff)
  qed
  let ?p = "popcount a + popcount b" and ?q = "popcount c + popcount d"
    and ?r = "popcount e + popcount f" and ?s = "popcount g + popcount h"
  have "ldn [?n a + ?n b, 0, ?n c + ?n d, 0, ?n e + ?n f, 0, ?n g + ?n h, 0] =
      of_nat ?p + 256 * of_nat ?q + 65536 * of_nat ?r + 16777216 * of_nat ?s"
    unfolding ldn.simps n by simp
  moreover have "drop_bit 24 ((of_nat ?p + 256 * of_nat ?q + 65536 * of_nat ?r + 16777216 * of_nat ?s)
      * 0x01010101) = (of_nat (?p + ?q + ?r + ?s) :: u32)"
    by (rule swar_mult) (use nibble_count in \<open>simp_all add: add_le_mono [of _ 4 _ 4, simplified]\<close>)
  ultimately have "swar v = of_nat (?p + ?q + ?r + ?s)"
    unfolding swar_def Let_def v1 v2 v3 by simp
  then show ?thesis unfolding v by (simp add: popcount_ldn add.assoc del: ldn.simps)
qed

lemma popcount_max: "popcount (0xffffffff :: u32) = 32"
  by (simp add: popcount_def upt_rec)

lemma count_bits_loop_spec:
  "length mem = 4 * i \<Longrightarrow> count_bits_loop i mem ret = ret + of_nat (\<Sum>b \<leftarrow> mem. popcount b)"
proof (induction i arbitrary: mem ret)
  case (Suc i)
  let ?v = "ld32 mem"
  have l: "length (take 4 mem) = 4" "length (drop 4 mem) = 4 * i" using Suc.prems by simp_all
  have p: "popcount ?v = (\<Sum>b \<leftarrow> take 4 mem. popcount b)"
    by (rule popcount_ld_le [OF l(1)])
  have "count_bits_loop (Suc i) mem ret = count_bits_loop i (drop 4 mem) (ret + of_nat (popcount ?v))"
  proof (cases "?v = 0xffffffff")
    case True
    then have "popcount ?v = 32" using popcount_max by simp
    then show ?thesis using True by simp
  next
    case False
    then show ?thesis using swar_popcount [of ?v] by (simp add: swar_def Let_def)
  qed
  also have "\<dots> = ret + of_nat (popcount ?v) + of_nat (\<Sum>b \<leftarrow> drop 4 mem. popcount b)"
    by (rule Suc.IH [OF l(2)])
  also have "\<dots> = ret + of_nat ((\<Sum>b \<leftarrow> take 4 mem. popcount b) + (\<Sum>b \<leftarrow> drop 4 mem. popcount b))"
    unfolding p by simp
  also have "(\<Sum>b \<leftarrow> take 4 mem. popcount b) + (\<Sum>b \<leftarrow> drop 4 mem. popcount b) = (\<Sum>b \<leftarrow> mem. popcount b)"
    by (metis append_take_drop_id map_append sum_list_append)
  finally show ?case .
qed simp

lemma length4_exhaust:
  assumes "length xs = 4"
  obtains a b c d where "xs = [a, b, c, d]"
  using assms by (auto simp: numeral_eq_Suc length_Suc_conv)

text \<open>The mask \<open>FF(k)\<close> keeps byte \<open>k\<close> and clears the others.\<close>

lemma FF_ld_le:
  "FF 0 = ld_le [0xff, 0, 0, 0]" "FF 1 = ld_le [0, 0xff, 0, 0]"
  "FF 2 = ld_le [0, 0, 0xff, 0]" "FF 3 = ld_le [0, 0, 0, 0xff]"
  by (simp_all add: FF_def)

lemma ld_le_inj_4:
  "(ld_le [a, b, c, d] :: u32) = ld_le [a', b', c', d'] \<longleftrightarrow> a = a' \<and> b = b' \<and> c = c' \<and> d = d'"
  (is "?l = ?r \<longleftrightarrow> _")
proof
  assume "?l = ?r"
  then have "st_le 4 ?l = st_le 4 ?r" by (rule arg_cong)
  then show "a = a' \<and> b = b' \<and> c = c' \<and> d = d'"
    by (subst (asm) (1 2) st_le_ld_le) simp_all
qed simp

lemma u8_and_ff [simp]: "x AND 0xff = (x :: u8)"
proof -
  have "(0xff :: u8) = - 1" by simp
  then show ?thesis by (simp only: and.right_neutral)
qed

lemma FF_and:
  "ld_le [a, b, c, d] AND FF 0 = ld_le [a, 0, 0, 0]" "ld_le [a, b, c, d] AND FF 1 = ld_le [0, b, 0, 0]"
  "ld_le [a, b, c, d] AND FF 2 = ld_le [0, 0, c, 0]" "ld_le [a, b, c, d] AND FF 3 = ld_le [0, 0, 0, d]"
  unfolding FF_ld_le by (subst ld_le_and, simp, simp del: ld_le.simps)+

lemma ld32_all_0: "(ld_le [a, b, c, d] :: u32) = 0 \<longleftrightarrow> a = 0 \<and> b = 0 \<and> c = 0 \<and> d = 0"
proof -
  have "(0 :: u32) = ld_le [0, 0, 0, 0]" by simp
  then show ?thesis by (metis ld_le_inj_4)
qed

lemma FF_byte_0:
  "ld_le [a, b, c, d] AND FF 0 = 0 \<longleftrightarrow> a = 0" "ld_le [a, b, c, d] AND FF 1 = 0 \<longleftrightarrow> b = 0"
  "ld_le [a, b, c, d] AND FF 2 = 0 \<longleftrightarrow> c = 0" "ld_le [a, b, c, d] AND FF 3 = 0 \<longleftrightarrow> d = 0"
  unfolding FF_and ld32_all_0 by simp_all

lemma FF_byte_255:
  "ld_le [a, b, c, d] AND FF 0 = FF 0 \<longleftrightarrow> a = 0xff" "ld_le [a, b, c, d] AND FF 1 = FF 1 \<longleftrightarrow> b = 0xff"
  "ld_le [a, b, c, d] AND FF 2 = FF 2 \<longleftrightarrow> c = 0xff" "ld_le [a, b, c, d] AND FF 3 = FF 3 \<longleftrightarrow> d = 0xff"
  unfolding FF_and unfolding FF_ld_le unfolding ld_le_inj_4 by simp_all

lemma ld32_all_255:
  "(ld_le [a, b, c, d] :: u32) = 0xffffffff \<longleftrightarrow> a = 0xff \<and> b = 0xff \<and> c = 0xff \<and> d = 0xff"
proof -
  have "(0xffffffff :: u32) = ld_le [0xff, 0xff, 0xff, 0xff]" by simp
  then show ?thesis by (metis ld_le_inj_4)
qed

lemma count_bytes_loop_spec:
  "length mem = 4 * i \<Longrightarrow>
   count_bytes_loop i mem ret = ret + of_nat (length (filter (\<lambda>b. b \<noteq> 0) mem))"
proof (induction i arbitrary: mem ret)
  case (Suc i)
  have l: "length (take 4 mem) = 4" using Suc.prems by simp
  obtain a b c d where m: "take 4 mem = [a, b, c, d]" using l by (rule length4_exhaust)
  have mem: "mem = [a, b, c, d] @ drop 4 mem" unfolding m [symmetric] by simp
  have "count_bytes_loop (Suc i) mem ret =
      count_bytes_loop i (drop 4 mem) (ret + of_nat (length (filter (\<lambda>b. b \<noteq> 0) [a, b, c, d])))"
    unfolding count_bytes_loop.simps m Let_def ld32_all_0 FF_byte_0 by (simp add: add.commute)
  also have "\<dots> = ret + of_nat (length (filter (\<lambda>b. b \<noteq> 0) [a, b, c, d])) +
      of_nat (length (filter (\<lambda>b. b \<noteq> 0) (drop 4 mem)))"
    by (rule Suc.IH) (use Suc.prems in simp)
  also have "\<dots> = ret + of_nat (length (filter (\<lambda>b. b \<noteq> 0) ([a, b, c, d] @ drop 4 mem)))"
    by (simp only: filter_append length_append of_nat_add add.assoc)
  finally show ?case unfolding mem [symmetric] .
qed simp

lemma count_non_255_loop_spec:
  "length mem = 4 * i \<Longrightarrow>
   count_non_255_loop i mem ret = ret + of_nat (length (filter (\<lambda>b. b \<noteq> 0xff) mem))"
proof (induction i arbitrary: mem ret)
  case (Suc i)
  have l: "length (take 4 mem) = 4" using Suc.prems by simp
  obtain a b c d where m: "take 4 mem = [a, b, c, d]" using l by (rule length4_exhaust)
  have mem: "mem = [a, b, c, d] @ drop 4 mem" unfolding m [symmetric] by simp
  have "count_non_255_loop (Suc i) mem ret =
      count_non_255_loop i (drop 4 mem) (ret + of_nat (length (filter (\<lambda>b. b \<noteq> 0xff) [a, b, c, d])))"
    unfolding count_non_255_loop.simps m Let_def ld32_all_255 FF_byte_255 by (simp add: add.commute)
  also have "\<dots> = ret + of_nat (length (filter (\<lambda>b. b \<noteq> 0xff) [a, b, c, d])) +
      of_nat (length (filter (\<lambda>b. b \<noteq> 0xff) (drop 4 mem)))"
    by (rule Suc.IH) (use Suc.prems in simp)
  also have "\<dots> = ret + of_nat (length (filter (\<lambda>b. b \<noteq> 0xff) ([a, b, c, d] @ drop 4 mem)))"
    by (simp only: filter_append length_append of_nat_add add.assoc)
  finally show ?case unfolding mem [symmetric] .
qed simp

lemma count_bits_eq: "4 dvd length mem \<Longrightarrow> count_bits mem = of_nat (\<Sum>b \<leftarrow> mem. popcount b)"
  by (auto simp: count_bits_def count_bits_loop_spec)

lemma count_bytes_eq:
  "4 dvd length mem \<Longrightarrow> count_bytes mem = of_nat (length (filter (\<lambda>b. b \<noteq> 0) mem))"
  by (auto simp: count_bytes_def count_bytes_loop_spec)

lemma count_non_255_bytes_eq:
  "4 dvd length mem \<Longrightarrow> count_non_255_bytes mem = of_nat (length (filter (\<lambda>b. b \<noteq> 0xff) mem))"
  by (auto simp: count_non_255_bytes_def count_non_255_loop_spec)

subsection \<open>Properties\<close>

text \<open>
  C16: \<open>has_new_bits\<close>, in its 64-bit and in its 32-bit flavour, is the byte-wise novelty test:
  2 when some byte is hit whose virgin byte is still 255, else 1 when some virgin bit is hit, else
  0; it clears exactly the hit bits of the virgin map, so that a second call on the same trace
  returns 0.
\<close>

theorem has_new_bits_spec:
  assumes "8 dvd length trace_bits" and "length virgin_map = length trace_bits"
  shows "has_new_bits64 trace_bits virgin_map =
      (novelty trace_bits virgin_map, strike virgin_map trace_bits) \<and>
    has_new_bits32 trace_bits virgin_map = has_new_bits64 trace_bits virgin_map \<and>
    fst (has_new_bits64 trace_bits (snd (has_new_bits64 trace_bits virgin_map))) = 0"
proof -
  have d4: "4 dvd length trace_bits" by (rule dvd_trans [OF _ assms(1)]) simp
  show ?thesis
    using assms has_new_bits32_eq [OF d4 assms(2)]
    by (simp add: has_new_bits64_eq novelty_strike)
qed

theorem has_new_bits_spec_witness:
  "has_new_bits64 [0, 1, 0, 0, 2, 0, 0, 0] [255, 255, 255, 255, 253, 255, 255, 255] =
     (2, [255, 254, 255, 255, 253, 255, 255, 255]) \<and>
   has_new_bits32 [0, 0, 0, 0, 4, 0, 0, 0] [255, 255, 255, 255, 254, 255, 255, 255] =
     (1, [255, 255, 255, 255, 250, 255, 255, 255])"
  using has_new_bits_spec [of "[0, 1, 0, 0, 2, 0, 0, 0]" "[255, 255, 255, 255, 253, 255, 255, 255]"]
    has_new_bits_spec [of "[0, 0, 0, 0, 4, 0, 0, 0]" "[255, 255, 255, 255, 254, 255, 255, 255]"]
  by (simp add: novelty_def new_tuple_def new_bit_def strike_def)

text \<open>
  C17: The hybrid-metric tests: \<open>has_max_metric\<close> answers 1 exactly when some counter exceeds
  its recorded maximum, and \<open>has_new_metric\<close> gives the verdict of \<open>has_new_bits\<close> on the
  bytes of the counters and clears the hit bits counter by counter.
\<close>

theorem hybrid_metric_tests:
  assumes "length max_metric = length metric_bits" and "length virgin_metric = length metric_bits"
  shows "has_max_metric metric_bits max_metric =
      (if \<exists>k < length metric_bits. max_metric ! k < metric_bits ! k then 1 else 0) \<and>
    has_new_metric virgin_metric metric_bits =
      (novelty (map_bytes metric_bits) (map_bytes virgin_metric),
       map2 (\<lambda>v c. v AND NOT c) virgin_metric metric_bits) \<and>
    fst (has_new_metric virgin_metric metric_bits) =
      fst (has_new_bits32 (map_bytes metric_bits) (map_bytes virgin_metric))"
  using assms by (simp_all add: has_max_metric_def has_max_metric_loop_spec has_new_metric_eq
      has_new_bits32_eq)

theorem hybrid_metric_tests_witness:
  "has_max_metric [0, 7] [0, 6] = 1 \<and> has_max_metric [0, 7] [0, 7] = 0 \<and>
   snd (has_new_metric [0xffffffff, 0xffffffff] [0, 7]) = [0xffffffff, 0xfffffff8]"
  using hybrid_metric_tests [of "[0, 6]" "[0, 7]" "[0xffffffff, 0xffffffff]"]
    hybrid_metric_tests [of "[0, 7]" "[0, 7]" "[0xffffffff, 0xffffffff]"]
  by (simp add: Ex_less_Suc2)

text \<open>
  C38: \<open>classify_counts\<close>, whose 16-bit table is filled by the two loops of
  \<open>init_count_class16\<close> whatever it held before, replaces every byte of the trace by its
  hit-count class, and \<open>simplify_trace\<close> replaces every byte by hit or not hit; both leave no
  other trace of the 8-byte stepping.
\<close>

theorem classify_and_simplify_bytewise:
  assumes "8 dvd length mem"
  shows "classify_counts_with (init_count_class16 table) mem = map count_class_lookup8 mem \<and>
    simplify_trace mem = map simplify_lookup mem \<and>
    simplify_trace (classify_counts_with (init_count_class16 table) mem) = simplify_trace mem"
proof -
  have "simplify_lookup (count_class_lookup8 x) = simplify_lookup x" for x
    by (simp add: simplify_lookup_def count_class_lookup8_def)
  then show ?thesis
    using assms by (simp add: classify_counts_eq simplify_trace_eq)
qed

theorem classify_and_simplify_bytewise_witness:
  "classify_counts_with (init_count_class16 (\<lambda>_. 0)) [0, 1, 2, 3, 7, 31, 127, 255] =
     [0, 1, 2, 4, 8, 32, 64, 128] \<and>
   simplify_trace [0, 1, 2, 3, 7, 31, 127, 0] = [1, 128, 128, 128, 128, 128, 128, 1]"
  using classify_and_simplify_bytewise [of "[0, 1, 2, 3, 7, 31, 127, 255]" "\<lambda>_. 0"]
    classify_and_simplify_bytewise [of "[0, 1, 2, 3, 7, 31, 127, 0]" "\<lambda>_. 0"]
  by (simp add: count_class_lookup8_def simplify_lookup_def)

text \<open>
  Compaction and counting agree: after \<open>minimize_bits\<close> into a cleared map, bit \<open>k\<close> is set
  exactly when byte \<open>k\<close> of the trace was hit.
\<close>

theorem minimize_bits_spec:
  assumes "length src = 8 * length dst" and "k < length src"
  shows "(map_bit (minimize_bits (map (\<lambda>_. 0) dst) src) k \<longleftrightarrow> src ! k \<noteq> 0) \<and>
    length (minimize_bits dst src) = length dst"
proof -
  have "\<not> map_bit (map (\<lambda>_. 0) dst) k"
  proof -
    have "k div 8 < length dst" using assms by linarith
    then show ?thesis by (simp add: map_bit_def)
  qed
  then show ?thesis
    using minimize_bits_eq(2) [of src "map (\<lambda>_. 0) dst"] minimize_bits_eq(1) [OF assms(1)] assms
    by simp
qed

theorem minimize_bits_spec_witness:
  "map_bit (minimize_bits [0] [0, 0, 9, 0, 0, 0, 0, 0]) 2 \<and>
   \<not> map_bit (minimize_bits [0] [0, 0, 9, 0, 0, 0, 0, 0]) 3"
  using minimize_bits_spec [of "[0, 0, 9, 0, 0, 0, 0, 0]" "[0]" 2]
    minimize_bits_spec [of "[0, 0, 9, 0, 0, 0, 0, 0]" "[0]" 3] by simp

text \<open>
  The three counters of a map of whole 32-bit words: \<open>count_bits\<close> (the SWAR population
  count with its all-ones shortcut) is the number of set bits, \<open>count_bytes\<close> the number of
  non-zero bytes and \<open>count_non_255_bytes\<close> the number of bytes other than 255, as \<open>u32\<close>.
\<close>

theorem map_counters:
  assumes "4 dvd length mem"
  shows "count_bits mem = of_nat (\<Sum>b \<leftarrow> mem. popcount b) \<and>
    count_bytes mem = of_nat (length (filter (\<lambda>b. b \<noteq> 0) mem)) \<and>
    count_non_255_bytes mem = of_nat (length (filter (\<lambda>b. b \<noteq> 0xff) mem))"
  using assms by (simp_all add: count_bits_eq count_bytes_eq count_non_255_bytes_eq)

theorem map_counters_witness:
  "count_bytes [255, 0, 3, 1] = 3 \<and> count_non_255_bytes [255, 0, 3, 1] = 3 \<and>
   count_bits [255, 0, 3, 1] = 11"
  using map_counters [of "[255, 0, 3, 1]"]
  by (simp add: popcount_def upt_rec bit_numeral_rec)

end
