(* ===== verification/World.thy ===== *)
theory World
  imports Prelude "HOL-Library.Multiset"
begin

section \<open>The world around the fuzzer: random numbers, clock, files, target\<close>

text \<open>
  What \<open>src/afl/hybrid_metric/afl-fuzz.c\<close> gets from outside is the record \<open>env\<close>, a parameter
  of every definition that uses it: the values of \<open>random()\<close> after \<open>srandom(seed)\<close>, the bytes
  of \<open>/dev/urandom\<close>, the readings of the clock, which paths can be created, the listings of
  directories, what the target does
  with an input (by the number of runs so far, the input, the timeout and the \<open>prev_timed_out\<close> word
  the fork server is sent), the screen refresh
  rate (a floating-point average of the execution speed), two environment variables, the text of
  the crash README, and the
  optional post-processor library. The record \<open>world\<close> is the state the
  fuzzer keeps for them: \<open>rand_cnt\<close> and the position in the random sequence, the number of clock
  readings so far, the files under the output directory, and \<open>out_dir\<close> itself. Later theories
  extend \<open>world\<close> by the globals of their component.
\<close>

subsection \<open>The environment\<close>

datatype fnode = Regular bytes | Symlink string

text \<open>
  One run of the target: what it leaves in the two shared maps, the status word of
  \<open>waitpid\<close>, whether the \<open>SIGALRM\<close> handler fired, which signals the fuzzer itself got while
  waiting (\<open>SIGINT\<close> and friends set \<open>stop_soon\<close>, \<open>SIGUSR1\<close> sets \<open>skip_requested\<close>), the pid
  the fork server answered and how the pipe transfers went.
\<close>

datatype fsrv_io = Io_ok | Io_request_failed | Io_status_failed

record run =
  r_trace :: bytes
  r_hybrid :: "u32 list"
  r_status :: u32
  r_timed_out :: bool
  r_stop :: bool
  r_skip :: bool
  r_pid :: "32 word"
  r_io :: fsrv_io

record env =
  random_of :: "u32 \<Rightarrow> nat \<Rightarrow> u32"
  urandom :: "nat \<Rightarrow> u32 \<times> u32"
  clock_us :: "nat \<Rightarrow> u64"
  creatable :: "string \<Rightarrow> bool"
  readdir :: "string \<Rightarrow> string list option"
  target :: "nat \<Rightarrow> bytes \<Rightarrow> u32 \<Rightarrow> bool \<Rightarrow> run"
  exec_freq :: "nat \<Rightarrow> u32"
  exit_when_done :: bool
  bench_until_crash :: bool
  readme_text :: bytes
  post_handler :: "(bytes \<Rightarrow> bytes option) option"

record world =
  rand_cnt :: u32
  rng_seed :: u32
  rng_pos :: nat
  urandom_pos :: nat
  ticks :: nat
  fs :: "string \<Rightarrow> fnode option"
  out_dir :: string

subsection \<open>Random numbers\<close>

text \<open>\<open>RESEED_RNG\<close> of \<open>config.h\<close>.\<close>

definition RESEED_RNG :: u32 where "RESEED_RNG = 10000"

text \<open>The reseeding test reads \<open>rand_cnt\<close> before it is decremented.\<close>

definition UR :: "env \<Rightarrow> u32 \<Rightarrow> 'a world_scheme \<Rightarrow> (u32 \<times> 'a world_scheme) res" where
  "UR E limit s =
     (let c = rand_cnt s;
          s1 = s\<lparr>rand_cnt := c - 1\<rparr>;
          s2 = (if c = 0 then
                  (let seed = urandom E (urandom_pos s1) in
                   s1\<lparr>urandom_pos := Suc (urandom_pos s1), rng_seed := fst seed, rng_pos := 0,
                      rand_cnt := RESEED_RNG div 2 + snd seed mod RESEED_RNG\<rparr>)
                else s1)
      in if limit = 0 then Inl DivByZero
         else Inr (random_of E (rng_seed s2) (rng_pos s2) mod limit,
                   s2\<lparr>rng_pos := Suc (rng_pos s2)\<rparr>))"

text \<open>
  What a draw may touch: nothing but the four cells of the generator. The relation is used by
  every routine that draws numbers.
\<close>

definition no_rng :: "'a world_scheme \<Rightarrow> 'a world_scheme" where
  "no_rng s = s\<lparr>rand_cnt := 0, rng_seed := 0, rng_pos := 0, urandom_pos := 0\<rparr>"

definition rng_only :: "'a world_scheme \<Rightarrow> 'a world_scheme \<Rightarrow> bool" where
  "rng_only s t \<longleftrightarrow> no_rng s = no_rng t"

lemma rng_only_refl [simp]: "rng_only s s"
  by (simp add: rng_only_def)

lemma rng_only_trans [trans]: "rng_only s t \<Longrightarrow> rng_only t u \<Longrightarrow> rng_only s u"
  by (simp add: rng_only_def)

lemma rng_only_frame:
  assumes "rng_only s t"
  shows "fs t = fs s" and "ticks t = ticks s" and "out_dir t = out_dir s" and "world.more t = world.more s"
proof -
  have e: "no_rng s = no_rng t" using assms by (simp add: rng_only_def)
  show "fs t = fs s" using arg_cong [OF e, of fs] by (simp add: no_rng_def)
  show "ticks t = ticks s" using arg_cong [OF e, of ticks] by (simp add: no_rng_def)
  show "out_dir t = out_dir s" using arg_cong [OF e, of out_dir] by (simp add: no_rng_def)
  show "world.more t = world.more s" using arg_cong [OF e, of world.more] by (simp add: no_rng_def)
qed

lemma UR_rng_only: "UR E limit s = Inr (r, t) \<Longrightarrow> rng_only s t"
  by (auto simp: UR_def rng_only_def no_rng_def Let_def split: if_splits)

lemma UR_bound: "UR E limit s = Inr (r, t) \<Longrightarrow> r < limit"
  unfolding UR_def Let_def
  by (auto split: if_splits intro: word_mod_less_divisor simp: word_gt_0)

lemma UR_total: "limit \<noteq> 0 \<Longrightarrow> \<exists>r t. UR E limit s = Inr (r, t)"
  by (simp add: UR_def Let_def)

lemma UR_zero [simp]: "UR E 0 s = Inl DivByZero"
  by (simp add: UR_def Let_def)

text \<open>
  \<open>shuffle_ptrs(ptrs, cnt)\<close>: the loop bound is the \<open>u32\<close> value \<open>cnt - 2\<close>; an index past the
  array is \<open>OutOfBounds\<close>.
\<close>

fun shuffle_loop :: "env \<Rightarrow> nat \<Rightarrow> u32 \<Rightarrow> u32 \<Rightarrow> 'p list \<Rightarrow> 'a world_scheme \<Rightarrow>
    ('p list \<times> 'a world_scheme) res" where
  "shuffle_loop E 0 i cnt ptrs s = Inr (ptrs, s)"
| "shuffle_loop E (Suc n) i cnt ptrs s =
     bnd (UR E (cnt - i) s) (\<lambda>(r, s').
       let j = i + r in
       if unat i < length ptrs \<and> unat j < length ptrs then
         shuffle_loop E n (i + 1) cnt
           ((ptrs[unat i := ptrs ! unat j])[unat j := ptrs ! unat i]) s'
       else Inl OutOfBounds)"

definition shuffle_ptrs :: "env \<Rightarrow> 'p list \<Rightarrow> u32 \<Rightarrow> 'a world_scheme \<Rightarrow>
    ('p list \<times> 'a world_scheme) res" where
  "shuffle_ptrs E ptrs cnt s = shuffle_loop E (unat (cnt - 2)) 0 cnt ptrs s"

text \<open>The loop swaps within the array, so it permutes it.\<close>

lemma shuffle_index:
  fixes i cnt r :: u32
  assumes "unat i + n + 3 = unat cnt" and "r < cnt - i"
  shows "unat (i + r) < unat cnt" and "unat (i + 1) = unat i + 1"
proof -
  have le: "i \<le> cnt" using assms(1) by (simp add: word_le_nat_alt)
  have d: "unat (cnt - i) = unat cnt - unat i" by (rule unat_sub [OF le])
  have "unat r < unat cnt - unat i" using assms(2) d by (simp add: word_less_nat_alt)
  then have lt: "unat i + unat r < unat cnt" by linarith
  then have "unat i + unat r < 2 ^ LENGTH(32)"
    using unsigned_less [where 'a = nat, of cnt] by linarith
  then show "unat (i + r) < unat cnt" using lt by (simp add: unat_word_ariths)
  have "unat i + 1 < 2 ^ LENGTH(32)"
    using unsigned_less [where 'a = nat, of cnt] assms(1) by linarith
  then show "unat (i + 1) = unat i + 1" by (simp add: unat_word_ariths)
qed

lemma shuffle_loop_perm:
  "unat cnt = length ptrs \<Longrightarrow> unat i + n + 2 = unat cnt \<Longrightarrow>
   \<exists>ptrs' t. shuffle_loop E n i cnt ptrs s = Inr (ptrs', t) \<and> mset ptrs' = mset ptrs \<and> rng_only s t"
proof (induction n arbitrary: i ptrs s)
  case (Suc n)
  have c: "unat i + n + 3 = unat cnt" using Suc.prems by simp
  have pos: "0 < cnt - i"
  proof -
    have "i \<le> cnt" "unat (cnt - i) = unat cnt - unat i"
      using c by (simp_all add: word_le_nat_alt unat_sub)
    then have "0 < unat (cnt - i)" using c by linarith
    then show ?thesis by (simp only: word_less_nat_alt unat_0)
  qed
  then have nz: "cnt - i \<noteq> 0" by (simp only: word_gt_0)
  obtain r t where u: "UR E (cnt - i) s = Inr (r, t)" using UR_total [OF nz] by blast
  note idx = shuffle_index [OF c UR_bound [OF u]]
  let ?p = "(ptrs[unat i := ptrs ! unat (i + r)])[unat (i + r) := ptrs ! unat i]"
  have il: "unat i < length ptrs" "unat (i + r) < length ptrs" using c idx(1) Suc.prems(1) by simp_all
  have "\<exists>ptrs' t'. shuffle_loop E n (i + 1) cnt ?p t = Inr (ptrs', t') \<and> mset ptrs' = mset ?p \<and> rng_only t t'"
    by (rule Suc.IH) (use Suc.prems c idx(2) in auto)
  then show ?case
    using u il mset_swap [of "unat (i + r)" ptrs "unat i"] rng_only_trans [OF UR_rng_only [OF u]]
    by (auto simp: Let_def)
qed auto

subsection \<open>Clock\<close>

definition get_cur_time_us :: "env \<Rightarrow> 'a world_scheme \<Rightarrow> u64 \<times> 'a world_scheme" where
  "get_cur_time_us E s = (clock_us E (ticks s), s\<lparr>ticks := Suc (ticks s)\<rparr>)"

definition get_cur_time :: "env \<Rightarrow> 'a world_scheme \<Rightarrow> u64 \<times> 'a world_scheme" where
  "get_cur_time E s = (clock_us E (ticks s) div 1000, s\<lparr>ticks := Suc (ticks s)\<rparr>)"

subsection \<open>Files\<close>

text \<open>
  \<open>open(fn, O_WRONLY | O_CREAT | O_EXCL)\<close>, then \<open>ck_write\<close> of the data: fails when the name is
  taken or cannot be created. \<open>O_TRUNC\<close> replaces what is there.
\<close>

definition create_excl :: "env \<Rightarrow> string \<Rightarrow> bytes \<Rightarrow> 'a world_scheme \<Rightarrow> 'a world_scheme res" where
  "create_excl E fn data s =
     (if fs s fn \<noteq> None \<or> \<not> creatable E fn then Inl (Fatal (''Unable to create '' @ fn))
      else Inr (s\<lparr>fs := (fs s)(fn \<mapsto> Regular data)\<rparr>))"

definition create_trunc :: "env \<Rightarrow> string \<Rightarrow> bytes \<Rightarrow> 'a world_scheme \<Rightarrow> 'a world_scheme res" where
  "create_trunc E fn data s =
     (if \<not> creatable E fn then Inl (Fatal (''Unable to open '' @ fn))
      else Inr (s\<lparr>fs := (fs s)(fn \<mapsto> Regular data)\<rparr>))"

definition unlink_file :: "string \<Rightarrow> 'a world_scheme \<Rightarrow> 'a world_scheme option" where
  "unlink_file fn s = (if fs s fn = None then None else Some (s\<lparr>fs := (fs s)(fn := None)\<rparr>))"

definition read_file :: "string \<Rightarrow> 'a world_scheme \<Rightarrow> bytes option" where
  "read_file fn s = (case fs s fn of Some (Regular d) \<Rightarrow> Some d | _ \<Rightarrow> None)"

text \<open>\<open>strrchr(s, c) + 1\<close>: what follows the last occurrence, if there is one.\<close>

definition after_last :: "char \<Rightarrow> string \<Rightarrow> string option" where
  "after_last c s =
     (if c \<in> set s then Some (rev (takeWhile (\<lambda>x. x \<noteq> c) (rev s))) else None)"

lemma after_last_append [simp]:
  "c \<notin> set t \<Longrightarrow> after_last c (s @ c # t) = Some t"
proof -
  assume "c \<notin> set t"
  then have "takeWhile (\<lambda>x. x \<noteq> c) (rev t @ c # rev s) = rev t"
    by (subst takeWhile_append2) auto
  then show ?thesis by (simp add: after_last_def)
qed

text \<open>Decimal numbers: \<open>%u\<close>, and \<open>%06u\<close> / \<open>%02u\<close> with leading zeroes.\<close>

definition digit :: "nat \<Rightarrow> char" where
  "digit d = char_of (48 + d)"

fun dec :: "nat \<Rightarrow> string" where
  "dec n = (if n < 10 then [digit n] else dec (n div 10) @ [digit (n mod 10)])"

declare dec.simps [simp del]

definition dec_pad :: "nat \<Rightarrow> nat \<Rightarrow> string" where
  "dec_pad w n = replicate (w - length (dec n)) CHR ''0'' @ dec n"

subsection \<open>A concrete environment for the examples\<close>

definition quiet_run :: run where
  "quiet_run = \<lparr>r_trace = [], r_hybrid = [], r_status = 0, r_timed_out = False, r_stop = False,
     r_skip = False, r_pid = 1, r_io = Io_ok\<rparr>"

definition demo_env :: env where
  "demo_env = \<lparr>random_of = (\<lambda>seed k. of_nat k), urandom = (\<lambda>k. (0, 0)), clock_us = (\<lambda>k. of_nat k * 1000),
     creatable = (\<lambda>_. True), readdir = (\<lambda>_. None), target = (\<lambda>k d t p. quiet_run), exec_freq = (\<lambda>_. 1),
     exit_when_done = False, bench_until_crash = False, readme_text = [], post_handler = None\<rparr>"

end
