(* ===== verification/Queue.thy ===== *)
theory Queue
  imports Counters World
begin

unbundle bit_operations_syntax

section \<open>The queue of test cases and its favorites\<close>

text \<open>
  \<open>struct queue_entry\<close> and the routines of \<open>src/afl/hybrid_metric/afl-fuzz.c\<close> that keep the
  queue: \<open>add_to_queue\<close>, the \<open>mark_as_*\<close> routines, \<open>update_bitmap_score\<close> and \<open>cull_queue\<close>,
  beside the \<open>update_bitmap_score\<close> and \<open>cull_queue\<close> of the fuzzer it was forked from
  (\<open>src/afl/afl-fuzz.c\<close>). Entries are never freed while the fuzzer runs, so a pointer to an
  entry is its position in the order of allocation, a null pointer is \<open>None\<close>, and the linked
  list is what the \<open>q_next\<close> fields say it is. Flags that only ever hold 0 and 1 are \<open>bool\<close>.
\<close>

subsection \<open>Data\<close>

record queue_entry =
  fname :: string
  q_len :: u32
  cal_failed :: u8
  trim_done :: bool
  was_fuzzed :: bool
  passed_det :: bool
  has_new_cov :: bool
  has_new_hybrid :: bool
  has_new_incorrect :: bool
  var_behavior :: bool
  favored :: bool
  fs_redundant :: bool
  bitmap_size :: u32
  exec_cksum :: u32
  exec_us :: u64
  handicap :: u64
  depth :: u64
  trace_mini :: "bytes option"
  tc_ref :: u32
  q_next :: "nat option"
  next_100 :: "nat option"

record queue_st = world +
  trace_bits :: bytes
  hybrid_bits :: "u32 list"
  max_hybrid :: "u32 list"
  entries :: "queue_entry list"
  queue :: "nat option"
  queue_top :: "nat option"
  q_prev100 :: "nat option"
  top_rated :: "nat option list"
  top_rated_orig :: "nat option list"
  score_changed :: bool
  TF_top_null :: bool
  TF_switch :: bool
  dumb_mode :: u8
  queued_paths :: u32
  pending_not_fuzzed :: u32
  queued_favored :: u32
  pending_favored :: u32
  cur_depth :: u32
  max_depth :: u32
  cycles_wo_finds :: u64
  last_path_time :: u64

definition ent :: "'a queue_st_scheme \<Rightarrow> nat \<Rightarrow> queue_entry" where
  "ent s p = entries s ! p"

definition upd :: "nat \<Rightarrow> (queue_entry \<Rightarrow> queue_entry) \<Rightarrow> 'a queue_st_scheme \<Rightarrow> 'a queue_st_scheme" where
  "upd p f s = s\<lparr>entries := (entries s)[p := f (entries s ! p)]\<rparr>"

subsection \<open>Walking the list\<close>

text \<open>
  \<open>q = queue; while (q) { body; q = q->next; }\<close>. The fuel is the number of entries; a longer
  walk would be a cycle and is reported as \<open>Diverges\<close>.
\<close>

fun walk :: "nat \<Rightarrow> (nat \<Rightarrow> 'a queue_st_scheme \<Rightarrow> 'a queue_st_scheme res) \<Rightarrow> nat option \<Rightarrow>
    'a queue_st_scheme \<Rightarrow> 'a queue_st_scheme res" where
  "walk n body None s = Inr s"
| "walk 0 body (Some p) s = Inl Diverges"
| "walk (Suc n) body (Some p) s = bnd (body p s) (\<lambda>s'. walk n body (q_next (ent s' p)) s')"

definition walk_queue :: "(nat \<Rightarrow> 'a queue_st_scheme \<Rightarrow> 'a queue_st_scheme res) \<Rightarrow>
    'a queue_st_scheme \<Rightarrow> 'a queue_st_scheme res" where
  "walk_queue body s = walk (length (entries s)) body (queue s) s"

subsection \<open>Marking entries in the file system\<close>

definition mark_as_det_done :: "env \<Rightarrow> nat \<Rightarrow> 'a queue_st_scheme \<Rightarrow> 'a queue_st_scheme res" where
  "mark_as_det_done E q s =
     (case after_last CHR ''/'' (fname (ent s q)) of
        None \<Rightarrow> Inl NullDeref
      | Some fn \<Rightarrow>
          bnd (create_excl E (out_dir s @ ''/queue/.state/deterministic_done/'' @ fn) [] s)
            (\<lambda>s. Inr (upd q (passed_det_update (\<lambda>_. True)) s)))"

text \<open>\<open>symlink\<close> first; when that fails, an empty file is created instead.\<close>

definition mark_as_variable :: "env \<Rightarrow> nat \<Rightarrow> 'a queue_st_scheme \<Rightarrow> 'a queue_st_scheme res" where
  "mark_as_variable E q s =
     (case after_last CHR ''/'' (fname (ent s q)) of
        None \<Rightarrow> Inl NullDeref
      | Some base \<Rightarrow>
          (let ldest = ''../../'' @ base;
               fn = out_dir s @ ''/queue/.state/variable_behavior/'' @ base
           in bnd (if fs s fn = None \<and> creatable E fn then Inr (s\<lparr>fs := (fs s)(fn \<mapsto> Symlink ldest)\<rparr>)
                   else create_excl E fn [] s)
                (\<lambda>s. Inr (upd q (var_behavior_update (\<lambda>_. True)) s))))"

definition mark_as_redundant :: "env \<Rightarrow> nat \<Rightarrow> bool \<Rightarrow> 'a queue_st_scheme \<Rightarrow> 'a queue_st_scheme res" where
  "mark_as_redundant E q state s =
     (if state = fs_redundant (ent s q) then Inr s
      else
        (let s1 = upd q (fs_redundant_update (\<lambda>_. state)) s in
         case after_last CHR ''/'' (fname (ent s q)) of
           None \<Rightarrow> Inl NullDeref
         | Some base \<Rightarrow>
             (let fn = out_dir s @ ''/queue/.state/redundant_edges/'' @ base in
              if state then create_excl E fn [] s1
              else case unlink_file fn s1 of
                     None \<Rightarrow> Inl (Fatal (''Unable to remove '' @ fn))
                   | Some s2 \<Rightarrow> Inr s2)))"

subsection \<open>add_to_queue\<close>

definition new_entry :: "string \<Rightarrow> u32 \<Rightarrow> bool \<Rightarrow> u32 \<Rightarrow> queue_entry" where
  "new_entry fn ln det cdepth =
     \<lparr>fname = fn, q_len = ln, cal_failed = 0, trim_done = False, was_fuzzed = False,
      passed_det = det, has_new_cov = False, has_new_hybrid = False, has_new_incorrect = False,
      var_behavior = False, favored = False, fs_redundant = False, bitmap_size = 0,
      exec_cksum = 0, exec_us = 0, handicap = 0, depth = ucast (cdepth + 1), trace_mini = None,
      tc_ref = 0, q_next = None, next_100 = None\<rparr>"

definition raise_max_depth :: "queue_entry \<Rightarrow> 'a queue_st_scheme \<Rightarrow> 'a queue_st_scheme" where
  "raise_max_depth q s =
     (if depth q > ucast (max_depth s) then s\<lparr>max_depth := ucast (depth q)\<rparr> else s)"

definition add_to_queue :: "env \<Rightarrow> string \<Rightarrow> u32 \<Rightarrow> bool \<Rightarrow> 'a queue_st_scheme \<Rightarrow>
    'a queue_st_scheme res" where
  "add_to_queue E fn ln det s =
     (let p = length (entries s);
          q = new_entry fn ln det (cur_depth s);
          s1 = s\<lparr>entries := entries s @ [q]\<rparr>;
          s2 = raise_max_depth q s1;
          s3 = (case queue_top s2 of
                  Some t \<Rightarrow> (upd t (q_next_update (\<lambda>_. Some p)) s2)\<lparr>queue_top := Some p\<rparr>
                | None \<Rightarrow> s2\<lparr>q_prev100 := Some p, queue := Some p, queue_top := Some p\<rparr>);
          s4 = s3\<lparr>queued_paths := queued_paths s3 + 1,
                  pending_not_fuzzed := pending_not_fuzzed s3 + 1, cycles_wo_finds := 0\<rparr>
      in bnd (if queued_paths s4 mod 100 = 0 then
                (case q_prev100 s4 of
                   None \<Rightarrow> Inl NullDeref
                 | Some m \<Rightarrow> Inr ((upd m (next_100_update (\<lambda>_. Some p)) s4)\<lparr>q_prev100 := Some p\<rparr>))
              else Inr s4)
           (\<lambda>s5. let (now, s6) = get_cur_time E s5 in Inr (s6\<lparr>last_path_time := now\<rparr>)))"

subsection \<open>The list is well formed\<close>

definition list_wf :: "'a queue_st_scheme \<Rightarrow> bool" where
  "list_wf s \<longleftrightarrow>
     queue s = (if entries s = [] then None else Some 0) \<and>
     (\<forall>p < length (entries s).
        q_next (ent s p) = (if Suc p < length (entries s) then Some (Suc p) else None))"

text \<open>Where the \<open>next_100\<close> links start and end, and where the last of them starts.\<close>

definition next_mark :: "nat \<Rightarrow> nat" where
  "next_mark p = Suc p div 100 * 100 + 99"

definition last_mark :: "nat \<Rightarrow> nat" where
  "last_mark n = (if n < 100 then 0 else n div 100 * 100 - 1)"

definition queue_wf :: "'a queue_st_scheme \<Rightarrow> bool" where
  "queue_wf s \<longleftrightarrow>
     list_wf s \<and>
     queue_top s = (if entries s = [] then None else Some (length (entries s) - 1)) \<and>
     q_prev100 s = (if entries s = [] then None else Some (last_mark (length (entries s)))) \<and>
     (\<forall>p < length (entries s).
        next_100 (ent s p) =
          (if (p = 0 \<or> Suc p mod 100 = 0) \<and> next_mark p < length (entries s)
           then Some (next_mark p) else None)) \<and>
     queued_paths s = of_nat (length (entries s)) \<and> length (entries s) < 2 ^ 32"

definition no_links :: "queue_entry \<Rightarrow> queue_entry" where
  "no_links q = q\<lparr>q_next := None, next_100 := None\<rparr>"

lemma length_upd [simp]: "length (entries (upd p f s)) = length (entries s)"
  by (simp add: upd_def)

lemma ent_upd: "p < length (entries s) \<Longrightarrow> ent (upd q f s) p = (if p = q then f (ent s p) else ent s p)"
  by (simp add: ent_def upd_def)

lemma upd_frame [simp]:
  "queue (upd p f s) = queue s" "queue_top (upd p f s) = queue_top s"
  "q_prev100 (upd p f s) = q_prev100 s" "top_rated (upd p f s) = top_rated s"
  "top_rated_orig (upd p f s) = top_rated_orig s" "trace_bits (upd p f s) = trace_bits s"
  "hybrid_bits (upd p f s) = hybrid_bits s" "max_hybrid (upd p f s) = max_hybrid s"
  "score_changed (upd p f s) = score_changed s" "TF_top_null (upd p f s) = TF_top_null s"
  "TF_switch (upd p f s) = TF_switch s" "dumb_mode (upd p f s) = dumb_mode s"
  "queued_paths (upd p f s) = queued_paths s" "pending_not_fuzzed (upd p f s) = pending_not_fuzzed s"
  "queued_favored (upd p f s) = queued_favored s" "pending_favored (upd p f s) = pending_favored s"
  "fs (upd p f s) = fs s" "out_dir (upd p f s) = out_dir s" "ticks (upd p f s) = ticks s"
  "cur_depth (upd p f s) = cur_depth s" "max_depth (upd p f s) = max_depth s"
  by (simp_all add: upd_def)

lemma ent_simps [simp]:
  "ent (s\<lparr>queue_top := a\<rparr>) p = ent s p" "ent (s\<lparr>q_prev100 := a\<rparr>) p = ent s p"
  "ent (s\<lparr>queue := a\<rparr>) p = ent s p" "ent (s\<lparr>queued_paths := c\<rparr>) p = ent s p"
  "ent (s\<lparr>pending_not_fuzzed := c\<rparr>) p = ent s p" "ent (s\<lparr>cycles_wo_finds := d\<rparr>) p = ent s p"
  "ent (s\<lparr>last_path_time := d\<rparr>) p = ent s p" "ent (s\<lparr>ticks := e\<rparr>) p = ent s p"
  "ent (s\<lparr>max_depth := c\<rparr>) p = ent s p" "ent (s\<lparr>fs := g\<rparr>) p = ent s p"
  "ent (s\<lparr>top_rated := h\<rparr>) p = ent s p" "ent (s\<lparr>top_rated_orig := h\<rparr>) p = ent s p"
  "ent (s\<lparr>score_changed := b\<rparr>) p = ent s p" "ent (s\<lparr>TF_top_null := b\<rparr>) p = ent s p"
  "ent (s\<lparr>queued_favored := c\<rparr>) p = ent s p" "ent (s\<lparr>pending_favored := c\<rparr>) p = ent s p"
  "ent (s\<lparr>max_hybrid := i\<rparr>) p = ent s p"
  by (simp_all add: ent_def)

lemma u32_of_nat_mod_100:
  assumes "n < 2 ^ 32"
  shows "(of_nat n :: u32) mod 100 = 0 \<longleftrightarrow> n mod 100 = 0"
proof -
  have "unat (of_nat n :: u32) = n" using assms by (simp add: unat_of_nat)
  then have "unat ((of_nat n :: u32) mod 100) = n mod 100" by (simp add: unat_mod_distrib)
  then show ?thesis by (metis unat_eq_zero)
qed

lemma raise_max_depth_frame [simp]:
  "entries (raise_max_depth q s) = entries s" "queue (raise_max_depth q s) = queue s"
  "queue_top (raise_max_depth q s) = queue_top s" "q_prev100 (raise_max_depth q s) = q_prev100 s"
  "queued_paths (raise_max_depth q s) = queued_paths s"
  by (simp_all add: raise_max_depth_def)

text \<open>What \<open>add_to_queue\<close> does to the entries.\<close>

definition linked :: "nat \<Rightarrow> queue_entry \<Rightarrow> queue_entry list \<Rightarrow> queue_entry list" where
  "linked n e es =
     (let xs = es @ [e];
          ys = (if n = 0 then xs else xs[n - 1 := (xs ! (n - 1))\<lparr>q_next := Some n\<rparr>])
      in if Suc n mod 100 = 0 then ys[last_mark n := (ys ! last_mark n)\<lparr>next_100 := Some n\<rparr>] else ys)"

lemma add_to_queue_linked:
  assumes wf: "queue_wf s" and n: "n = length (entries s)" and small: "Suc n < 2 ^ 32"
  obtains t where "add_to_queue E fn ln det s = Inr t"
    and "queue t = Some 0" and "queue_top t = Some n"
    and "queued_paths t = of_nat (Suc n)"
    and "q_prev100 t = (if Suc n mod 100 = 0 then Some n else if n = 0 then Some 0 else q_prev100 s)"
    and "entries t = linked n (new_entry fn ln det (cur_depth s)) (entries s)"
proof -
  have qp: "queued_paths s = of_nat n" using wf n by (simp add: queue_wf_def)
  have m: "(of_nat n + 1 :: u32) mod 100 = 0 \<longleftrightarrow> Suc n mod 100 = 0"
    using u32_of_nat_mod_100 [OF small] by (simp add: add.commute)
  show ?thesis
  proof (cases "n = 0")
    case True
    then have "entries s = []" "queue_top s = None" using n wf by (simp_all add: queue_wf_def)
    then show ?thesis
      using True qp that n m by (simp add: add_to_queue_def linked_def Let_def split_beta get_cur_time_def)
  next
    case False
    then have "entries s \<noteq> []" "queue_top s = Some (n - 1)" "queue s = Some 0"
      "q_prev100 s = Some (last_mark n)"
      using n wf by (auto simp: queue_wf_def list_wf_def)
    then show ?thesis
      using False qp that n m
      by (cases "Suc n mod 100 = 0")
        (simp_all add: add_to_queue_def linked_def Let_def split_beta get_cur_time_def upd_def)
  qed
qed

lemma last_mark_less: "last_mark n \<le> n" "0 < n \<Longrightarrow> last_mark n < n"
  unfolding last_mark_def by (auto, linarith?)

lemma linked_facts:
  assumes "length es = n" and "p < Suc n" and "q_next e = None" and "next_100 e = None"
  shows "no_links (linked n e es ! p) = no_links (if p = n then e else es ! p)"
    and "q_next (linked n e es ! p) = (if p = n then None else if Suc p = n then Some n else q_next (es ! p))"
    and "next_100 (linked n e es ! p) =
       (if Suc n mod 100 = 0 \<and> p = last_mark n then Some n else if p = n then None else next_100 (es ! p))"
    and "length (linked n e es) = Suc n"
proof -
  have l: "Suc n mod 100 = 0 \<Longrightarrow> last_mark n < n"
    using last_mark_less(2) [of n] by (cases n) auto
  have "length (linked n e es) = Suc n \<and>
    no_links (linked n e es ! p) = no_links (if p = n then e else es ! p) \<and>
    q_next (linked n e es ! p) = (if p = n then None else if Suc p = n then Some n else q_next (es ! p)) \<and>
    next_100 (linked n e es ! p) =
       (if Suc n mod 100 = 0 \<and> p = last_mark n then Some n else if p = n then None else next_100 (es ! p))"
  proof (cases n)
    case 0
    then show ?thesis using assms by (auto simp: linked_def Let_def)
  next
    case (Suc m)
    have lst: "es @ [e] = butlast es @ [es ! m, e]"
      using assms(1) Suc by (cases es rule: rev_cases) (auto simp: nth_append)
    have bl: "length (butlast es) = m" using assms(1) Suc by simp
    have ys: "(es @ [e])[n - 1 := ((es @ [e]) ! (n - 1))\<lparr>q_next := Some n\<rparr>] =
        butlast es @ [(es ! m)\<lparr>q_next := Some n\<rparr>, e]" (is "_ = ?ys")
      unfolding lst using bl Suc by (simp add: list_update_append nth_append)
    have nth: "?ys ! i = (if i = n then e else if Suc i = n then (es ! m)\<lparr>q_next := Some n\<rparr> else es ! i)"
      if "i < Suc n" for i
      using that bl Suc assms(1) by (auto simp: nth_append nth_butlast less_Suc_eq)
    have lin: "linked n e es = (if Suc n mod 100 = 0 then
        ?ys[last_mark n := (?ys ! last_mark n)\<lparr>next_100 := Some n\<rparr>] else ?ys)"
      using Suc unfolding linked_def Let_def ys by simp
    have ln: "length ?ys = Suc n" using bl Suc by simp
    show ?thesis
    proof (cases "Suc n mod 100 = 0")
      case True
      then show ?thesis
        using l nth [of p] nth [of "last_mark n"] ln assms(2-) Suc
        unfolding lin by (auto simp: nth_list_update no_links_def)
    next
      case False
      then show ?thesis
        using nth [of p] ln assms(2-) Suc unfolding lin by (auto simp: no_links_def)
    qed
  qed
  then show "no_links (linked n e es ! p) = no_links (if p = n then e else es ! p)"
    "q_next (linked n e es ! p) = (if p = n then None else if Suc p = n then Some n else q_next (es ! p))"
    "next_100 (linked n e es ! p) =
       (if Suc n mod 100 = 0 \<and> p = last_mark n then Some n else if p = n then None else next_100 (es ! p))"
    "length (linked n e es) = Suc n"
    by blast+
qed

text \<open>The last mark is where the next link of the chain starts.\<close>

lemma Suc_multiple_100: "Suc p mod 100 = 0 \<Longrightarrow> \<exists>k. p = 100 * k + 99"
  by presburger

lemma next_mark_last:
  assumes "p = 0 \<or> Suc p mod 100 = 0" and "p < n"
  shows "next_mark p = n \<longleftrightarrow> Suc n mod 100 = 0 \<and> p = last_mark n"
proof -
  have p: "p = 0 \<or> (\<exists>k. p = 100 * k + 99)" using assms(1) Suc_multiple_100 [of p] by argo
  show ?thesis
  proof (cases "Suc n mod 100 = 0")
    case True
    obtain j where n: "n = 100 * j + 99" using Suc_multiple_100 [OF True] by (rule exE)
    have "last_mark n = (if j = 0 then 0 else 100 * j - 1)" unfolding n last_mark_def by (simp add: mult.commute)
    then show ?thesis using p True unfolding next_mark_def n by auto
  next
    case False
    have "Suc (next_mark p) mod 100 = 0" unfolding next_mark_def by presburger
    then show ?thesis using False by auto
  qed
qed

lemma last_mark_start: "last_mark n = 0 \<or> Suc (last_mark n) mod 100 = 0"
proof (cases "n < 100")
  case False
  then have "0 < n div 100" by (simp add: div_greater_zero_iff)
  then have "Suc (last_mark n) = n div 100 * 100" unfolding last_mark_def using False by simp
  then show ?thesis by simp
qed (simp add: last_mark_def)

lemma last_mark_Suc: "0 < n \<Longrightarrow> last_mark (Suc n) = (if Suc n mod 100 = 0 then n else last_mark n)"
proof (cases "Suc n mod 100 = 0")
  case True
  obtain j where n: "n = 100 * j + 99" using Suc_multiple_100 [OF True] by (rule exE)
  show ?thesis using True unfolding n last_mark_def by simp
next
  case False
  then have "Suc n div 100 = n div 100" by (simp add: div_Suc)
  moreover have "n \<noteq> 99" using False by auto
  then have "Suc n < 100 \<longleftrightarrow> n < 100" by linarith
  ultimately show ?thesis using False by (simp only: last_mark_def if_False)
qed

lemma next_mark_gt: "n < next_mark n"
  unfolding next_mark_def by presburger

lemma new_entry_links [simp]: "q_next (new_entry fn ln det d) = None" "next_100 (new_entry fn ln det d) = None"
  by (simp_all add: new_entry_def)

lemma add_to_queue_wf:
  assumes wf: "queue_wf s" and small: "Suc (length (entries s)) < 2 ^ 32"
  obtains t where "add_to_queue E fn ln det s = Inr t" and "queue_wf t"
    and "queue_top t = Some (length (entries s))"
    and "map no_links (entries t) = map no_links (entries s) @ [new_entry fn ln det (cur_depth s)]"
proof -
  let ?n = "length (entries s)" and ?e = "new_entry fn ln det (cur_depth s)"
  obtain t where t: "add_to_queue E fn ln det s = Inr t" "queue t = Some 0" "queue_top t = Some ?n"
    "queued_paths t = of_nat (Suc ?n)"
    "q_prev100 t = (if Suc ?n mod 100 = 0 then Some ?n else if ?n = 0 then Some 0 else q_prev100 s)"
    "entries t = linked ?n ?e (entries s)"
    by (rule add_to_queue_linked [OF wf refl small])
  note f = linked_facts [OF refl _ new_entry_links, of _ "entries s"]
  have len: "length (entries t) = Suc ?n" using f(4) [of 0] t(6) by simp
  then have ne: "entries t \<noteq> []" by auto
  have "list_wf t"
    using wf t(2) ne unfolding list_wf_def len
    by (auto simp: ent_def t(6) f(2) queue_wf_def list_wf_def)
  moreover have "q_prev100 t = Some (last_mark (Suc ?n))"
  proof (cases "?n = 0")
    case False
    then have "q_prev100 s = Some (last_mark ?n)" using wf by (simp add: queue_wf_def)
    then show ?thesis using False unfolding t(5) by (simp add: last_mark_Suc)
  qed (simp add: t(5) last_mark_def)
  moreover have "next_100 (ent t p) = (if (p = 0 \<or> Suc p mod 100 = 0) \<and> next_mark p < Suc ?n
      then Some (next_mark p) else None)" if p: "p < Suc ?n" for p
  proof (cases "p = ?n")
    case True
    have "Suc ?n mod 100 = 0 \<Longrightarrow> last_mark ?n \<noteq> ?n"
      using last_mark_less(2) [of ?n] by (cases "?n = 0") auto
    moreover have "\<not> next_mark p < Suc ?n" using next_mark_gt [of ?n] True by simp
    ultimately show ?thesis using True unfolding ent_def t(6) f(3) [OF p] by auto
  next
    case False
    then have lt: "p < ?n" using p by simp
    have old: "next_100 (entries s ! p) = (if (p = 0 \<or> Suc p mod 100 = 0) \<and> next_mark p < ?n
      then Some (next_mark p) else None)"
      using wf lt by (simp add: queue_wf_def ent_def)
    have "p = last_mark ?n \<Longrightarrow> p = 0 \<or> Suc p mod 100 = 0" using last_mark_start [of ?n] by simp
    then show ?thesis
    proof (cases "p = 0 \<or> Suc p mod 100 = 0")
      case True
      then show ?thesis
        using next_mark_last [OF True lt] False
        unfolding ent_def t(6) f(3) [OF p] old by (auto simp: less_Suc_eq)
    next
      case nstart: False
      then have "p \<noteq> last_mark ?n" using last_mark_start [of ?n] by metis
      then show ?thesis
        using nstart False unfolding ent_def t(6) f(3) [OF p] old by simp
    qed
  qed
  ultimately have "queue_wf t"
    unfolding queue_wf_def len using t(3,4) ne small by auto
  moreover have "map no_links (entries t) = map no_links (entries s) @ [?e]"
  proof (rule nth_equalityI)
    fix i assume "i < length (map no_links (entries t))"
    then have i: "i < Suc ?n" using len by simp
    have "no_links (entries t ! i) = no_links (if i = ?n then ?e else entries s ! i)"
      unfolding t(6) by (rule f(1) [OF i])
    then show "map no_links (entries t) ! i = (map no_links (entries s) @ [?e]) ! i"
      using i len by (auto simp: nth_append no_links_def new_entry_def)
  qed (simp add: len)
  ultimately show ?thesis using that t(1,3) by blast
qed

subsection \<open>Walks over a well-formed list\<close>

text \<open>
  The contract of a loop body that walks the queue: it neither adds entries nor relinks them.
  Under it the walk visits every entry once, in order, and ends.
\<close>

locale entry_walk =
  fixes body :: "nat \<Rightarrow> 'a queue_st_scheme \<Rightarrow> 'a queue_st_scheme res"
  assumes body_length: "body p s = Inr t \<Longrightarrow> length (entries t) = length (entries s)"
    and body_links: "body p s = Inr t \<Longrightarrow> j < length (entries s) \<Longrightarrow> q_next (ent t j) = q_next (ent s j)"
begin

lemma walk_from:
  assumes "\<forall>j < length (entries s). q_next (ent s j) = (if Suc j < length (entries s) then Some (Suc j) else None)"
    and "p + k = length (entries s)"
  shows "walk k body (if 0 < k then Some p else None) s = fold_res body [p..<length (entries s)] s"
  using assms
proof (induction k arbitrary: p s)
  case (Suc k)
  have u: "[p..<length (entries s)] = p # [Suc p..<length (entries s)]"
    using Suc.prems(2) by (simp add: upt_conv_Cons)
  show ?case
  proof (cases "body p s")
    case (Inr t)
    have len: "length (entries t) = length (entries s)" by (rule body_length [OF Inr])
    have lk: "\<forall>j < length (entries t). q_next (ent t j) = (if Suc j < length (entries t) then Some (Suc j) else None)"
      using Suc.prems(1) body_links [OF Inr] len by simp
    have "q_next (ent t p) = (if 0 < k then Some (Suc p) else None)"
      using lk Suc.prems(2) len by auto
    then show ?thesis
      using Suc.IH [OF lk, of "Suc p"] Suc.prems(2) Inr len u by simp
  qed (simp add: u)
qed simp

lemma walk_queue_fold:
  "list_wf s \<Longrightarrow> walk_queue body s = fold_res body [0..<length (entries s)] s"
  using walk_from [of s 0 "length (entries s)"] by (auto simp: walk_queue_def list_wf_def)

end

text \<open>The two bodies of the code: clearing \<open>favored\<close>, and \<open>mark_as_redundant(q, !q->favored)\<close>.\<close>

definition clear_favored :: "nat \<Rightarrow> 'a queue_st_scheme \<Rightarrow> 'a queue_st_scheme res" where
  "clear_favored p s = Inr (upd p (favored_update (\<lambda>_. False)) s)"

definition note_redundant :: "env \<Rightarrow> nat \<Rightarrow> 'a queue_st_scheme \<Rightarrow> 'a queue_st_scheme res" where
  "note_redundant E p s = mark_as_redundant E p (\<not> favored (ent s p)) s"

lemma ent_same: "entries t = entries s \<Longrightarrow> ent t p = ent s p"
  by (simp add: ent_def)

lemma mark_as_redundant_entries:
  assumes "mark_as_redundant E p b s = Inr t"
  shows "entries t = entries (upd p (fs_redundant_update (\<lambda>_. b)) s)"
proof -
  have "b = fs_redundant (entries s ! p) \<Longrightarrow> (entries s)[p := (entries s ! p)\<lparr>fs_redundant := b\<rparr>] = entries s"
    by simp
  then show ?thesis
    using assms unfolding mark_as_redundant_def create_excl_def unlink_file_def Let_def
    by (auto simp: upd_def ent_def split: if_splits option.splits)
qed

interpretation clear_walk: entry_walk clear_favored
  by unfold_locales (auto simp: clear_favored_def ent_upd)

interpretation redundant_walk: entry_walk "note_redundant E" for E
proof
  fix p s t j
  assume "note_redundant E p s = Inr t"
  then have e: "entries t = entries (upd p (fs_redundant_update (\<lambda>_. \<not> favored (ent s p))) s)"
    unfolding note_redundant_def by (rule mark_as_redundant_entries)
  show "length (entries t) = length (entries s)" by (simp add: e)
  show "j < length (entries s) \<Longrightarrow> q_next (ent t j) = q_next (ent s j)"
    by (simp add: ent_same [OF e] ent_upd)
qed


text \<open>What the two walks leave.\<close>

lemma clear_favored_all:
  "fold_res clear_favored [0..<length (entries s)] s =
     Inr (s\<lparr>entries := map (favored_update (\<lambda>_. False)) (entries s)\<rparr>)"
proof -
  have "fold (\<lambda>p. upd p (favored_update (\<lambda>_. False))) [0..<k] s =
      s\<lparr>entries := map (favored_update (\<lambda>_. False)) (take k (entries s)) @ drop k (entries s)\<rparr>"
    if "k \<le> length (entries s)" for k
    using that
  proof (induction k)
    case (Suc k)
    then have k: "k < length (entries s)" by simp
    then have "drop k (entries s) = entries s ! k # drop (Suc k) (entries s)"
      by (simp add: Cons_nth_drop_Suc)
    then show ?case
      using Suc k by (simp add: upd_def take_Suc_conv_app_nth nth_append list_update_append)
  qed simp
  from this [of "length (entries s)"] show ?thesis
    unfolding clear_favored_def fold_res_Inr by simp
qed

lemma note_redundant_frame:
  assumes "note_redundant E p s = Inr t"
  obtains f where "t = (upd p (fs_redundant_update (\<lambda>_. \<not> favored (ent s p))) s)\<lparr>fs := f\<rparr>"
proof (cases "(\<not> favored (ent s p)) = fs_redundant (ent s p)")
  case True
  then have "(upd p (fs_redundant_update (\<lambda>_. \<not> favored (ent s p))) s)\<lparr>fs := fs s\<rparr> = s"
    by (simp add: upd_def ent_def)
  moreover have "t = s" using assms True by (simp add: note_redundant_def mark_as_redundant_def)
  ultimately show ?thesis using that [of "fs s"] by simp
next
  case False
  then show ?thesis
    using assms that unfolding note_redundant_def mark_as_redundant_def create_excl_def
      unlink_file_def Let_def
    by (auto simp: upd_def ent_def split: if_splits option.splits)
qed

definition noted :: "queue_entry \<Rightarrow> queue_entry" where
  "noted e = e\<lparr>fs_redundant := \<not> favored e\<rparr>"

lemma note_redundant_all:
  assumes "fold_res (note_redundant E) [0..<length (entries s)] s = Inr t"
  obtains f where "t = s\<lparr>entries := map noted (entries s), fs := f\<rparr>"
proof -
  have "\<exists>f. u = s\<lparr>entries := map noted (take k (entries s)) @ drop k (entries s), fs := f\<rparr>"
    if "k \<le> length (entries s)" and "fold_res (note_redundant E) [0..<k] s = Inr u" for k u
    using that
  proof (induction k arbitrary: u)
    case 0
    then have "u = s\<lparr>entries := map noted (take 0 (entries s)) @ drop 0 (entries s), fs := fs s\<rparr>"
      by simp
    then show ?case by blast
  next
    case (Suc k)
    then have k: "k < length (entries s)" by simp
    then have d: "drop k (entries s) = entries s ! k # drop (Suc k) (entries s)"
      by (simp add: Cons_nth_drop_Suc)
    from Suc.prems(2) obtain v where v: "fold_res (note_redundant E) [0..<k] s = Inr v"
      and u: "note_redundant E k v = Inr u"
      by (auto simp: fold_res_append bnd_Inr_iff)
    obtain f where f: "v = s\<lparr>entries := map noted (take k (entries s)) @ drop k (entries s), fs := f\<rparr>"
      using Suc.IH [OF _ v] k by auto
    obtain g where g: "u = (upd k (fs_redundant_update (\<lambda>_. \<not> favored (ent v k))) v)\<lparr>fs := g\<rparr>"
      using u by (rule note_redundant_frame)
    have "ent v k = entries s ! k" using k by (simp add: f ent_def d nth_append)
    then have "u = s\<lparr>entries := map noted (take (Suc k) (entries s)) @ drop (Suc k) (entries s), fs := g\<rparr>"
      unfolding g using k
      by (simp add: f upd_def d take_Suc_conv_app_nth nth_append list_update_append noted_def)
    then show ?case by blast
  qed
  from this [OF order_refl assms] that show ?thesis by auto
qed

text \<open>
  The marker files agree with the flags: then the walk over the queue cannot fail.
\<close>

definition red_path :: "'a queue_st_scheme \<Rightarrow> nat \<Rightarrow> string option" where
  "red_path s p = map_option (\<lambda>b. out_dir s @ ''/queue/.state/redundant_edges/'' @ b)
     (after_last CHR ''/'' (fname (ent s p)))"

definition red_ok :: "env \<Rightarrow> 'a queue_st_scheme \<Rightarrow> bool" where
  "red_ok E s \<longleftrightarrow>
     (\<forall>p < length (entries s). \<exists>fn. red_path s p = Some fn \<and> creatable E fn \<and>
        (fs s fn \<noteq> None \<longleftrightarrow> fs_redundant (ent s p))) \<and>
     (\<forall>p < length (entries s). \<forall>q < length (entries s). red_path s p = red_path s q \<longrightarrow> p = q)"

lemma red_path_upd [simp]:
  assumes "\<And>e. fname (f e) = fname e" and "q < length (entries s)"
  shows "red_path (upd p f s) q = red_path s q"
  using assms by (simp add: red_path_def ent_upd)

lemma mark_as_redundant_ok:
  assumes ok: "red_ok E s" and p: "p < length (entries s)"
  shows "\<exists>t. mark_as_redundant E p b s = Inr t \<and> red_ok E t"
proof -
  obtain fn where fn: "red_path s p = Some fn" "creatable E fn"
    "fs s fn \<noteq> None \<longleftrightarrow> fs_redundant (ent s p)"
    using ok p by (auto simp: red_ok_def)
  then obtain base where base: "after_last CHR ''/'' (fname (ent s p)) = Some base"
    "fn = out_dir s @ ''/queue/.state/redundant_edges/'' @ base"
    by (auto simp: red_path_def)
  let ?f = "fs_redundant_update (\<lambda>_. b)"
  let ?t = "(upd p ?f s)\<lparr>fs := (fs s)(fn := if b then Some (Regular []) else None)\<rparr>"
  show ?thesis
  proof (cases "b = fs_redundant (ent s p)")
    case True
    then show ?thesis using ok by (auto simp: mark_as_redundant_def)
  next
    case False
    then have e: "mark_as_redundant E p b s = Inr ?t"
      using base fn by (auto simp: mark_as_redundant_def create_excl_def unlink_file_def Let_def upd_def)
    have pth: "red_path ?t q = red_path s q" if "q < length (entries s)" for q
      using that red_path_upd [of ?f q s p] by (simp add: red_path_def ent_def)
    have "red_ok E ?t"
      unfolding red_ok_def
    proof (intro conjI allI impI)
      fix q assume "q < length (entries ?t)"
      then have q: "q < length (entries s)" by simp
      obtain gn where gn: "red_path s q = Some gn" "creatable E gn"
        "fs s gn \<noteq> None \<longleftrightarrow> fs_redundant (ent s q)"
        using ok q by (auto simp: red_ok_def)
      have "q \<noteq> p \<Longrightarrow> gn \<noteq> fn" using ok p q gn fn by (auto simp: red_ok_def)
      then have "fs ?t gn \<noteq> None \<longleftrightarrow> fs_redundant (ent ?t q)"
        using gn fn q p by (cases "q = p") (auto simp: ent_upd)
      then show "\<exists>fn'. red_path ?t q = Some fn' \<and> creatable E fn' \<and>
          (fs ?t fn' \<noteq> None \<longleftrightarrow> fs_redundant (ent ?t q))"
        using gn pth [OF q] by auto
    next
      fix q r assume "q < length (entries ?t)" "r < length (entries ?t)" "red_path ?t q = red_path ?t r"
      then show "q = r" using ok pth by (simp add: red_ok_def)
    qed
    then show ?thesis using e by blast
  qed
qed

lemma note_redundant_total:
  assumes "red_ok E s"
  shows "\<exists>t. fold_res (note_redundant E) [0..<length (entries s)] s = Inr t \<and> red_ok E t"
proof -
  have "\<exists>t. fold_res (note_redundant E) [0..<length (entries s)] s = Inr t \<and>
      (red_ok E t \<and> length (entries t) = length (entries s))"
  proof (rule fold_res_total)
    fix p u assume p: "p \<in> set [0..<length (entries s)]"
      and u: "red_ok E u \<and> length (entries u) = length (entries s)"
    then obtain t where t: "note_redundant E p u = Inr t" "red_ok E t"
      using mark_as_redundant_ok [of E u p] by (auto simp: note_redundant_def)
    then show "\<exists>t. note_redundant E p u = Inr t \<and> red_ok E t \<and> length (entries t) = length (entries s)"
      using u redundant_walk.body_length [OF t(1)] by auto
  qed (use assms in simp)
  then show ?thesis by blast
qed

end
