(* ===== verification/Favor.thy ===== *)
theory Favor
  imports Queue
begin

unbundle bit_operations_syntax

section \<open>Scoring and culling: which entries are favored\<close>

text \<open>
  \<open>update_bitmap_score\<close> and \<open>cull_queue\<close>, twice: as \<open>src/afl/afl-fuzz.c\<close> has them (prefix
  \<open>afl_\<close>), and as \<open>src/afl/hybrid_metric/afl-fuzz.c\<close> rewrote them around the hybrid metric.
  The loops over the map are folds over the slots \<open>0 .. MAP_SIZE - 1\<close>; \<open>release\<close> is the
  decrement of the reference count of a previous winner, \<open>keep_mini\<close> the allocation of the
  compacted trace, which all winner branches of both files share.
\<close>

subsection \<open>Pieces the two files share\<close>

definition fav_of :: "'a queue_st_scheme \<Rightarrow> nat \<Rightarrow> u64" where
  "fav_of s p = exec_us (ent s p) * ucast (q_len (ent s p))"

definition release :: "nat \<Rightarrow> 'a queue_st_scheme \<Rightarrow> 'a queue_st_scheme" where
  "release p s =
     upd p (\<lambda>e. if tc_ref e - 1 = 0 then e\<lparr>tc_ref := tc_ref e - 1, trace_mini := None\<rparr>
                else e\<lparr>tc_ref := tc_ref e - 1\<rparr>) s"

definition keep_mini :: "nat \<Rightarrow> 'a queue_st_scheme \<Rightarrow> 'a queue_st_scheme" where
  "keep_mini q s =
     (if trace_mini (ent s q) = None then
        upd q (trace_mini_update (\<lambda>_. Some
          (minimize_bits (replicate (length (trace_bits s) div 8) 0) (trace_bits s)))) s
      else s)"

definition take_ref :: "nat \<Rightarrow> 'a queue_st_scheme \<Rightarrow> 'a queue_st_scheme" where
  "take_ref q s = upd q (\<lambda>e. e\<lparr>tc_ref := tc_ref e + 1\<rparr>) s"

subsection \<open>The original update_bitmap_score\<close>

definition afl_win :: "nat \<Rightarrow> nat \<Rightarrow> 'a queue_st_scheme \<Rightarrow> 'a queue_st_scheme" where
  "afl_win q i s =
     (keep_mini q (take_ref q (s\<lparr>top_rated := (top_rated s)[i := Some q]\<rparr>)))\<lparr>score_changed := True\<rparr>"

definition afl_score_step :: "nat \<Rightarrow> u64 \<Rightarrow> nat \<Rightarrow> 'a queue_st_scheme \<Rightarrow> 'a queue_st_scheme" where
  "afl_score_step q fav_factor i s =
     (if trace_bits s ! i \<noteq> 0 then
        (case top_rated s ! i of
           Some p \<Rightarrow> if fav_factor > fav_of s p then s else afl_win q i (release p s)
         | None \<Rightarrow> afl_win q i s)
      else s)"

definition afl_update_bitmap_score :: "nat \<Rightarrow> 'a queue_st_scheme \<Rightarrow> 'a queue_st_scheme" where
  "afl_update_bitmap_score q s =
     fold (afl_score_step q (fav_of s q)) [0..<length (trace_bits s)] s"

subsection \<open>The hybrid update_bitmap_score\<close>

text \<open>The part after the label \<open>quit_tf\<close>: the original rating, kept beside the new one.\<close>

definition tf_orig :: "nat \<Rightarrow> u64 \<Rightarrow> nat \<Rightarrow> 'a queue_st_scheme \<Rightarrow> 'a queue_st_scheme" where
  "tf_orig q fav_factor i s =
     (if TF_switch s then
        (case top_rated_orig s ! i of
           Some p \<Rightarrow>
             if fav_factor > fav_of s p then s
             else keep_mini q (take_ref q
                    ((release p s)\<lparr>top_rated_orig := (top_rated_orig s)[i := Some q]\<rparr>))
         | None \<Rightarrow>
             keep_mini q (take_ref q (s\<lparr>top_rated_orig := (top_rated_orig s)[i := Some q]\<rparr>)))
      else s)"

text \<open>The block \<open>judge the new winner\<close>.\<close>

definition tf_win :: "nat \<Rightarrow> nat \<Rightarrow> 'a queue_st_scheme \<Rightarrow> 'a queue_st_scheme" where
  "tf_win q i s =
     (if TF_switch s then
        (if hybrid_bits s ! i \<noteq> 0 \<and> max_hybrid s ! i < hybrid_bits s ! i then
           (keep_mini q (take_ref q
              (s\<lparr>top_rated := (top_rated s)[i := Some q],
                 max_hybrid := (max_hybrid s)[i := hybrid_bits s ! i]\<rparr>)))\<lparr>score_changed := True\<rparr>
         else if has_new_incorrect (ent s q) then
           take_ref q (s\<lparr>top_rated := (top_rated s)[i := Some q]\<rparr>)
         else
           (keep_mini q (take_ref q (s\<lparr>top_rated := (top_rated s)[i := Some q]\<rparr>)))\<lparr>score_changed := True\<rparr>)
      else s)"

text \<open>
  One slot. \<open>hybrid_not_favored\<close> is 0 again at the end of every iteration that sets it, so it
  is a local of the step. The early \<open>continue\<close>s are the branches that do not reach
  \<open>tf_orig\<close>.
\<close>

definition score_step :: "nat \<Rightarrow> u64 \<Rightarrow> nat \<Rightarrow> 'a queue_st_scheme \<Rightarrow> 'a queue_st_scheme" where
  "score_step q fav_factor i s =
     (if trace_bits s ! i \<noteq> 0 then
        (case top_rated s ! i of
           Some p \<Rightarrow>
             if TF_switch s then
               (if max_hybrid s ! i > hybrid_bits s ! i then
                  (if has_new_incorrect (ent s q)
                   then s\<lparr>top_rated := (top_rated s)[i := Some q], score_changed := True\<rparr>
                   else s\<lparr>score_changed := True\<rparr>)
                else
                  (let hybrid_not_favored = max_hybrid s ! i \<ge> hybrid_bits s ! i;
                       s1 = release p s
                   in if hybrid_not_favored
                      then tf_orig q fav_factor i (s1\<lparr>top_rated := (top_rated s1)[i := None]\<rparr>)
                      else tf_orig q fav_factor i (tf_win q i s1)))
             else if fav_factor > fav_of s p then s
             else tf_orig q fav_factor i (tf_win q i (release p s))
         | None \<Rightarrow> tf_orig q fav_factor i (tf_win q i s))
      else s)"

definition update_bitmap_score :: "nat \<Rightarrow> 'a queue_st_scheme \<Rightarrow> 'a queue_st_scheme" where
  "update_bitmap_score q s =
     fold (score_step q (fav_of s q)) [0..<length (trace_bits s)] s"

subsection \<open>Culling\<close>

text \<open>\<open>while (j--) if (mini[j]) temp_v[j] &= ~mini[j]\<close>\<close>

definition drop_mini :: "bytes \<Rightarrow> bytes \<Rightarrow> bytes" where
  "drop_mini mini temp_v =
     fold (\<lambda>j t. if mini ! j \<noteq> 0 then t[j := t ! j AND NOT (mini ! j)] else t)
       (rev [0..<length temp_v]) temp_v"

text \<open>
  One slot of the loop that grabs winners for bytes not seen yet; \<open>rated\<close> is \<open>top_rated\<close> or
  \<open>top_rated_orig\<close>. The compacted trace of a winner may be missing: a null dereference.
\<close>

definition grab_step :: "nat option list \<Rightarrow> nat \<Rightarrow> bytes \<times> 'a queue_st_scheme \<Rightarrow>
    (bytes \<times> 'a queue_st_scheme) res" where
  "grab_step rated i ts =
     (let temp_v = fst ts; s = snd ts in
      case rated ! i of
        None \<Rightarrow> Inr ts
      | Some p \<Rightarrow>
          if map_bit temp_v i then
            (case trace_mini (ent s p) of
               None \<Rightarrow> Inl NullDeref
             | Some mini \<Rightarrow>
                 (let s1 = upd p (favored_update (\<lambda>_. True)) s;
                      s2 = s1\<lparr>queued_favored := queued_favored s1 + 1\<rparr>
                  in Inr (drop_mini mini temp_v,
                       if \<not> was_fuzzed (ent s2 p)
                       then s2\<lparr>pending_favored := pending_favored s2 + 1\<rparr> else s2)))
          else Inr ts)"

definition grab_winners :: "nat option list \<Rightarrow> 'a queue_st_scheme \<Rightarrow> 'a queue_st_scheme res" where
  "grab_winners rated s =
     bnd (fold_res (grab_step rated) [0..<length (trace_bits s)]
            (replicate (length (trace_bits s) div 8) 255, s))
       (\<lambda>ts. Inr (snd ts))"

definition reset_favored :: "'a queue_st_scheme \<Rightarrow> 'a queue_st_scheme res" where
  "reset_favored s = walk_queue clear_favored (s\<lparr>queued_favored := 0, pending_favored := 0\<rparr>)"

definition afl_cull_queue :: "env \<Rightarrow> 'a queue_st_scheme \<Rightarrow> 'a queue_st_scheme res" where
  "afl_cull_queue E s =
     (if dumb_mode s \<noteq> 0 \<or> \<not> score_changed s then Inr s
      else
        bnd (reset_favored (s\<lparr>score_changed := False\<rparr>)) (\<lambda>s.
        bnd (grab_winners (top_rated s) s) (\<lambda>s.
        walk_queue (note_redundant E) s)))"

text \<open>The loop of the hybrid-metric mode: every unfuzzed entry of \<open>top_rated\<close>.\<close>

definition tf_grab_step :: "nat \<Rightarrow> 'a queue_st_scheme \<Rightarrow> 'a queue_st_scheme" where
  "tf_grab_step i s =
     (case top_rated s ! i of
        None \<Rightarrow> s
      | Some p \<Rightarrow>
          if was_fuzzed (ent s p) then s
          else
            (let was_favored_already = favored (ent s p);
                 s1 = upd p (favored_update (\<lambda>_. True)) s
             in if \<not> was_favored_already then
                  (let s2 = s1\<lparr>queued_favored := queued_favored s1 + 1\<rparr> in
                   if \<not> was_fuzzed (ent s2 p)
                   then s2\<lparr>pending_favored := pending_favored s2 + 1\<rparr> else s2)
                else s1))"

definition cull_main :: "env \<Rightarrow> 'a queue_st_scheme \<Rightarrow> 'a queue_st_scheme res" where
  "cull_main E s =
     (if dumb_mode s \<noteq> 0 \<or> \<not> score_changed s then Inr s
      else
        (let s1 = (if TF_top_null s \<and> score_changed s then s\<lparr>TF_top_null := False\<rparr> else s) in
         bnd (reset_favored (s1\<lparr>score_changed := False\<rparr>)) (\<lambda>s.
         bnd (if TF_switch s then Inr (fold tf_grab_step [0..<length (trace_bits s)] s)
              else grab_winners (top_rated s) s) (\<lambda>s.
         walk_queue (note_redundant E) s))))"

text \<open>The part from the label \<open>altern\<close>.\<close>

definition cull_altern :: "env \<Rightarrow> 'a queue_st_scheme \<Rightarrow> 'a queue_st_scheme res" where
  "cull_altern E s =
     (if \<not> TF_switch s \<or> \<not> TF_top_null s then Inr s
      else
        bnd (reset_favored s) (\<lambda>s.
        bnd (grab_winners (top_rated_orig s) s) (\<lambda>s.
        walk_queue (note_redundant E) s)))"

definition cull_queue :: "env \<Rightarrow> 'a queue_st_scheme \<Rightarrow> 'a queue_st_scheme res" where
  "cull_queue E s = bnd (cull_main E s) (cull_altern E)"

subsection \<open>What a step may touch\<close>

definition unref :: "queue_entry \<Rightarrow> queue_entry" where
  "unref e = e\<lparr>tc_ref := 0, trace_mini := None\<rparr>"

text \<open>Everything but the ratings, the reference counts and the kept traces is as before.\<close>

definition unrated :: "'a queue_st_scheme \<Rightarrow> 'a queue_st_scheme" where
  "unrated s = s\<lparr>entries := map unref (entries s), top_rated := [], top_rated_orig := [],
     score_changed := False, max_hybrid := []\<rparr>"

definition scored :: "'a queue_st_scheme \<Rightarrow> 'a queue_st_scheme \<Rightarrow> bool" where
  "scored s t \<longleftrightarrow> unrated s = unrated t"

lemma scored_refl [simp]: "scored s s"
  by (simp add: scored_def)

lemma scored_trans [trans]: "scored s t \<Longrightarrow> scored t u \<Longrightarrow> scored s u"
  by (simp add: scored_def)

lemma scoredD:
  assumes "scored s t"
  shows "length (entries t) = length (entries s)" "trace_bits t = trace_bits s"
    "hybrid_bits t = hybrid_bits s" "TF_switch t = TF_switch s" "queue t = queue s"
    "p < length (entries s) \<Longrightarrow> unref (ent t p) = unref (ent s p)"
    "queue_st.more t = queue_st.more s" "dumb_mode t = dumb_mode s"
    "queued_paths t = queued_paths s" "fs t = fs s" "out_dir t = out_dir s"
proof -
  have e: "unrated s = unrated t" using assms by (simp add: scored_def)
  have m: "map unref (entries t) = map unref (entries s)"
    using arg_cong [OF e, of entries] by (simp add: unrated_def)
  show l: "length (entries t) = length (entries s)" using m by (metis length_map)
  show "p < length (entries s) \<Longrightarrow> unref (ent t p) = unref (ent s p)"
    using m l unfolding ent_def by (metis nth_map)
  show "trace_bits t = trace_bits s" using arg_cong [OF e, of trace_bits] by (simp add: unrated_def)
  show "hybrid_bits t = hybrid_bits s" using arg_cong [OF e, of hybrid_bits] by (simp add: unrated_def)
  show "TF_switch t = TF_switch s" using arg_cong [OF e, of TF_switch] by (simp add: unrated_def)
  show "queue t = queue s" using arg_cong [OF e, of queue] by (simp add: unrated_def)
  show "queue_st.more t = queue_st.more s" using arg_cong [OF e, of queue_st.more] by (simp add: unrated_def)
  show "dumb_mode t = dumb_mode s" using arg_cong [OF e, of dumb_mode] by (simp add: unrated_def)
  show "queued_paths t = queued_paths s" using arg_cong [OF e, of queued_paths] by (simp add: unrated_def)
  show "fs t = fs s" using arg_cong [OF e, of fs] by (simp add: unrated_def)
  show "out_dir t = out_dir s" using arg_cong [OF e, of out_dir] by (simp add: unrated_def)
qed

lemma scored_fav:
  assumes "scored s t" and "p < length (entries s)"
  shows "fav_of t p = fav_of s p"
proof -
  have "unref (ent t p) = unref (ent s p)" by (rule scoredD(6) [OF assms])
  then have "exec_us (unref (ent t p)) = exec_us (unref (ent s p))"
    "q_len (unref (ent t p)) = q_len (unref (ent s p))" by simp_all
  then show ?thesis by (simp add: fav_of_def unref_def)
qed

lemma unref_upd:
  assumes "\<And>e. unref (f e) = unref e"
  shows "map unref ((entries s)[p := f (entries s ! p)]) = map unref (entries s)"
  using assms by (cases "p < length (entries s)") (simp_all add: map_update list_update_same_conv list_update_beyond)

lemma unrated_upd [simp]: "(\<And>e. unref (f e) = unref e) \<Longrightarrow> unrated (upd p f s) = unrated s"
  unfolding unrated_def upd_def by (simp add: unref_upd del: map_update)

lemma unrated_set [simp]:
  "unrated (s\<lparr>top_rated := a\<rparr>) = unrated s" "unrated (s\<lparr>top_rated_orig := a\<rparr>) = unrated s"
  "unrated (s\<lparr>score_changed := c\<rparr>) = unrated s" "unrated (s\<lparr>max_hybrid := d\<rparr>) = unrated s"
  by (simp_all add: unrated_def)

lemma unrated_pieces [simp]:
  "unrated (release p s) = unrated s" "unrated (keep_mini q s) = unrated s"
  "unrated (take_ref q s) = unrated s"
proof -
  show "unrated (release p s) = unrated s"
    unfolding release_def by (rule unrated_upd) (simp add: unref_def)
  show "unrated (take_ref q s) = unrated s"
    unfolding take_ref_def by (rule unrated_upd) (simp add: unref_def)
  show "unrated (keep_mini q s) = unrated s"
    unfolding keep_mini_def using unrated_upd [of _ q s] by (simp add: unref_def)
qed

lemma afl_step_scored: "scored s (afl_score_step q fav i s)"
  unfolding scored_def afl_score_step_def afl_win_def by (simp split: option.split)

lemma unrated_tf_orig [simp]: "unrated (tf_orig q fav i s) = unrated s"
  unfolding tf_orig_def by (simp split: option.split)

lemma unrated_tf_win [simp]: "unrated (tf_win q i s) = unrated s"
proof -
  have "unrated (s\<lparr>top_rated := a, max_hybrid := d\<rparr>) = unrated s" for a d
    by (simp add: unrated_def)
  then show ?thesis unfolding tf_win_def by simp
qed

lemma tf_step_scored: "scored s (score_step q fav i s)"
proof -
  have "unrated (s\<lparr>top_rated := a, score_changed := c\<rparr>) = unrated s" for a c
    by (simp add: unrated_def)
  then show ?thesis
    unfolding scored_def score_step_def Let_def by (simp split: option.split)
qed

lemma fold_scored:
  assumes "\<And>i s. scored s (f i s)"
  shows "scored s (fold f xs s)"
proof (induction xs arbitrary: s)
  case (Cons x xs)
  show ?case using scored_trans [OF assms Cons.IH] by simp
qed simp

subsection \<open>Reference counts of the original scheme\<close>

definition slots :: "nat option list \<Rightarrow> nat \<Rightarrow> nat" where
  "slots xs p = count_list xs (Some p)"

lemma count_list_update:
  "i < length xs \<Longrightarrow>
   count_list (xs[i := y]) x + of_bool (xs ! i = x) = count_list xs x + of_bool (y = x)"
proof (induction xs arbitrary: i)
  case (Cons a xs)
  show ?case
  proof (cases i)
    case (Suc j)
    then show ?thesis using Cons.IH [of j] Cons.prems by simp
  qed auto
qed simp

lemma slots_update:
  "i < length xs \<Longrightarrow> slots (xs[i := Some q]) r + of_bool (xs ! i = Some r) = slots xs r + of_bool (q = r)"
  unfolding slots_def using count_list_update [of i xs "Some q" "Some r"] by simp

lemma slots_le: "slots xs p \<le> length xs"
  unfolding slots_def by (rule count_le_length)

lemma slots_pos: "i < length xs \<Longrightarrow> xs ! i = Some p \<Longrightarrow> 0 < slots xs p"
  unfolding slots_def by (metis count_list_0_iff not_gr_zero nth_mem)

text \<open>
  What winning a slot does to an entry: the previous winner loses a reference (and its trace with
  the last one), the new one gains a reference and has a trace.
\<close>

definition fresh_mini :: "'a queue_st_scheme \<Rightarrow> bytes" where
  "fresh_mini s = minimize_bits (replicate (length (trace_bits s) div 8) 0) (trace_bits s)"

lemma afl_win_entry:
  assumes q: "q < length (entries s)" and r: "r < length (entries s)"
    and t: "t = (case top_rated s ! i of None \<Rightarrow> afl_win q i s | Some p \<Rightarrow> afl_win q i (release p s))"
  shows "tc_ref (ent t r) = tc_ref (ent s r) - of_bool (top_rated s ! i = Some r) + of_bool (q = r)"
    and "trace_mini (ent t r) =
      (let m = (if top_rated s ! i = Some r \<and> tc_ref (ent s r) = 1 then None else trace_mini (ent s r))
       in if q = r \<and> m = None then Some (fresh_mini s) else m)"
    and "top_rated t = (top_rated s)[i := Some q]"
    and "score_changed t"
proof -
  have "tc_ref (ent t r) = tc_ref (ent s r) - of_bool (top_rated s ! i = Some r) + of_bool (q = r) \<and>
    trace_mini (ent t r) =
      (let m = (if top_rated s ! i = Some r \<and> tc_ref (ent s r) = 1 then None else trace_mini (ent s r))
       in if q = r \<and> m = None then Some (fresh_mini s) else m) \<and>
    top_rated t = (top_rated s)[i := Some q] \<and> score_changed t"
  proof (cases "top_rated s ! i")
    case None
    then show ?thesis
      using q r unfolding t afl_win_def keep_mini_def take_ref_def fresh_mini_def
      by (auto simp: ent_upd Let_def)
  next
    case (Some p)
    then show ?thesis
      using q r unfolding t afl_win_def keep_mini_def take_ref_def release_def fresh_mini_def
      by (auto simp: ent_upd Let_def)
  qed
  then show "tc_ref (ent t r) = tc_ref (ent s r) - of_bool (top_rated s ! i = Some r) + of_bool (q = r)"
    "trace_mini (ent t r) =
      (let m = (if top_rated s ! i = Some r \<and> tc_ref (ent s r) = 1 then None else trace_mini (ent s r))
       in if q = r \<and> m = None then Some (fresh_mini s) else m)"
    "top_rated t = (top_rated s)[i := Some q]" "score_changed t"
    by blast+
qed

definition rated_ok :: "'a queue_st_scheme \<Rightarrow> bool" where
  "rated_ok s \<longleftrightarrow>
     length (top_rated s) = length (trace_bits s) \<and> length (trace_bits s) < 2 ^ 32 \<and>
     8 dvd length (trace_bits s) \<and>
     (\<forall>p < length (entries s). tc_ref (ent s p) = of_nat (slots (top_rated s) p)) \<and>
     (\<forall>i < length (trace_bits s). \<forall>p. top_rated s ! i = Some p \<longrightarrow>
        p < length (entries s) \<and>
        (\<exists>m. trace_mini (ent s p) = Some m \<and> length m = length (trace_bits s) div 8 \<and> map_bit m i))"

text \<open>The trace kept with an entry covers the bytes of its current trace.\<close>

definition own_ok :: "nat \<Rightarrow> 'a queue_st_scheme \<Rightarrow> bool" where
  "own_ok q s \<longleftrightarrow> (\<forall>m. trace_mini (ent s q) = Some m \<longrightarrow>
     length m = length (trace_bits s) div 8 \<and>
     (\<forall>i < length (trace_bits s). trace_bits s ! i \<noteq> 0 \<longrightarrow> map_bit m i))"

lemma fresh_mini_bits:
  assumes "8 dvd length (trace_bits s)"
  shows "length (fresh_mini s) = length (trace_bits s) div 8"
    and "i < length (trace_bits s) \<Longrightarrow> map_bit (fresh_mini s) i \<longleftrightarrow> trace_bits s ! i \<noteq> 0"
proof -
  have l: "length (trace_bits s) = 8 * length (replicate (length (trace_bits s) div 8) (0 :: u8))"
    using assms by simp
  show "length (fresh_mini s) = length (trace_bits s) div 8"
    unfolding fresh_mini_def using minimize_bits_eq(1) [OF l] by simp
  assume i: "i < length (trace_bits s)"
  then have "i div 8 < length (trace_bits s) div 8" using assms by (auto elim!: dvdE)
  then have "\<not> map_bit (replicate (length (trace_bits s) div 8) 0) i" by (simp add: map_bit_def)
  then show "map_bit (fresh_mini s) i \<longleftrightarrow> trace_bits s ! i \<noteq> 0"
    unfolding fresh_mini_def using minimize_bits_eq(2) [OF l, of i] i by simp
qed

lemma u32_of_nat_eq_1: "n < 2 ^ 32 \<Longrightarrow> (of_nat n :: u32) = 1 \<longleftrightarrow> n = 1"
proof -
  assume "n < 2 ^ 32"
  then have "unat (of_nat n :: u32) = n" by (simp add: unat_of_nat)
  then show ?thesis by (metis of_nat_1 unat_1)
qed

lemma u32_count_step:
  assumes "k' + of_bool a = k + of_bool b"
  shows "(of_nat k :: u32) - of_bool a + of_bool b = of_nat k'"
proof -
  have "(of_nat (k' + of_bool a) :: u32) = of_nat (k + of_bool b)" using assms by simp
  then have "(of_nat k' :: u32) + of_bool a = of_nat k + of_bool b" by (cases a; cases b) (simp_all add: add.commute)
  then show ?thesis by (simp add: algebra_simps)
qed

lemma afl_win_keeps:
  assumes ok: "rated_ok s" and own: "own_ok q s" and q: "q < length (entries s)"
    and i: "i < length (trace_bits s)" and hit: "trace_bits s ! i \<noteq> 0"
    and t: "t = (case top_rated s ! i of None \<Rightarrow> afl_win q i s | Some p \<Rightarrow> afl_win q i (release p s))"
  shows "rated_ok t \<and> own_ok q t"
proof -
  have sc: "scored s t" unfolding scored_def t afl_win_def by (simp split: option.split)
  note eq = scoredD(1,2) [OF sc]
  have il: "i < length (top_rated s)" using ok i by (simp add: rated_ok_def)
  have big: "length (top_rated s) < 2 ^ 32" and d8: "8 dvd length (trace_bits s)"
    using ok by (simp_all add: rated_ok_def)
  note e = afl_win_entry [OF q _ t]
  have ref: "tc_ref (ent t r) = of_nat (slots (top_rated t) r)" if "r < length (entries s)" for r
    using e(1) [OF that] ok that u32_count_step [OF slots_update [OF il, of q r]]
    unfolding e(3) [OF q] by (simp add: rated_ok_def)
  have own': "own_ok q t"
    unfolding own_ok_def eq e(2) [OF q] using own fresh_mini_bits [OF d8]
    by (auto simp: Let_def own_ok_def)
  have mini: "\<exists>m. trace_mini (ent t p) = Some m \<and> length m = length (trace_bits s) div 8 \<and> map_bit m j"
    if j: "j < length (trace_bits s)" and top: "top_rated t ! j = Some p" and p: "p < length (entries s)"
    for j p
  proof (cases "p = q \<and> j = i")
    case True
    have "trace_mini (ent t q) \<noteq> None" by (simp add: e(2) [OF q] Let_def)
    then show ?thesis using own' True hit i by (auto simp: own_ok_def eq)
  next
    case False
    then have ji: "j \<noteq> i" using top il by (auto simp: e(3) [OF q])
    then have old: "top_rated s ! j = Some p" using top by (simp add: e(3) [OF q])
    then obtain m where m: "trace_mini (ent s p) = Some m" "length m = length (trace_bits s) div 8" "map_bit m j"
      using ok j unfolding rated_ok_def by blast
    have "\<not> (top_rated s ! i = Some p \<and> tc_ref (ent s p) = 1)"
    proof
      assume a: "top_rated s ! i = Some p \<and> tc_ref (ent s p) = 1"
      then have "slots (top_rated s) p = 1"
        using ok p u32_of_nat_eq_1 [of "slots (top_rated s) p"] slots_le [of "top_rated s" p] big
        by (simp add: rated_ok_def)
      then have "slots ((top_rated s)[i := None]) p = 0"
        using count_list_update [OF il, of None "Some p"] a by (simp add: slots_def)
      moreover have "0 < slots ((top_rated s)[i := None]) p"
        by (rule slots_pos [of j]) (use old ji j ok in \<open>simp_all add: rated_ok_def\<close>)
      ultimately show False by simp
    qed
    then have "trace_mini (ent t p) = Some m" unfolding e(2) [OF p] m(1) by (auto simp: Let_def)
    then show ?thesis using m by simp
  qed
  have "top_rated t ! j = Some p \<Longrightarrow> p < length (entries s)" if "j < length (trace_bits s)" for j p
    using ok that q il by (cases "j = i") (auto simp: e(3) [OF q] rated_ok_def)
  then have "rated_ok t"
    using ref mini ok unfolding rated_ok_def eq by (auto simp: e(3) [OF q])
  then show ?thesis using own' by blast
qed

lemma afl_step_keeps:
  assumes "rated_ok s" and "own_ok q s" and "q < length (entries s)" and "i < length (trace_bits s)"
  shows "rated_ok (afl_score_step q fav i s) \<and> own_ok q (afl_score_step q fav i s)"
proof (cases "trace_bits s ! i = 0 \<or> (\<exists>p. top_rated s ! i = Some p \<and> fav > fav_of s p)")
  case True
  then have "afl_score_step q fav i s = s" by (auto simp: afl_score_step_def)
  then show ?thesis using assms by simp
next
  case False
  then have h: "trace_bits s ! i \<noteq> 0" and e: "afl_score_step q fav i s =
      (case top_rated s ! i of None \<Rightarrow> afl_win q i s | Some p \<Rightarrow> afl_win q i (release p s))"
    by (auto simp: afl_score_step_def split: option.splits)
  show ?thesis by (rule afl_win_keeps [OF assms h e])
qed

lemma afl_fold_keeps:
  assumes "rated_ok s" and "own_ok q s" and "q < length (entries s)"
    and "set is \<subseteq> {..<length (trace_bits s)}"
  shows "rated_ok (fold (afl_score_step q fav) is s) \<and> own_ok q (fold (afl_score_step q fav) is s)"
  using assms
proof (induction "is" arbitrary: s)
  case (Cons i js)
  have sc: "scored s (afl_score_step q fav i s)" by (rule afl_step_scored)
  show ?case
    using Cons.IH [of "afl_score_step q fav i s"] afl_step_keeps [of s q i fav] Cons.prems scoredD(1,2) [OF sc]
    by auto
qed simp

text \<open>Who holds a slot afterwards.\<close>

definition afl_holder :: "'a queue_st_scheme \<Rightarrow> nat \<Rightarrow> nat \<Rightarrow> nat option" where
  "afl_holder s q i =
     (if trace_bits s ! i = 0 then top_rated s ! i
      else case top_rated s ! i of
             Some p \<Rightarrow> if fav_of s q > fav_of s p then Some p else Some q
           | None \<Rightarrow> Some q)"

lemma afl_step_slot:
  "top_rated (afl_score_step q fav i s) = (top_rated s)[i :=
     (if trace_bits s ! i = 0 then top_rated s ! i
      else case top_rated s ! i of
             Some p \<Rightarrow> if fav > fav_of s p then Some p else Some q
           | None \<Rightarrow> Some q)]"
proof -
  have "top_rated (keep_mini q u) = top_rated u" "top_rated (take_ref q u) = top_rated u"
    "top_rated (release q u) = top_rated u" for u :: "'a queue_st_scheme" and q
    by (simp_all add: keep_mini_def take_ref_def release_def)
  then show ?thesis
    unfolding afl_score_step_def afl_win_def by (auto split: option.splits) (metis list_update_id)+
qed

lemma afl_fold_slots:
  assumes "\<forall>i < length (trace_bits s). \<forall>p. top_rated s ! i = Some p \<longrightarrow> p < length (entries s)"
    and "length (top_rated s) = length (trace_bits s)" and "k \<le> length (trace_bits s)"
    and "i < length (trace_bits s)"
  shows "top_rated (fold (afl_score_step q (fav_of s q)) [0..<k] s) ! i =
    (if i < k then afl_holder s q i else top_rated s ! i)"
  using assms(3)
proof (induction k)
  case (Suc k)
  let ?u = "fold (afl_score_step q (fav_of s q)) [0..<k] s"
  have sc: "scored s ?u" by (rule fold_scored) (rule afl_step_scored)
  have k: "k < length (trace_bits s)" using Suc.prems by simp
  have len: "length (top_rated ?u) = length (trace_bits s)"
  proof -
    have "length (top_rated (fold (afl_score_step q fav) xs v)) = length (top_rated v)"
      for xs fav and v :: "'a queue_st_scheme"
      by (induction xs arbitrary: v) (simp_all add: afl_step_slot)
    then show ?thesis using assms(2) by simp
  qed
  have "top_rated ?u ! k = top_rated s ! k"
  proof -
    have "top_rated (fold (afl_score_step q fav) xs v) ! k = top_rated v ! k" if "k \<notin> set xs"
      for xs fav and v :: "'a queue_st_scheme"
      using that by (induction xs arbitrary: v) (auto simp: afl_step_slot)
    then show ?thesis by simp
  qed
  moreover have "fav_of ?u p = fav_of s p" if "top_rated s ! k = Some p" for p
    by (rule scored_fav [OF sc]) (use that assms(1) k in blast)
  ultimately have "(case top_rated ?u ! k of Some p \<Rightarrow> if fav_of s q > fav_of ?u p then Some p else Some q
           | None \<Rightarrow> Some q) =
     (case top_rated s ! k of Some p \<Rightarrow> if fav_of s q > fav_of s p then Some p else Some q
           | None \<Rightarrow> Some q)"
    by (simp split: option.split)
  then have hold: "(if trace_bits ?u ! k = 0 then top_rated ?u ! k
      else case top_rated ?u ! k of Some p \<Rightarrow> if fav_of s q > fav_of ?u p then Some p else Some q
           | None \<Rightarrow> Some q) = afl_holder s q k"
    using \<open>top_rated ?u ! k = top_rated s ! k\<close>
    unfolding afl_holder_def scoredD(2) [OF sc] by simp
  have f: "fold (afl_score_step q (fav_of s q)) [0..<Suc k] s = afl_score_step q (fav_of s q) k ?u" by simp
  show ?case
    unfolding f afl_step_slot hold using Suc.IH k len assms(4) by (auto simp: nth_list_update less_Suc_eq)
qed simp

subsection \<open>Grabbing winners\<close>

lemma drop_mini_bytes:
  assumes "length mini = length t"
  shows "length (drop_mini mini t) = length t"
    and "j < length t \<Longrightarrow> drop_mini mini t ! j = t ! j AND NOT (mini ! j)"
proof -
  let ?f = "\<lambda>j t. if mini ! j \<noteq> 0 then t[j := t ! j AND NOT (mini ! j)] else t"
  have len: "length (fold ?f xs u) = length u" for xs u
    by (induction xs arbitrary: u) simp_all
  show "length (drop_mini mini t) = length t" unfolding drop_mini_def by (rule len)
  have nth: "fold ?f xs u ! j = (if j \<in> set xs then u ! j AND NOT (mini ! j) else u ! j)"
    if "distinct xs" "j < length u" for xs j u
    using that
  proof (induction xs arbitrary: u)
    case (Cons x xs)
    have "?f x u ! j = (if j = x then u ! j AND NOT (mini ! j) else u ! j)"
      using Cons.prems by (simp add: nth_list_update)
    then show ?case using Cons by auto
  qed simp
  show "j < length t \<Longrightarrow> drop_mini mini t ! j = t ! j AND NOT (mini ! j)"
    unfolding drop_mini_def by (subst nth) simp_all
qed

lemma drop_mini_bit:
  assumes "length mini = length t" and "k < 8 * length t"
  shows "map_bit (drop_mini mini t) k \<longleftrightarrow> map_bit t k \<and> \<not> map_bit mini k"
proof -
  have "k div 8 < length t" using assms by linarith
  then show ?thesis
    using drop_mini_bytes(2) [OF assms(1)] by (simp add: map_bit_def bit_simps)
qed

definition unfav :: "queue_entry \<Rightarrow> queue_entry" where
  "unfav e = e\<lparr>favored := False\<rparr>"

definition mini_has :: "'a queue_st_scheme \<Rightarrow> nat \<Rightarrow> nat \<Rightarrow> bool" where
  "mini_has s p i \<longleftrightarrow> (\<exists>m. trace_mini (ent s p) = Some m \<and>
     length m = length (trace_bits s) div 8 \<and> map_bit m i)"

definition favored_count :: "'a queue_st_scheme \<Rightarrow> nat" where
  "favored_count s = length (filter favored (entries s))"

definition pending_count :: "'a queue_st_scheme \<Rightarrow> nat" where
  "pending_count s = length (filter (\<lambda>e. favored e \<and> \<not> was_fuzzed e) (entries s))"

text \<open>Every slot of a rating is held by an entry whose kept trace covers it.\<close>

definition holders_ok :: "nat option list \<Rightarrow> 'a queue_st_scheme \<Rightarrow> bool" where
  "holders_ok rated s \<longleftrightarrow> length rated = length (trace_bits s) \<and> 8 dvd length (trace_bits s) \<and>
     (\<forall>i < length rated. \<forall>p. rated ! i = Some p \<longrightarrow> p < length (entries s) \<and> mini_has s p i)"

lemma length_filter_update:
  "i < length xs \<Longrightarrow>
   length (filter P (xs[i := y])) + of_bool (P (xs ! i)) = length (filter P xs) + of_bool (P y)"
proof (induction xs arbitrary: i)
  case (Cons a xs)
  show ?case
  proof (cases i)
    case (Suc j)
    then show ?thesis using Cons.IH [of j] Cons.prems by simp
  qed auto
qed simp

text \<open>Favoring one entry that was not favored: the counters keep counting.\<close>

definition counted :: "'a queue_st_scheme \<Rightarrow> 'a queue_st_scheme \<Rightarrow> bool" where
  "counted s0 s \<longleftrightarrow> map unfav (entries s) = map unfav (entries s0) \<and>
     s = s0\<lparr>entries := entries s, queued_favored := of_nat (favored_count s),
            pending_favored := of_nat (pending_count s)\<rparr>"

definition favor_one :: "nat \<Rightarrow> 'a queue_st_scheme \<Rightarrow> 'a queue_st_scheme" where
  "favor_one p s = (upd p (favored_update (\<lambda>_. True)) s)\<lparr>queued_favored := queued_favored s + 1,
     pending_favored := (if was_fuzzed (ent s p) then pending_favored s else pending_favored s + 1)\<rparr>"

lemma favor_one_counted:
  assumes c: "counted s0 s" and p: "p < length (entries s)" and nf: "\<not> favored (ent s p)"
  shows "counted s0 (favor_one p s)"
proof -
  let ?s' = "favor_one p s"
  have ents: "entries ?s' = (entries s)[p := (entries s ! p)\<lparr>favored := True\<rparr>]"
    by (simp add: favor_one_def upd_def)
  have fc: "favored_count ?s' = Suc (favored_count s)"
    using length_filter_update [of p "entries s" favored "(entries s ! p)\<lparr>favored := True\<rparr>"] nf p
    unfolding favored_count_def ents by (simp add: ent_def)
  have pc: "pending_count ?s' = (if was_fuzzed (ent s p) then pending_count s else Suc (pending_count s))"
    using length_filter_update [of p "entries s" "\<lambda>e. favored e \<and> \<not> was_fuzzed e"
        "(entries s ! p)\<lparr>favored := True\<rparr>"] nf p
    unfolding pending_count_def ents by (simp add: ent_def)
  have s: "s = s0\<lparr>entries := entries s, queued_favored := of_nat (favored_count s),
           pending_favored := of_nat (pending_count s)\<rparr>"
    using c by (simp add: counted_def)
  have cnt: "queued_favored s = of_nat (favored_count s)" "pending_favored s = of_nat (pending_count s)"
    using arg_cong [OF s, of queued_favored] arg_cong [OF s, of pending_favored] by simp_all
  have "map unfav (entries ?s') = (map unfav (entries s))[p := unfav (entries s ! p)]"
    unfolding ents map_update by (simp add: unfav_def)
  also have "\<dots> = map unfav (entries s)" using p by (simp add: list_update_same_conv)
  also have "\<dots> = map unfav (entries s0)" using c by (simp add: counted_def)
  finally have m: "map unfav (entries ?s') = map unfav (entries s0)" .
  have sw: "s\<lparr>entries := X, queued_favored := y, pending_favored := z\<rparr> =
      s0\<lparr>entries := X, queued_favored := y, pending_favored := z\<rparr>" for X y z
    using arg_cong [OF s, of "\<lambda>x. x\<lparr>entries := X, queued_favored := y, pending_favored := z\<rparr>"] by simp
  have "?s' = s\<lparr>entries := entries ?s', queued_favored := queued_favored s + 1,
      pending_favored := (if was_fuzzed (ent s p) then pending_favored s else pending_favored s + 1)\<rparr>"
    by (simp add: favor_one_def upd_def)
  moreover have "queued_favored s + 1 = of_nat (favored_count ?s')"
    using fc cnt(1) by (metis add.commute of_nat_Suc)
  moreover have "(if was_fuzzed (ent s p) then pending_favored s else pending_favored s + 1) =
      of_nat (pending_count ?s')"
    by (subst pc) (simp add: cnt(2))
  ultimately show ?thesis unfolding counted_def using sw m by (simp only: simp_thms)
qed

text \<open>The state of the loop before slot \<open>k\<close>, started from \<open>s0\<close>.\<close>

definition grab_inv :: "nat option list \<Rightarrow> 'a queue_st_scheme \<Rightarrow> nat \<Rightarrow> bytes \<times> 'a queue_st_scheme \<Rightarrow> bool" where
  "grab_inv rated s0 k ts \<longleftrightarrow>
     (let temp_v = fst ts; s = snd ts; n = length (entries s0) in
      counted s0 s \<and>
      length temp_v = length rated div 8 \<and>
      (\<forall>j < length rated. map_bit temp_v j \<longleftrightarrow>
         \<not> (\<exists>p < n. favored (ent s p) \<and> mini_has s0 p j)) \<and>
      (\<forall>i < k. rated ! i \<noteq> None \<longrightarrow> \<not> map_bit temp_v i) \<and>
      (\<forall>p < n. favored (ent s p) \<longrightarrow> (\<exists>i < k. rated ! i = Some p)))"

lemma grab_step_inv:
  assumes inv: "grab_inv rated s0 k ts" and ok: "holders_ok rated s0" and k: "k < length rated"
  shows "\<exists>ts'. grab_step rated k ts = Inr ts' \<and> grab_inv rated s0 (Suc k) ts'"
proof -
  obtain v s where ts: "ts = (v, s)" by (cases ts)
  have m: "map unfav (entries s) = map unfav (entries s0)"
    using inv by (simp add: ts grab_inv_def counted_def Let_def)
  have len: "length (entries s) = length (entries s0)" using m by (metis length_map)
  have uf: "unfav (ent s p) = unfav (ent s0 p)" if "p < length (entries s0)" for p
    using m that len unfolding ent_def by (metis nth_map)
  have mini: "trace_mini (ent s p) = trace_mini (ent s0 p)" if "p < length (entries s0)" for p
    using arg_cong [OF uf [OF that], of trace_mini] by (simp add: unfav_def)
  show ?thesis
  proof (cases "rated ! k = None \<or> \<not> map_bit v k")
    case True
    then have "grab_step rated k ts = Inr ts"
      by (auto simp: grab_step_def ts Let_def split: option.split)
    moreover have "grab_inv rated s0 (Suc k) ts"
      using inv True unfolding ts grab_inv_def Let_def less_Suc_eq by auto
    ultimately show ?thesis by blast
  next
    case False
    then obtain p where p: "rated ! k = Some p" and bit: "map_bit v k" by auto
    have pn: "p < length (entries s0)" "mini_has s0 p k" using ok k p by (auto simp: holders_ok_def)
    then obtain m where m: "trace_mini (ent s0 p) = Some m"
      "length m = length (trace_bits s0) div 8" "map_bit m k" by (auto simp: mini_has_def)
    have nf: "\<not> favored (ent s p)"
      using inv bit pn k unfolding ts grab_inv_def Let_def by auto
    let ?s' = "favor_one p s"
    have step: "grab_step rated k ts = Inr (drop_mini m v, ?s')"
      using p bit m pn mini [OF pn(1)] len by (simp add: grab_step_def ts Let_def ent_upd favor_one_def)
    have cs: "counted s0 ?s'"
      by (rule favor_one_counted [OF _ _ nf]) (use inv pn len in \<open>simp_all add: ts grab_inv_def Let_def\<close>)
    have fav: "favored (ent ?s' r) \<longleftrightarrow> r = p \<or> favored (ent s r)" if "r < length (entries s0)" for r
      using that len by (simp add: ent_upd favor_one_def)
    have vl: "length m = length v"
      using inv ok m(2) unfolding ts grab_inv_def Let_def holders_ok_def by simp
    have l8: "length rated = 8 * length v"
      using inv ok unfolding ts grab_inv_def Let_def holders_ok_def by simp
    have has_p: "mini_has s0 p j \<longleftrightarrow> map_bit m j" for j using m by (simp add: mini_has_def)
    have "length (drop_mini m v) = length rated div 8"
      using drop_mini_bytes(1) [OF vl] l8 by simp
    moreover have bits: "map_bit (drop_mini m v) j \<longleftrightarrow>
        \<not> (\<exists>r < length (entries s0). favored (ent ?s' r) \<and> mini_has s0 r j)" if j: "j < length rated" for j
    proof -
      have "map_bit v j \<longleftrightarrow> \<not> (\<exists>r < length (entries s0). favored (ent s r) \<and> mini_has s0 r j)"
        using inv j unfolding ts grab_inv_def Let_def by simp
      then show ?thesis
        using drop_mini_bit [OF vl, of j] j l8 fav has_p pn by metis
    qed
    moreover have "\<not> map_bit (drop_mini m v) i" if "i < Suc k" "rated ! i \<noteq> None" for i
    proof (cases "i = k")
      case True
      then show ?thesis using drop_mini_bit [OF vl, of k] k l8 m(3) by simp
    next
      case False
      then have "\<not> map_bit v i" using inv that unfolding ts grab_inv_def Let_def by simp
      then show ?thesis using drop_mini_bit [OF vl, of i] that k l8 by simp
    qed
    moreover have "\<exists>i < Suc k. rated ! i = Some r" if "r < length (entries s0)" "favored (ent ?s' r)" for r
    proof (cases "r = p")
      case True
      then show ?thesis using p by blast
    next
      case False
      then have "favored (ent s r)" using that fav by blast
      then show ?thesis using inv that unfolding ts grab_inv_def Let_def by (metis less_SucI snd_conv)
    qed
    ultimately have "grab_inv rated s0 (Suc k) (drop_mini m v, ?s')"
      unfolding grab_inv_def Let_def fst_conv snd_conv using cs by blast
    then show ?thesis using step by blast
  qed
qed


lemma grab_winners_spec:
  assumes ok: "holders_ok rated s" and clean: "\<forall>p < length (entries s). \<not> favored (ent s p)"
    and zero: "queued_favored s = 0" "pending_favored s = 0"
  obtains t where "grab_winners rated s = Inr t"
    and "counted s t"
    and "\<forall>i < length rated. rated ! i \<noteq> None \<longrightarrow>
           (\<exists>p < length (entries s). favored (ent t p) \<and> mini_has s p i)"
    and "\<forall>p < length (entries s). favored (ent t p) \<longrightarrow> (\<exists>i < length rated. rated ! i = Some p)"
proof -
  let ?v = "replicate (length (trace_bits s) div 8) (255 :: u8)"
  have none: "filter favored (entries s) = []" "filter (\<lambda>e. favored e \<and> \<not> was_fuzzed e) (entries s) = []"
    using clean by (auto simp: filter_empty_conv ent_def in_set_conv_nth)
  have "grab_inv rated s 0 (?v, s)"
  proof -
    have ff: "bit (255 :: u8) b" if "b < 8" for b
    proof -
      have "(255 :: u8) = - 1" by simp
      then show ?thesis using that by (simp only: bit_minus_1_iff) simp
    qed
    have "map_bit ?v j" if "j < length rated" for j
    proof -
      have "j div 8 < length (trace_bits s) div 8"
        using that ok by (auto simp: holders_ok_def elim!: dvdE)
      then show ?thesis using ff [of "j mod 8"] by (simp add: map_bit_def)
    qed
    then show ?thesis
      using clean zero ok none unfolding grab_inv_def Let_def counted_def favored_count_def pending_count_def holders_ok_def
      by auto
  qed
  then have "\<exists>ts. fold_res (grab_step rated) [0..<k] (?v, s) = Inr ts \<and> grab_inv rated s k ts"
    if "k \<le> length rated" for k
    using that
  proof (induction k)
    case (Suc k)
    then obtain ts where ts: "fold_res (grab_step rated) [0..<k] (?v, s) = Inr ts" "grab_inv rated s k ts" by auto
    then show ?case
      using grab_step_inv [OF ts(2) ok] Suc.prems by (auto simp: fold_res_append)
  qed simp
  from this [of "length rated"] ok obtain v t where
    r: "fold_res (grab_step rated) [0..<length (trace_bits s)] (?v, s) = Inr (v, t)"
    and inv: "grab_inv rated s (length rated) (v, t)"
    by (auto simp: holders_ok_def)
  have g: "grab_winners rated s = Inr t" unfolding grab_winners_def using r by simp
  have bits: "map_bit v j \<longleftrightarrow> \<not> (\<exists>p < length (entries s). favored (ent t p) \<and> mini_has s p j)"
    and cleared: "rated ! j \<noteq> None \<Longrightarrow> \<not> map_bit v j" if "j < length rated" for j
    using inv that unfolding grab_inv_def Let_def fst_conv snd_conv by blast+
  have cover: "\<forall>i < length rated. rated ! i \<noteq> None \<longrightarrow>
      (\<exists>p < length (entries s). favored (ent t p) \<and> mini_has s p i)"
    using bits cleared by meson
  show ?thesis
    by (rule that [OF g _ cover]) (use inv in \<open>simp_all add: grab_inv_def Let_def\<close>)
qed

subsection \<open>A whole culling pass\<close>

lemma map_unfav_cong:
  assumes "map unfav xs = map unfav ys" and "\<And>e. f (unfav e) = f e"
  shows "map f xs = map f ys"
proof -
  have "map f (map unfav xs) = map f (map unfav ys)" using assms(1) by simp
  then show ?thesis using assms(2) by (simp add: o_def)
qed

lemma list_wf_cong:
  assumes "queue t = queue s" and "map q_next (entries t) = map q_next (entries s)"
  shows "list_wf t = list_wf s"
proof -
  have l: "length (entries t) = length (entries s)" using assms(2) by (metis length_map)
  have "q_next (ent t p) = q_next (ent s p)" if "p < length (entries s)" for p
    using assms(2) l that unfolding ent_def by (metis nth_map)
  then show ?thesis using assms(1) l by (auto simp: list_wf_def)
qed

lemma red_ok_cong:
  assumes "map fname (entries t) = map fname (entries s)" "out_dir t = out_dir s" "fs t = fs s"
    "map fs_redundant (entries t) = map fs_redundant (entries s)"
  shows "red_ok E t = red_ok E s"
proof -
  have l: "length (entries t) = length (entries s)" using assms(1) by (metis length_map)
  have "red_path t p = red_path s p" "fs_redundant (ent t p) = fs_redundant (ent s p)"
    if "p < length (entries s)" for p
  proof -
    have "fname (ent t p) = fname (ent s p)"
      using assms(1) l that unfolding ent_def by (metis nth_map)
    then show "red_path t p = red_path s p" using assms(2) by (simp add: red_path_def)
    show "fs_redundant (ent t p) = fs_redundant (ent s p)"
      using assms(4) l that unfolding ent_def by (metis nth_map)
  qed
  then show ?thesis using assms(3) l by (simp add: red_ok_def)
qed

definition cleared :: "'a queue_st_scheme \<Rightarrow> 'a queue_st_scheme" where
  "cleared s = s\<lparr>queued_favored := 0, pending_favored := 0,
     entries := map (favored_update (\<lambda>_. False)) (entries s)\<rparr>"

lemma reset_favored_eq:
  assumes "list_wf s"
  shows "reset_favored s = Inr (cleared s)"
proof -
  let ?s = "s\<lparr>queued_favored := 0, pending_favored := 0\<rparr>"
  have "list_wf ?s" using assms by (simp add: list_wf_cong [of ?s s])
  then show ?thesis
    unfolding reset_favored_def cleared_def
    using clear_walk.walk_queue_fold [of ?s] clear_favored_all [of ?s] by simp
qed

text \<open>
  What culling promises: every rated byte is covered by a favorite, every favorite holds a slot,
  the counters count, and the marker flags say which entries are not favored.
\<close>

definition culled :: "nat option list \<Rightarrow> 'a queue_st_scheme \<Rightarrow> 'a queue_st_scheme \<Rightarrow> bool" where
  "culled rated s t \<longleftrightarrow>
     length (entries t) = length (entries s) \<and>
     (\<forall>i < length rated. rated ! i \<noteq> None \<longrightarrow>
        (\<exists>p < length (entries s). favored (ent t p) \<and> mini_has s p i)) \<and>
     (\<forall>p < length (entries s). favored (ent t p) \<longrightarrow> (\<exists>i < length rated. rated ! i = Some p)) \<and>
     queued_favored t = of_nat (favored_count t) \<and> pending_favored t = of_nat (pending_count t) \<and>
     (\<forall>p < length (entries s). fs_redundant (ent t p) \<longleftrightarrow> \<not> favored (ent t p))"

text \<open>The last walk of a pass, after the favorites have been chosen.\<close>

lemma note_pass:
  assumes c: "counted u v" and wf: "list_wf u" and red: "red_ok E u"
  obtains t f where "walk_queue (note_redundant E) v = Inr t"
    and "t = v\<lparr>entries := map noted (entries v), fs := f\<rparr>"
    and "list_wf t" and "red_ok E t" and "length (entries t) = length (entries u)"
    and "queued_favored t = of_nat (favored_count t)" and "pending_favored t = of_nat (pending_count t)"
    and "\<And>p. p < length (entries u) \<Longrightarrow> favored (ent t p) = favored (ent v p)"
    and "\<And>p. p < length (entries u) \<Longrightarrow> fs_redundant (ent t p) = (\<not> favored (ent v p))"
proof -
  have uv: "map unfav (entries v) = map unfav (entries u)"
    and v: "v = u\<lparr>entries := entries v, queued_favored := of_nat (favored_count v),
      pending_favored := of_nat (pending_count v)\<rparr>"
    using c by (simp_all add: counted_def)
  have fv: "queue v = queue u" "out_dir v = out_dir u" "fs v = fs u"
    "queued_favored v = of_nat (favored_count v)" "pending_favored v = of_nat (pending_count v)"
    using arg_cong [OF v, of queue] arg_cong [OF v, of out_dir] arg_cong [OF v, of fs]
      arg_cong [OF v, of queued_favored] arg_cong [OF v, of pending_favored] by simp_all
  have lv: "length (entries v) = length (entries u)" using uv by (metis length_map)
  have wv: "list_wf v"
    using wf list_wf_cong [OF fv(1) map_unfav_cong [OF uv, of q_next]] by (simp add: unfav_def)
  have rv: "red_ok E v"
    using red red_ok_cong [OF map_unfav_cong [OF uv, of fname] fv(2,3) map_unfav_cong [OF uv, of fs_redundant]]
    by (simp add: unfav_def)
  obtain t where t: "fold_res (note_redundant E) [0..<length (entries v)] v = Inr t" "red_ok E t"
    using note_redundant_total [OF rv] by blast
  obtain f where f: "t = v\<lparr>entries := map noted (entries v), fs := f\<rparr>"
    by (rule note_redundant_all [OF t(1)])
  have "filter P (map noted xs) = map noted (filter P xs)" if "\<And>e. P (noted e) = P e" for P xs
    by (induction xs) (simp_all add: that)
  then have cnt: "favored_count t = favored_count v" "pending_count t = pending_count v"
    by (simp_all add: favored_count_def pending_count_def f noted_def)
  have e: "ent t p = noted (ent v p)" if "p < length (entries u)" for p
    using that lv by (simp add: f ent_def)
  have wt: "list_wf t" using wv by (subst list_wf_cong [of t v]) (simp_all add: f noted_def)
  have walk: "walk_queue (note_redundant E) v = Inr t"
    unfolding redundant_walk.walk_queue_fold [OF wv] by (rule t(1))
  have same: "length (entries t) = length (entries u)" "queued_favored t = queued_favored v"
    "pending_favored t = pending_favored v" using lv by (simp_all add: f)
  show ?thesis
    by (rule that [OF walk f wt t(2) same(1)])
      (simp_all add: same cnt fv(4,5) e noted_def)
qed

lemma cleared_facts:
  "p < length (entries s) \<Longrightarrow> ent (cleared s) p = unfav (ent s p)"
  "length (entries (cleared s)) = length (entries s)" "queued_favored (cleared s) = 0"
  "pending_favored (cleared s) = 0" "top_rated (cleared s) = top_rated s"
  "top_rated_orig (cleared s) = top_rated_orig s" "trace_bits (cleared s) = trace_bits s"
  "TF_switch (cleared s) = TF_switch s" "TF_top_null (cleared s) = TF_top_null s"
  "score_changed (cleared s) = score_changed s"
  by (simp_all add: cleared_def ent_def unfav_def)

lemma cleared_ok:
  "list_wf (cleared s) = list_wf s" "red_ok E (cleared s) = red_ok E s"
  by (rule list_wf_cong, simp_all add: cleared_def) (rule red_ok_cong, simp_all)

lemma cleared_clean: "\<forall>p < length (entries (cleared s)). \<not> favored (ent (cleared s) p)"
  by (simp add: cleared_facts unfav_def)

lemma cull_pass:
  assumes wf: "list_wf s" and red: "red_ok E s" and ok: "holders_ok rated s"
  obtains t where "bnd (grab_winners rated (cleared s)) (walk_queue (note_redundant E)) = Inr t"
    and "culled rated s t" and "score_changed t = score_changed s" and "list_wf t" and "red_ok E t"
    and "TF_top_null t = TF_top_null s" and "TF_switch t = TF_switch s"
proof -
  have has: "mini_has (cleared s) p i = mini_has s p i" if "p < length (entries s)" for p i
    using that by (simp add: mini_has_def cleared_facts unfav_def)
  have "holders_ok rated (cleared s)" using ok has by (auto simp: holders_ok_def cleared_facts)
  from this cleared_clean cleared_facts(3,4) obtain v where v: "grab_winners rated (cleared s) = Inr v"
    "counted (cleared s) v"
    "\<forall>i < length rated. rated ! i \<noteq> None \<longrightarrow>
       (\<exists>p < length (entries (cleared s)). favored (ent v p) \<and> mini_has (cleared s) p i)"
    "\<forall>p < length (entries (cleared s)). favored (ent v p) \<longrightarrow> (\<exists>i < length rated. rated ! i = Some p)"
    by (rule grab_winners_spec)
  have wc: "list_wf (cleared s)" "red_ok E (cleared s)" using wf red by (simp_all only: cleared_ok)
  obtain t f where t: "walk_queue (note_redundant E) v = Inr t"
    "t = v\<lparr>entries := map noted (entries v), fs := f\<rparr>"
    "list_wf t" "red_ok E t" "length (entries t) = length (entries s)"
    "queued_favored t = of_nat (favored_count t)" "pending_favored t = of_nat (pending_count t)"
    "\<And>p. p < length (entries s) \<Longrightarrow> favored (ent t p) = favored (ent v p)"
    "\<And>p. p < length (entries s) \<Longrightarrow> fs_redundant (ent t p) = (\<not> favored (ent v p))"
    by (rule note_pass [OF v(2) wc, unfolded cleared_facts(2)]) blast
  have cov: "\<exists>p < length (entries s). favored (ent t p) \<and> mini_has s p i"
    if i: "i < length rated" "rated ! i \<noteq> None" for i
    using v(3) [rule_format, OF i] has t(8) unfolding cleared_facts by metis
  have "culled rated s t"
    unfolding culled_def using t(5-9) cov v(4) by (simp add: cleared_facts)
  moreover have "v = (cleared s)\<lparr>entries := entries v, queued_favored := of_nat (favored_count v),
      pending_favored := of_nat (pending_count v)\<rparr>" using v(2) by (simp add: counted_def)
  from arg_cong [OF this, of score_changed] arg_cong [OF this, of TF_top_null] arg_cong [OF this, of TF_switch]
  have "score_changed t = score_changed s" "TF_top_null t = TF_top_null s" "TF_switch t = TF_switch s"
    unfolding t(2) by (simp_all add: cleared_facts)
  ultimately show ?thesis using that v(1) t(1,3,4) by simp
qed

lemma rated_ok_holders: "rated_ok s \<Longrightarrow> holders_ok (top_rated s) s"
  by (auto simp: rated_ok_def holders_ok_def mini_has_def)

subsection \<open>The slots after the hybrid update_bitmap_score\<close>

definition tf_holder :: "'a queue_st_scheme \<Rightarrow> nat \<Rightarrow> nat \<Rightarrow> nat option" where
  "tf_holder s q i =
     (if trace_bits s ! i = 0 then top_rated s ! i
      else case top_rated s ! i of
             None \<Rightarrow> Some q
           | Some p \<Rightarrow>
               if max_hybrid s ! i > hybrid_bits s ! i
               then (if has_new_incorrect (ent s q) then Some q else Some p)
               else if max_hybrid s ! i = hybrid_bits s ! i then None else Some q)"

definition tf_orig_holder :: "u64 \<Rightarrow> 'a queue_st_scheme \<Rightarrow> nat \<Rightarrow> nat \<Rightarrow> nat option" where
  "tf_orig_holder fav s q i =
     (if trace_bits s ! i = 0 \<or> (top_rated s ! i \<noteq> None \<and> max_hybrid s ! i > hybrid_bits s ! i)
      then top_rated_orig s ! i
      else case top_rated_orig s ! i of
             None \<Rightarrow> Some q
           | Some p \<Rightarrow> if fav > fav_of s p then Some p else Some q)"

definition tf_max :: "'a queue_st_scheme \<Rightarrow> nat \<Rightarrow> u32" where
  "tf_max s i =
     (if trace_bits s ! i = 0 then max_hybrid s ! i else max (max_hybrid s ! i) (hybrid_bits s ! i))"

lemma piece_slots [simp]:
  "top_rated (keep_mini q s) = top_rated s" "top_rated (take_ref q s) = top_rated s"
  "top_rated (release q s) = top_rated s" "top_rated_orig (keep_mini q s) = top_rated_orig s"
  "top_rated_orig (take_ref q s) = top_rated_orig s" "top_rated_orig (release q s) = top_rated_orig s"
  "max_hybrid (keep_mini q s) = max_hybrid s" "max_hybrid (take_ref q s) = max_hybrid s"
  "max_hybrid (release q s) = max_hybrid s" "TF_switch (keep_mini q s) = TF_switch s"
  "TF_switch (take_ref q s) = TF_switch s" "TF_switch (release q s) = TF_switch s"
  "hybrid_bits (keep_mini q s) = hybrid_bits s" "hybrid_bits (take_ref q s) = hybrid_bits s"
  "hybrid_bits (release q s) = hybrid_bits s" "length (entries (release q s)) = length (entries s)"
  by (simp_all add: keep_mini_def take_ref_def release_def)

lemma tf_orig_slots:
  assumes "TF_switch s"
  shows "top_rated (tf_orig q fav i s) = top_rated s"
    and "max_hybrid (tf_orig q fav i s) = max_hybrid s"
    and "top_rated_orig (tf_orig q fav i s) = (top_rated_orig s)[i :=
      (case top_rated_orig s ! i of None \<Rightarrow> Some q
       | Some p \<Rightarrow> if fav > fav_of s p then Some p else Some q)]"
  using assms by (auto simp: tf_orig_def split: option.split) (metis list_update_id)

lemma tf_win_slots:
  assumes "TF_switch s"
  shows "top_rated (tf_win q i s) = (top_rated s)[i := Some q]"
    and "max_hybrid (tf_win q i s) = (max_hybrid s)[i := max (max_hybrid s ! i) (hybrid_bits s ! i)]"
    and "top_rated_orig (tf_win q i s) = top_rated_orig s"
    and "TF_switch (tf_win q i s)"
proof -
  have "hybrid_bits s ! i \<noteq> 0" if "max_hybrid s ! i < hybrid_bits s ! i"
    using that by auto
  then show "max_hybrid (tf_win q i s) = (max_hybrid s)[i := max (max_hybrid s ! i) (hybrid_bits s ! i)]"
    using assms by (cases "max_hybrid s ! i < hybrid_bits s ! i") (auto simp: tf_win_def max_def)
qed (use assms in \<open>simp_all add: tf_win_def\<close>)

lemma tf_orig_after:
  assumes "TF_switch u" and "unrated u = unrated s" and "top_rated_orig u = top_rated_orig s"
    and "\<And>p. top_rated_orig s ! i = Some p \<Longrightarrow> p < length (entries s)"
  shows "top_rated_orig (tf_orig q fav i u) = (top_rated_orig s)[i :=
      (case top_rated_orig s ! i of None \<Rightarrow> Some q
       | Some p \<Rightarrow> if fav > fav_of s p then Some p else Some q)]"
proof -
  have "fav_of u p = fav_of s p" if "top_rated_orig s ! i = Some p" for p
    using scored_fav [of s u p] assms that by (simp add: scored_def)
  then show ?thesis
    unfolding tf_orig_slots(3) [OF assms(1)] assms(3)
    by (cases "top_rated_orig s ! i") simp_all
qed

lemma tf_step_slots:
  assumes tf: "TF_switch s" and top: "\<And>p. top_rated_orig s ! i = Some p \<Longrightarrow> p < length (entries s)"
  shows "top_rated (score_step q fav i s) = (top_rated s)[i := tf_holder s q i] \<and>
    top_rated_orig (score_step q fav i s) = (top_rated_orig s)[i := tf_orig_holder fav s q i] \<and>
    max_hybrid (score_step q fav i s) = (max_hybrid s)[i := tf_max s i]"
proof (cases "trace_bits s ! i = 0")
  case True
  then show ?thesis by (simp add: score_step_def tf_holder_def tf_orig_holder_def tf_max_def)
next
  case hit: False
  show ?thesis
  proof (cases "top_rated s ! i")
    case None
    have st: "score_step q fav i s = tf_orig q fav i (tf_win q i s)"
      using hit None by (simp add: score_step_def)
    show ?thesis
      using hit None tf tf_orig_after [of "tf_win q i s" s i q fav, OF _ _ _ top]
      unfolding st by (simp add: tf_orig_slots tf_win_slots tf_holder_def tf_orig_holder_def tf_max_def)
  next
    case (Some p)
    consider "max_hybrid s ! i > hybrid_bits s ! i" | "max_hybrid s ! i = hybrid_bits s ! i"
      | "max_hybrid s ! i < hybrid_bits s ! i" by (meson linorder_less_linear)
    then show ?thesis
    proof cases
      case 1
      then show ?thesis
        using hit Some tf by (auto simp: score_step_def tf_holder_def tf_orig_holder_def tf_max_def max_def)
          (metis list_update_id)?
    next
      case 2
      let ?u = "(release p s)\<lparr>top_rated := (top_rated s)[i := None]\<rparr>"
      have st: "score_step q fav i s = tf_orig q fav i ?u"
        using hit Some tf 2 by (simp add: score_step_def Let_def)
      show ?thesis
        using hit Some tf 2 tf_orig_after [of ?u s i q fav, OF _ _ _ top]
        unfolding st
        by (simp add: tf_orig_slots tf_holder_def tf_orig_holder_def tf_max_def) (metis list_update_id)
    next
      case 3
      have st: "score_step q fav i s = tf_orig q fav i (tf_win q i (release p s))"
        using hit Some tf 3 by (simp add: score_step_def Let_def)
      have "unrated (tf_win q i (release p s)) = unrated s" by simp
      then show ?thesis
        using hit Some tf 3 tf_orig_after [of "tf_win q i (release p s)" s i q fav, OF _ _ _ top]
        unfolding st
        by (auto simp: tf_orig_slots tf_win_slots tf_holder_def tf_orig_holder_def tf_max_def)
    qed
  qed
qed


definition slots_len :: "'a queue_st_scheme \<Rightarrow> bool" where
  "slots_len s \<longleftrightarrow> length (top_rated s) = length (trace_bits s) \<and>
     length (top_rated_orig s) = length (trace_bits s) \<and>
     length (max_hybrid s) = length (trace_bits s) \<and>
     (\<forall>i < length (trace_bits s). \<forall>p. top_rated_orig s ! i = Some p \<longrightarrow> p < length (entries s))"

lemma tf_fold_slots:
  assumes tf: "TF_switch s" and len: "slots_len s" and q: "q < length (entries s)"
    and k: "k \<le> length (trace_bits s)"
  shows "slots_len (fold (score_step q fav) [0..<k] s) \<and>
    (\<forall>i < length (trace_bits s).
       top_rated (fold (score_step q fav) [0..<k] s) ! i = (if i < k then tf_holder s q i else top_rated s ! i) \<and>
       top_rated_orig (fold (score_step q fav) [0..<k] s) ! i =
         (if i < k then tf_orig_holder fav s q i else top_rated_orig s ! i) \<and>
       max_hybrid (fold (score_step q fav) [0..<k] s) ! i = (if i < k then tf_max s i else max_hybrid s ! i))"
  using k
proof (induction k)
  case (Suc k)
  let ?u = "fold (score_step q fav) [0..<k] s"
  have sc: "scored s ?u" by (rule fold_scored) (rule tf_step_scored)
  note e = scoredD(1-4) [OF sc]
  have k: "k < length (trace_bits s)" using Suc.prems by simp
  have IH: "slots_len ?u" "top_rated ?u ! k = top_rated s ! k" "top_rated_orig ?u ! k = top_rated_orig s ! k"
    "max_hybrid ?u ! k = max_hybrid s ! k"
    using Suc by auto
  have orig: "top_rated_orig ?u ! k = Some p \<Longrightarrow> p < length (entries ?u)" for p
    using IH(1) k e by (simp add: slots_len_def)
  have inc: "has_new_incorrect (ent ?u q) = has_new_incorrect (ent s q)"
    using arg_cong [OF scoredD(6) [OF sc q], of has_new_incorrect] by (simp add: unref_def)
  have fav: "fav_of ?u p = fav_of s p" if "top_rated_orig s ! k = Some p" for p
    by (rule scored_fav [OF sc]) (use len that k in \<open>auto simp: slots_len_def\<close>)
  have h: "tf_holder ?u q k = tf_holder s q k" "tf_max ?u k = tf_max s k"
    using IH e inc by (cases "top_rated s ! k"; simp add: tf_holder_def tf_max_def)+
  have o: "tf_orig_holder fav ?u q k = tf_orig_holder fav s q k"
    unfolding tf_orig_holder_def IH(2-) e using fav by (cases "top_rated_orig s ! k") auto
  have tfu: "TF_switch ?u" using e tf by simp
  have step: "top_rated (score_step q fav k ?u) = (top_rated ?u)[k := tf_holder s q k] \<and>
    top_rated_orig (score_step q fav k ?u) = (top_rated_orig ?u)[k := tf_orig_holder fav s q k] \<and>
    max_hybrid (score_step q fav k ?u) = (max_hybrid ?u)[k := tf_max s k]"
    unfolding h [symmetric] o [symmetric] by (rule tf_step_slots [OF tfu]) (rule orig)
  have f: "fold (score_step q fav) [0..<Suc k] s = score_step q fav k ?u" by simp
  have sc2: "scored ?u (score_step q fav k ?u)" by (rule tf_step_scored)
  note e2 = scoredD(1,2) [OF sc2]
  have ob: "tf_orig_holder fav s q k = Some p \<Longrightarrow> p < length (entries s)" for p
    using len k q unfolding slots_len_def tf_orig_holder_def
    by (auto split: if_splits option.splits)
  have len': "slots_len (score_step q fav k ?u)"
    using IH(1) step ob e(1,2) e2 k unfolding slots_len_def by (auto simp: nth_list_update split: if_splits)
  show ?case
    unfolding f using len' step Suc IH(1) k e(1,2)
    by (auto simp: slots_len_def nth_list_update less_Suc_eq)
qed (use len in simp)

subsection \<open>Culling in hybrid-metric mode\<close>

lemma tf_grab_all:
  assumes len: "\<And>i p. i < k \<Longrightarrow> top_rated s ! i = Some p \<Longrightarrow> p < length (entries s)"
    and clean: "\<forall>p < length (entries s). \<not> favored (ent s p)"
    and zero: "queued_favored s = 0" "pending_favored s = 0"
  shows "counted s (fold tf_grab_step [0..<k] s) \<and>
    (\<forall>p < length (entries s). favored (ent (fold tf_grab_step [0..<k] s) p) \<longleftrightarrow>
       \<not> was_fuzzed (ent s p) \<and> (\<exists>i < k. top_rated s ! i = Some p))"
  using len
proof (induction k)
  case 0
  have "filter favored (entries s) = []" "filter (\<lambda>e. favored e \<and> \<not> was_fuzzed e) (entries s) = []"
    using clean by (auto simp: filter_empty_conv ent_def in_set_conv_nth)
  then show ?case
    using clean zero by (simp add: counted_def favored_count_def pending_count_def)
next
  case (Suc k)
  let ?u = "fold tf_grab_step [0..<k] s"
  have IH: "counted s ?u \<and> (\<forall>p < length (entries s). favored (ent ?u p) \<longleftrightarrow>
       \<not> was_fuzzed (ent s p) \<and> (\<exists>i < k. top_rated s ! i = Some p))"
    by (rule Suc.IH) (use Suc.prems less_SucI in blast)
  have c: "counted s ?u" and f: "\<And>p. p < length (entries s) \<Longrightarrow> favored (ent ?u p) \<longleftrightarrow>
       \<not> was_fuzzed (ent s p) \<and> (\<exists>i < k. top_rated s ! i = Some p)"
    using IH by simp_all
  have m: "map unfav (entries ?u) = map unfav (entries s)" using c by (simp add: counted_def)
  have len: "length (entries ?u) = length (entries s)" using m by (metis length_map)
  have wf: "was_fuzzed (ent ?u p) = was_fuzzed (ent s p)" if "p < length (entries s)" for p
  proof -
    have "unfav (ent ?u p) = unfav (ent s p)" using m len that unfolding ent_def by (metis nth_map)
    from arg_cong [OF this, of was_fuzzed] show ?thesis by (simp add: unfav_def)
  qed
  have top: "top_rated ?u = top_rated s"
  proof -
    have "?u = s\<lparr>entries := entries ?u, queued_favored := of_nat (favored_count ?u),
            pending_favored := of_nat (pending_count ?u)\<rparr>" using c by (simp add: counted_def)
    from arg_cong [OF this, of top_rated] show ?thesis by simp
  qed
  have st: "fold tf_grab_step [0..<Suc k] s = tf_grab_step k ?u" by simp
  show ?case
  proof (cases "top_rated s ! k")
    case None
    have e1: "tf_grab_step k ?u = ?u" using None top by (simp add: tf_grab_step_def)
    have e2: "(\<exists>i < Suc k. top_rated s ! i = Some p) = (\<exists>i < k. top_rated s ! i = Some p)" for p
      using None by (auto simp: less_Suc_eq)
    show ?thesis unfolding st e1 e2 using c f by blast
  next
    case (Some p)
    then have p: "p < length (entries s)" using Suc.prems by blast
    show ?thesis
    proof (cases "was_fuzzed (ent s p) \<or> favored (ent ?u p)")
      case True
      have "upd p (favored_update (\<lambda>_. True)) ?u = ?u" if "favored (ent ?u p)"
      proof -
        have "(entries ?u ! p)\<lparr>favored := True\<rparr> = entries ?u ! p"
          using that by (cases "entries ?u ! p") (simp add: ent_def)
        then show ?thesis by (simp add: upd_def)
      qed
      then have "tf_grab_step k ?u = ?u"
        using True Some top wf [OF p] by (auto simp: tf_grab_step_def Let_def)
      then show ?thesis
        unfolding st using c f True Some p by (auto simp: less_Suc_eq)
    next
      case False
      then have "tf_grab_step k ?u = favor_one p ?u"
        using Some top wf [OF p] p len by (simp add: tf_grab_step_def Let_def favor_one_def ent_upd)
      moreover have "counted s (favor_one p ?u)"
        by (rule favor_one_counted [OF c]) (use p len False in simp_all)
      moreover have "favored (ent (favor_one p ?u) r) \<longleftrightarrow> r = p \<or> favored (ent ?u r)"
        if "r < length (entries s)" for r
        using that len by (simp add: ent_upd favor_one_def)
      ultimately show ?thesis
        unfolding st using f False Some by (auto simp: less_Suc_eq)
    qed
  qed
qed

subsection \<open>What the fuzzer does to the queue, step by step\<close>

text \<open>
  The steps through which the queue state changes between start-up and the end: a run of the
  target fills the maps, a test case is added, its calibration records its speed and then scores
  it, the queue is culled, an entry is fuzzed, and the main loop falls back to the original rating
  when nothing new came up for a whole cycle.
\<close>

inductive queue_step :: "env \<Rightarrow> 'a queue_st_scheme \<Rightarrow> 'a queue_st_scheme \<Rightarrow> bool" for E where
  step_run: "length tb = length (trace_bits s) \<Longrightarrow> length hb = length (hybrid_bits s) \<Longrightarrow>
     queue_step E s (s\<lparr>trace_bits := tb, hybrid_bits := hb\<rparr>)"
| step_add: "add_to_queue E fn ln det s = Inr t \<Longrightarrow> queue_step E s t"
| step_tag: "p < length (entries s) \<Longrightarrow> queue_step E s (upd p (has_new_incorrect_update (\<lambda>_. True)) s)"
| step_time: "p < length (entries s) \<Longrightarrow> queue_step E s (upd p (exec_us_update (\<lambda>_. us)) s)"
| step_score: "p < length (entries s) \<Longrightarrow> queue_step E s (update_bitmap_score p s)"
| step_cull: "cull_queue E s = Inr t \<Longrightarrow> queue_step E s t"
| step_fuzzed: "p < length (entries s) \<Longrightarrow> queue_step E s (upd p (was_fuzzed_update (\<lambda>_. True)) s)"
| step_null: "TF_switch s \<Longrightarrow> queue_step E s (s\<lparr>TF_top_null := True\<rparr>)"

inductive_cases queue_stepE: "queue_step E s t"

text \<open>Without the hybrid switch no slot is ever taken and no entry is ever favored.\<close>

definition unrated_state :: "'a queue_st_scheme \<Rightarrow> bool" where
  "unrated_state s \<longleftrightarrow> \<not> TF_switch s \<and> \<not> score_changed s \<and> queued_favored s = 0 \<and>
     length (top_rated s) = length (trace_bits s) \<and>
     (\<forall>i < length (trace_bits s). top_rated s ! i = None) \<and> (\<forall>e \<in> set (entries s). \<not> favored e)"

lemma score_off:
  assumes "\<not> TF_switch s" and "\<forall>i < length (trace_bits s). top_rated s ! i = None"
  shows "update_bitmap_score q s = s"
proof -
  have step: "score_step q fav i s = s" if "i < length (trace_bits s)" for i fav
    using assms that by (simp add: score_step_def tf_win_def tf_orig_def)
  have "fold (score_step q fav) xs s = s" if "set xs \<subseteq> {..<length (trace_bits s)}" for xs fav
    using that step by (induction xs) simp_all
  then show ?thesis by (simp add: update_bitmap_score_def lessThan_atLeast0)
qed

lemma set_upd: "set (entries (upd p f s)) \<subseteq> insert (f (entries s ! p)) (set (entries s))"
  unfolding upd_def by (simp add: set_update_subset_insert)

lemma unrated_upd_state:
  assumes "unrated_state s" and "\<And>e. favored (f e) = favored e"
  shows "unrated_state (upd p f s)"
proof (cases "p < length (entries s)")
  case True
  then show ?thesis
    using assms set_upd [of p f s] nth_mem [OF True] unfolding unrated_state_def by auto
next
  case False
  then have "upd p f s = s" by (simp add: upd_def list_update_beyond)
  then show ?thesis using assms by simp
qed

lemma unrated_state_frame [simp]:
  "unrated_state (s\<lparr>queue_top := a\<rparr>) = unrated_state s" "unrated_state (s\<lparr>q_prev100 := a\<rparr>) = unrated_state s"
  "unrated_state (s\<lparr>queue := a\<rparr>) = unrated_state s" "unrated_state (s\<lparr>queued_paths := c\<rparr>) = unrated_state s"
  "unrated_state (s\<lparr>pending_not_fuzzed := c\<rparr>) = unrated_state s"
  "unrated_state (s\<lparr>cycles_wo_finds := d\<rparr>) = unrated_state s"
  "unrated_state (s\<lparr>last_path_time := d\<rparr>) = unrated_state s"
  "unrated_state (s\<lparr>ticks := e\<rparr>) = unrated_state s" "unrated_state (raise_max_depth q s) = unrated_state s"
  by (simp_all add: unrated_state_def raise_max_depth_def)

lemma unrated_add:
  assumes "add_to_queue E fn ln det s = Inr t" and inv: "unrated_state s"
  shows "unrated_state t"
proof -
  have "favored (new_entry fn ln det d) = False" for d by (simp add: new_entry_def)
  then have app: "unrated_state (s\<lparr>entries := entries s @ [new_entry fn ln det (cur_depth s)]\<rparr>)"
    using inv by (auto simp: unrated_state_def)
  show ?thesis
    using assms(1) app unfolding add_to_queue_def Let_def get_cur_time_def
    by (auto simp: bnd_Inr_iff split: option.splits if_splits intro!: unrated_upd_state)
qed

lemma unrated_step:
  assumes "queue_step E s t" and inv: "unrated_state s"
  shows "unrated_state t"
  using assms(1)
proof cases
  case step_run
  then show ?thesis using inv by (simp add: unrated_state_def)
next
  case step_add
  then show ?thesis using unrated_add inv by blast
next
  case (step_score p)
  then show ?thesis using inv score_off [of s p] by (simp add: unrated_state_def)
next
  case step_cull
  then have "t = s" using inv by (auto simp: cull_queue_def cull_main_def cull_altern_def unrated_state_def)
  then show ?thesis using inv by simp
next
  case step_null
  then show ?thesis using inv by (simp add: unrated_state_def)
qed (simp_all add: unrated_upd_state [OF inv])

lemma update_bitmap_score_scored: "scored s (update_bitmap_score p s)"
  unfolding update_bitmap_score_def by (rule fold_scored) (rule tf_step_scored)

end
