(* ===== verification/Favorites.thy ===== *)
theory Favorites
  imports Favor
begin

section \<open>What scoring and culling guarantee, and where the hybrid rewrite breaks them\<close>

text \<open>
  The properties of theories Queue and Favor, with their witnesses: the queue stays a list, the
  original scoring keeps its reference counts and the original culling covers the map, the hybrid
  scoring slot by slot, the hybrid culling, and two defects of the hybrid rewrite (no favorites
  without the switch, a null dereference with it) on concrete runs of the steps of the fuzzer.
\<close>

subsection \<open>A small fuzzer to run\<close>

definition demo_start :: "bool \<Rightarrow> queue_st" where
  "demo_start tf = \<lparr>rand_cnt = 0, rng_seed = 0, rng_pos = 0, urandom_pos = 0, ticks = 0,
     fs = (\<lambda>_. None), out_dir = ''out'', trace_bits = replicate 8 0, hybrid_bits = replicate 8 0,
     max_hybrid = replicate 8 0, entries = [], queue = None, queue_top = None, q_prev100 = None,
     top_rated = replicate 8 None, top_rated_orig = replicate 8 None, score_changed = False,
     TF_top_null = False, TF_switch = tf, dumb_mode = 0, queued_paths = 0, pending_not_fuzzed = 0,
     queued_favored = 0, pending_favored = 0, cur_depth = 0, max_depth = 0, cycles_wo_finds = 0,
     last_path_time = 0\<rparr>"

text \<open>A find: the run leaves its maps, the input is queued, tagged, timed and scored.\<close>

definition demo_find :: "string \<Rightarrow> bool \<Rightarrow> bytes \<Rightarrow> u32 list \<Rightarrow> queue_st res \<Rightarrow> queue_st res" where
  "demo_find name inc tb hb r =
     bnd r (\<lambda>s. bnd (add_to_queue demo_env name 10 False (s\<lparr>trace_bits := tb, hybrid_bits := hb\<rparr>))
       (\<lambda>s. let p = length (entries s) - 1;
                s1 = (if inc then upd p (has_new_incorrect_update (\<lambda>_. True)) s else s)
            in Inr (update_bitmap_score p (upd p (exec_us_update (\<lambda>_. 5)) s1))))"

definition demo_three :: "queue_st res" where
  "demo_three =
     demo_find ''out/queue/b'' True [1, 0, 1, 0, 0, 0, 0, 0] [9, 0, 9, 0, 0, 0, 0, 0]
      (demo_find ''out/queue/a'' True [1, 1, 1, 0, 0, 0, 0, 0] [3, 0, 3, 0, 0, 0, 0, 0]
       (demo_find ''out/queue/s'' False [1, 0, 1, 0, 0, 0, 0, 0] [5, 0, 5, 0, 0, 0, 0, 0]
         (Inr (demo_start True))))"

lemma add_to_queue_shape:
  assumes "add_to_queue E fn ln det s = Inr t"
  shows "length (entries t) = Suc (length (entries s))" and "trace_bits t = trace_bits s"
    and "hybrid_bits t = hybrid_bits s" and "TF_switch t = TF_switch s"
proof -
  have "length (entries t) = Suc (length (entries s)) \<and> trace_bits t = trace_bits s \<and>
    hybrid_bits t = hybrid_bits s \<and> TF_switch t = TF_switch s"
    using assms unfolding add_to_queue_def Let_def get_cur_time_def raise_max_depth_def
    by (auto simp: bnd_Inr_iff upd_def split: option.splits if_splits)
  then show "length (entries t) = Suc (length (entries s))" "trace_bits t = trace_bits s"
    "hybrid_bits t = hybrid_bits s" "TF_switch t = TF_switch s" by blast+
qed

lemma demo_find_steps:
  assumes "demo_find name inc tb hb r = Inr t"
  obtains s where "r = Inr s" and "trace_bits t = tb" and "hybrid_bits t = hb" and "TF_switch t = TF_switch s"
    and "length tb = length (trace_bits s) \<Longrightarrow> length hb = length (hybrid_bits s) \<Longrightarrow>
         (queue_step demo_env)\<^sup>*\<^sup>* s t"
proof -
  obtain s u where r: "r = Inr s"
    and u: "add_to_queue demo_env name 10 False (s\<lparr>trace_bits := tb, hybrid_bits := hb\<rparr>) = Inr u"
    and t: "t = update_bitmap_score (length (entries u) - 1) (upd (length (entries u) - 1)
      (exec_us_update (\<lambda>_. 5)) (if inc then upd (length (entries u) - 1)
        (has_new_incorrect_update (\<lambda>_. True)) u else u))" (is "t = update_bitmap_score ?p ?v")
    using assms by (auto simp: demo_find_def bnd_Inr_iff Let_def)
  note sh = add_to_queue_shape [OF u]
  have p: "?p < length (entries u)" using sh(1) by simp
  have steps: "(queue_step demo_env)\<^sup>*\<^sup>* s t"
    if "length tb = length (trace_bits s)" "length hb = length (hybrid_bits s)"
  proof -
    note [trans] = rtranclp_trans
    let ?S = "(queue_step demo_env)\<^sup>*\<^sup>*"
    have "?S s (s\<lparr>trace_bits := tb, hybrid_bits := hb\<rparr>)"
      by (rule r_into_rtranclp, rule step_run) (use that in auto)
    also have "?S (s\<lparr>trace_bits := tb, hybrid_bits := hb\<rparr>) u"
      by (rule r_into_rtranclp, rule step_add [OF u])
    also have "?S u (if inc then upd ?p (has_new_incorrect_update (\<lambda>_. True)) u else u)"
      using step_tag [OF p, of demo_env] by auto
    also have "?S \<dots> ?v" by (rule r_into_rtranclp, rule step_time) (use p in simp)
    also have "?S ?v t" unfolding t by (rule r_into_rtranclp, rule step_score) (use p in simp)
    finally show ?thesis .
  qed
  have "scored ?v t" unfolding t by (rule update_bitmap_score_scored)
  from scoredD(2,3,4) [OF this] have "trace_bits t = tb" "hybrid_bits t = hb" "TF_switch t = TF_switch s"
    using sh by auto
  then show ?thesis using that r steps by blast
qed

subsection \<open>Properties of the queue and of the original scheme\<close>

text \<open>
  C18: \<open>add_to_queue\<close> keeps the queue a list: the \<open>next\<close> links run through all entries in the
  order they were added, \<open>queue\<close> and \<open>queue_top\<close> are its ends, the \<open>next_100\<close> links and
  \<open>q_prev100\<close> mark every hundredth entry, \<open>queued_paths\<close> is the number of entries; it never
  follows a null pointer, and every entry but for its links is as before, with the new one last.
\<close>

theorem add_to_queue_keeps_list:
  assumes "queue_wf s" and "Suc (length (entries s)) < 2 ^ 32"
  shows "\<exists>t. add_to_queue E fn ln det s = Inr t \<and> queue_wf t \<and>
    queue_top t = Some (length (entries s)) \<and>
    map no_links (entries t) = map no_links (entries s) @ [new_entry fn ln det (cur_depth s)]"
  by (rule add_to_queue_wf [OF assms]) blast

theorem add_to_queue_keeps_list_witness:
  "\<exists>t. add_to_queue demo_env ''q/a'' 3 False (demo_start False) = Inr t \<and> queue_wf t \<and>
     queue_top t = Some 0 \<and> map no_links (entries t) = [new_entry ''q/a'' 3 False 0]"
  using add_to_queue_keeps_list [of "demo_start False" demo_env "''q/a''" 3 False]
  by (simp add: demo_start_def queue_wf_def list_wf_def)

text \<open>
  C19: The original \<open>update_bitmap_score\<close> gives every hit slot to the new entry unless the holder
  is strictly faster for its size, leaves the other slots alone, and keeps the bookkeeping sound:
  the reference count of every entry is the number of slots it holds, and every holder keeps a
  compacted trace that covers its slots.
\<close>

theorem afl_scoring:
  assumes "rated_ok s" and "own_ok q s" and "q < length (entries s)"
  shows "rated_ok (afl_update_bitmap_score q s) \<and>
    (\<forall>i < length (trace_bits s). top_rated (afl_update_bitmap_score q s) ! i = afl_holder s q i)"
proof -
  have "top_rated (afl_update_bitmap_score q s) ! i = afl_holder s q i" if "i < length (trace_bits s)" for i
    unfolding afl_update_bitmap_score_def
    by (subst afl_fold_slots) (use assms that in \<open>auto simp: rated_ok_def\<close>)
  moreover have "rated_ok (afl_update_bitmap_score q s)"
    unfolding afl_update_bitmap_score_def
    using afl_fold_keeps [OF assms, of "[0..<length (trace_bits s)]"] by (simp add: lessThan_atLeast0)
  ultimately show ?thesis by blast
qed

text \<open>A state with one queued entry whose trace hits slots 0 and 2.\<close>

definition demo_one :: queue_st where
  "demo_one = (demo_start False)\<lparr>trace_bits := [1, 0, 4, 0, 0, 0, 0, 0],
     entries := [(new_entry ''out/queue/a'' 3 False 0)\<lparr>exec_us := 7\<rparr>], queue := Some 0,
     queue_top := Some 0, q_prev100 := Some 0, queued_paths := 1\<rparr>"

lemma demo_one_ok: "rated_ok demo_one" "own_ok 0 demo_one" "0 < length (entries demo_one)"
  "list_wf demo_one" "red_ok demo_env demo_one"
proof -
  show "rated_ok demo_one"
    by (auto simp: rated_ok_def demo_one_def demo_start_def slots_def ent_def new_entry_def)
  show "own_ok 0 demo_one" by (simp add: own_ok_def demo_one_def ent_def new_entry_def)
  show "red_ok demo_env demo_one"
    by (simp add: red_ok_def red_path_def demo_one_def demo_start_def demo_env_def ent_def
        new_entry_def after_last_def)
qed (simp_all add: demo_one_def demo_start_def list_wf_def ent_def new_entry_def)

theorem afl_scoring_witness:
  "rated_ok (afl_update_bitmap_score 0 demo_one) \<and>
   top_rated (afl_update_bitmap_score 0 demo_one) ! 2 = Some 0 \<and>
   top_rated (afl_update_bitmap_score 0 demo_one) ! 1 = None"
  using afl_scoring [OF demo_one_ok(1,2,3)]
  by (simp add: afl_holder_def demo_one_def demo_start_def)

text \<open>
  C20: The original \<open>cull_queue\<close>, with sound bookkeeping and marker files that agree with the
  flags, always returns; afterwards the favored entries cover every rated byte of the map, every
  favored entry is a top-rated one, \<open>queued_favored\<close> and \<open>pending_favored\<close> count them, and
  exactly the others are marked redundant.
\<close>

theorem afl_culling:
  assumes "rated_ok s" and "list_wf s" and "red_ok E s" and "dumb_mode s = 0" and "score_changed s"
  shows "\<exists>t. afl_cull_queue E s = Inr t \<and> culled (top_rated s) s t \<and> \<not> score_changed t"
proof -
  let ?s = "s\<lparr>score_changed := False\<rparr>"
  have wf: "list_wf ?s" using assms(2) by (simp add: list_wf_def)
  have red: "red_ok E ?s" using assms(3) by (simp add: red_ok_def red_path_def)
  have "holders_ok (top_rated s) ?s"
    using rated_ok_holders [OF assms(1)] by (simp add: holders_ok_def mini_has_def)
  from cull_pass [OF wf red this] obtain t where t:
    "bnd (grab_winners (top_rated s) (cleared ?s)) (walk_queue (note_redundant E)) = Inr t"
    "culled (top_rated s) ?s t" "score_changed t = score_changed ?s" by blast
  have "culled (top_rated s) s t" using t(2) by (simp add: culled_def mini_has_def)
  then show ?thesis
    using t assms(4,5) reset_favored_eq [OF wf]
    by (simp add: afl_cull_queue_def cleared_facts)
qed

theorem afl_culling_witness:
  "\<exists>t. afl_cull_queue demo_env (demo_one\<lparr>score_changed := True\<rparr>) = Inr t \<and> \<not> score_changed t"
proof -
  have "rated_ok (demo_one\<lparr>score_changed := True\<rparr>)" "list_wf (demo_one\<lparr>score_changed := True\<rparr>)"
    "red_ok demo_env (demo_one\<lparr>score_changed := True\<rparr>)"
    using demo_one_ok by (simp_all add: rated_ok_def list_wf_def red_ok_def red_path_def)
  then show ?thesis
    using afl_culling [of "demo_one\<lparr>score_changed := True\<rparr>" demo_env]
    by (auto simp: demo_one_def demo_start_def)
qed

subsection \<open>Properties of the hybrid scheme\<close>

text \<open>
  C21: With the hybrid switch on, \<open>update_bitmap_score\<close> acts slot by slot as follows: a free hit
  slot is taken; a held one is emptied when the metric only equals its maximum, taken when it
  exceeds it, and when it falls below it taken only by an entry tagged \<open>has_new_incorrect\<close>; the
  maximum of every hit slot is raised to the metric; and the original rating is kept beside it,
  except for the slots where the metric fell below the maximum.
\<close>

theorem tf_scoring:
  assumes "TF_switch s" and "slots_len s" and "q < length (entries s)" and "i < length (trace_bits s)"
  shows "top_rated (update_bitmap_score q s) ! i = tf_holder s q i \<and>
    top_rated_orig (update_bitmap_score q s) ! i = tf_orig_holder (fav_of s q) s q i \<and>
    max_hybrid (update_bitmap_score q s) ! i = tf_max s i"
  unfolding update_bitmap_score_def
  using tf_fold_slots [OF assms(1-3) order_refl, of "fav_of s q"] assms(4) by auto

theorem tf_scoring_witness:
  "top_rated (update_bitmap_score 0 (demo_one\<lparr>TF_switch := True, hybrid_bits := [0, 0, 6, 0, 0, 0, 0, 0]\<rparr>)) ! 2
     = Some 0 \<and>
   max_hybrid (update_bitmap_score 0 (demo_one\<lparr>TF_switch := True, hybrid_bits := [0, 0, 6, 0, 0, 0, 0, 0]\<rparr>)) ! 2 = 6"
  using tf_scoring [of "demo_one\<lparr>TF_switch := True, hybrid_bits := [0, 0, 6, 0, 0, 0, 0, 0]\<rparr>" 0 2]
  by (simp add: demo_one_def demo_start_def slots_len_def tf_holder_def tf_max_def)

text \<open>
  C22: With the hybrid switch on and scores changed, \<open>cull_queue\<close> favors exactly the entries that
  hold a slot of \<open>top_rated\<close> and were not fuzzed yet; it counts them, marks the others redundant
  and leaves the fall-back mode.
\<close>

theorem tf_culling:
  assumes "TF_switch s" and "score_changed s" and "dumb_mode s = 0" and "list_wf s" and "red_ok E s"
    and "\<forall>i < length (trace_bits s). \<forall>p. top_rated s ! i = Some p \<longrightarrow> p < length (entries s)"
  shows "\<exists>t. cull_queue E s = Inr t \<and> \<not> TF_top_null t \<and> \<not> score_changed t \<and>
    (\<forall>p < length (entries s). favored (ent t p) \<longleftrightarrow>
       \<not> was_fuzzed (ent s p) \<and> (\<exists>i < length (trace_bits s). top_rated s ! i = Some p)) \<and>
    (\<forall>p < length (entries s). fs_redundant (ent t p) \<longleftrightarrow> \<not> favored (ent t p)) \<and>
    queued_favored t = of_nat (favored_count t) \<and> pending_favored t = of_nat (pending_count t)"
proof -
  let ?s = "s\<lparr>TF_top_null := False, score_changed := False\<rparr>" let ?M = "length (trace_bits s)"
  have wf: "list_wf ?s" using assms(4) by (simp add: list_wf_def ent_def)
  have red: "red_ok E ?s" using assms(5) by (simp add: red_ok_def red_path_def ent_def)
  define u where "u = cleared ?s"
  define v where "v = fold tf_grab_step [0..<?M] u"
  have lu: "length (entries u) = length (entries s)" by (simp add: u_def cleared_facts)
  have g: "counted u v \<and>
    (\<forall>p < length (entries s). favored (ent v p) \<longleftrightarrow>
       \<not> was_fuzzed (ent u p) \<and> (\<exists>i < ?M. top_rated u ! i = Some p))"
    unfolding v_def lu [symmetric] by (rule tf_grab_all) (use assms(6) cleared_clean [of ?s] in \<open>simp_all add: u_def cleared_facts\<close>)
  have e: "was_fuzzed (ent u p) = was_fuzzed (ent s p)" if "p < length (entries s)" for p
    using cleared_facts(1) [of p ?s] that unfolding u_def by (simp add: unfav_def ent_def)
  have fav: "favored (ent v p) \<longleftrightarrow> \<not> was_fuzzed (ent s p) \<and> (\<exists>i < ?M. top_rated s ! i = Some p)"
    if "p < length (entries s)" for p
    using g that e [OF that] by (simp add: u_def cleared_facts)
  have wc: "list_wf u" "red_ok E u" using wf red by (simp_all only: u_def cleared_ok)
  obtain t f where t: "walk_queue (note_redundant E) v = Inr t"
    "t = v\<lparr>entries := map noted (entries v), fs := f\<rparr>"
    "length (entries t) = length (entries s)"
    "queued_favored t = of_nat (favored_count t)" "pending_favored t = of_nat (pending_count t)"
    "\<And>p. p < length (entries s) \<Longrightarrow> favored (ent t p) = favored (ent v p)"
    "\<And>p. p < length (entries s) \<Longrightarrow> fs_redundant (ent t p) = (\<not> favored (ent v p))"
    by (rule note_pass [OF conjunct1 [OF g] wc, unfolded lu]) blast
  have v_eq: "v = u\<lparr>entries := entries v, queued_favored := of_nat (favored_count v),
      pending_favored := of_nat (pending_count v)\<rparr>" using g by (simp only: counted_def)
  have flags: "\<not> TF_top_null t" "\<not> score_changed t"
    using arg_cong [OF v_eq, of TF_top_null] arg_cong [OF v_eq, of score_changed]
    unfolding t(2) by (simp_all add: u_def cleared_def)
  have tb: "trace_bits u = trace_bits s" "TF_switch u"
    using assms(1) by (simp_all add: u_def cleared_def)
  have n1: "(if TF_top_null s \<and> score_changed s then s\<lparr>TF_top_null := False\<rparr> else s)\<lparr>score_changed := False\<rparr> = ?s"
  proof (cases "TF_top_null s")
    case False
    then have f: "TF_top_null s = False" by simp
    have "s\<lparr>TF_top_null := False\<rparr> = s" unfolding f [symmetric] by simp
    then show ?thesis using False by simp
  qed (use assms(2) in simp)
  have "cull_main E s = Inr t"
    unfolding cull_main_def Let_def n1 reset_favored_eq [OF wf] bnd_simps u_def [symmetric] tb
    using assms(2,3) tb t(1) by (simp add: v_def)
  then have "cull_queue E s = Inr t" using flags by (simp add: cull_queue_def cull_altern_def)
  then show ?thesis using flags t(4-7) fav by simp
qed

theorem tf_culling_witness:
  "\<exists>t. cull_queue demo_env (demo_one\<lparr>TF_switch := True, score_changed := True,
      top_rated := [Some 0, None, None, None, None, None, None, None]\<rparr>) = Inr t \<and> favored (ent t 0)"
proof -
  let ?s = "demo_one\<lparr>TF_switch := True, score_changed := True,
      top_rated := [Some 0, None, None, None, None, None, None, None]\<rparr>"
  have "list_wf ?s" "red_ok demo_env ?s"
    using demo_one_ok by (simp_all add: list_wf_def red_ok_def red_path_def ent_def)
  moreover have "\<forall>i < length (trace_bits ?s). \<forall>p. top_rated ?s ! i = Some p \<longrightarrow> p < length (entries ?s)"
    by (auto simp: demo_one_def demo_start_def nth_Cons' split: if_splits)
  ultimately obtain t where "cull_queue demo_env ?s = Inr t"
    "\<forall>p < length (entries ?s). favored (ent t p) \<longleftrightarrow>
       \<not> was_fuzzed (ent ?s p) \<and> (\<exists>i < length (trace_bits ?s). top_rated ?s ! i = Some p)"
    using tf_culling [of ?s demo_env] by (auto simp: demo_one_def demo_start_def)
  then show ?thesis
    by (intro exI [of _ t]) (auto simp: demo_one_def demo_start_def ent_def new_entry_def intro!: exI [of _ 0])
qed



text \<open>
  C24: Without the hybrid switch the rewritten scoring never takes a slot: whatever the steps of the
  fuzzer, no entry is ever favored, \<open>top_rated\<close> stays empty and \<open>score_changed\<close> stays clear, so
  that the culling which the original scheme relies on never happens.
\<close>

theorem switch_off_favors_nothing:
  assumes "(queue_step E)\<^sup>*\<^sup>* s t" and "unrated_state s"
  shows "unrated_state t \<and> cull_queue E t = Inr t"
proof -
  have "unrated_state t"
    using assms by (induction rule: rtranclp_induct) (auto intro: unrated_step)
  then show ?thesis by (simp add: unrated_state_def cull_queue_def cull_main_def cull_altern_def)
qed

theorem switch_off_favors_nothing_witness:
  "unrated_state (update_bitmap_score 0 demo_one) \<and>
   cull_queue demo_env (update_bitmap_score 0 demo_one) = Inr (update_bitmap_score 0 demo_one)"
proof (rule switch_off_favors_nothing [of demo_env demo_one])
  show "(queue_step demo_env)\<^sup>*\<^sup>* demo_one (update_bitmap_score 0 demo_one)"
    by (rule r_into_rtranclp, rule step_score) (rule demo_one_ok)
  show "unrated_state demo_one"
    by (auto simp: unrated_state_def demo_one_def demo_start_def new_entry_def less_Suc_eq nth_Cons' split: nat.splits)
qed


end
