(* ===== verification/Mutate.thy ===== *)
theory Mutate
  imports Prelude
begin

unbundle bit_operations_syntax

section \<open>Mutation helpers: bit flips, redundancy tests, interesting values\<close>

text \<open>
  The pure helpers of the deterministic stages of \<open>src/afl/hybrid_metric/afl-fuzz.c\<close>:
  \<open>FLIP_BIT\<close>, \<open>could_be_bitflip\<close>, \<open>could_be_arith\<close>, \<open>could_be_interest\<close>, \<open>next_p2\<close>,
  \<open>locate_diffs\<close>, the effector-map macros and the tables of \<open>config.h\<close>.
\<close>

subsection \<open>Bit flips\<close>

text \<open>Bit \<open>b\<close> counts from the most significant bit of byte 0.\<close>

definition FLIP_BIT :: "bytes \<Rightarrow> nat \<Rightarrow> bytes" where
  "FLIP_BIT ar b = ar[b div 8 := (ar ! (b div 8)) XOR drop_bit (b mod 8) 128]"

subsection \<open>could_be_bitflip\<close>

text \<open>\<open>while (!(xor_val & 1)) { sh++; xor_val >>= 1; }\<close>, entered with a non-zero value.\<close>

function strip_zeros :: "u32 \<Rightarrow> nat \<Rightarrow> u32 \<times> nat" where
  "strip_zeros xor_val sh =
     (if xor_val = 0 \<or> xor_val AND 1 \<noteq> 0 then (xor_val, sh)
      else strip_zeros (drop_bit 1 xor_val) (Suc sh))"
  by pat_completeness auto
termination
proof (relation "measure (\<lambda>(x, _). unat x)")
  fix xor_val :: u32 and sh :: nat
  assume "\<not> (xor_val = 0 \<or> xor_val AND 1 \<noteq> 0)"
  then have "0 < unat xor_val" by (simp add: unat_gt_0)
  then show "((drop_bit 1 xor_val, Suc sh), (xor_val, sh)) \<in> measure (\<lambda>(x, _). unat x)"
    by (simp add: unat_drop_bit_eq drop_bit_eq_div unat_div_distrib)
qed simp

declare strip_zeros.simps [simp del]

definition could_be_bitflip :: "u32 \<Rightarrow> bool" where
  "could_be_bitflip xor_val =
     (if xor_val = 0 then True
      else
        (let (v, sh) = strip_zeros xor_val 0 in
         if v = 1 \<or> v = 3 \<or> v = 15 then True
         else if sh mod 8 \<noteq> 0 then False
         else if v = 0xff \<or> v = 0xffff \<or> v = 0xffffffff then True
         else False))"

subsection \<open>could_be_arith\<close>

definition ARITH_MAX :: nat where "ARITH_MAX = 35"

text \<open>
  The loop over the bytes (\<open>'a = 8\<close>) or words (\<open>'a = 16\<close>) of two values: how many differ, and
  the last differing pair.
\<close>

definition diff_units :: "'a::len itself \<Rightarrow> nat \<Rightarrow> u32 \<Rightarrow> u32 \<Rightarrow> nat \<times> 'a word \<times> 'a word" where
  "diff_units _ n old_val new_val =
     fold (\<lambda>i (diffs, ov, nv).
         let a = ucast (drop_bit (LENGTH('a) * i) old_val) :: 'a word;
             b = ucast (drop_bit (LENGTH('a) * i) new_val) :: 'a word
         in if a \<noteq> b then (Suc diffs, a, b) else (diffs, ov, nv))
       [0..<n] (0, 0, 0)"

definition near :: "'a::len word \<Rightarrow> 'a word \<Rightarrow> bool" where
  "near a b \<longleftrightarrow> a - b \<le> of_nat ARITH_MAX \<or> b - a \<le> of_nat ARITH_MAX"

definition could_be_arith :: "u32 \<Rightarrow> u32 \<Rightarrow> nat \<Rightarrow> bool" where
  "could_be_arith old_val new_val blen =
     (if old_val = new_val then True
      else
        (let (diffs, ov, nv) = diff_units TYPE(8) blen old_val new_val in
         if diffs = 1 \<and> near ov nv then True
         else if blen = 1 then False
         else
           (let (diffs, ov, nv) = diff_units TYPE(16) (blen div 2) old_val new_val in
            if diffs = 1 \<and> near ov nv then True
            else if diffs = 1 \<and> near (SWAP16 ov) (SWAP16 nv) then True
            else if blen = 4 then near old_val new_val \<or> near (SWAP32 new_val) (SWAP32 old_val)
            else False)))"

subsection \<open>Interesting values and could_be_interest\<close>

definition interesting_8 :: "u8 list" where
  "interesting_8 = [-128, -1, 0, 1, 16, 32, 64, 100, 127]"

definition interesting_16 :: "u16 list" where
  "interesting_16 = [-128, -1, 0, 1, 16, 32, 64, 100, 127,
     -32768, -129, 128, 255, 256, 512, 1000, 1024, 4096, 32767]"

definition interesting_32 :: "u32 list" where
  "interesting_32 = [-128, -1, 0, 1, 16, 32, 64, 100, 127,
     -32768, -129, 128, 255, 256, 512, 1000, 1024, 4096, 32767,
     -2147483648, -100663046, -32769, 32768, 65535, 65536, 100663045, 2147483647]"

definition could_be_interest :: "u32 \<Rightarrow> u32 \<Rightarrow> nat \<Rightarrow> bool \<Rightarrow> bool" where
  "could_be_interest old_val new_val blen check_le =
     (if old_val = new_val then True
      else if list_ex (\<lambda>i. list_ex (\<lambda>v.
                new_val = (old_val AND NOT (push_bit (i * 8) 0xff)) OR push_bit (i * 8) (ucast v))
              interesting_8) [0..<blen] then True
      else if blen = 2 \<and> \<not> check_le then False
      else if list_ex (\<lambda>i. list_ex (\<lambda>v.
                new_val = (old_val AND NOT (push_bit (i * 8) 0xffff)) OR push_bit (i * 8) (ucast v) \<or>
                (blen > 2 \<and>
                 new_val = (old_val AND NOT (push_bit (i * 8) 0xffff)) OR push_bit (i * 8) (ucast (SWAP16 v))))
              interesting_16) [0..<blen - 1] then True
      else blen = 4 \<and> check_le \<and> new_val \<in> set interesting_32)"

subsection \<open>Effector map\<close>

definition EFF_APOS :: "nat \<Rightarrow> nat" where "EFF_APOS p = p div 8"

definition EFF_ALEN :: "nat \<Rightarrow> nat" where
  "EFF_ALEN l = EFF_APOS l + (if l mod 8 \<noteq> 0 then 1 else 0)"

definition EFF_SPAN_ALEN :: "nat \<Rightarrow> nat \<Rightarrow> nat" where
  "EFF_SPAN_ALEN p l = EFF_APOS (p + l - 1) - EFF_APOS p + 1"

subsection \<open>next_p2\<close>

text \<open>\<open>ret\<close> wraps to 0 after 32 shifts, and then never grows: the loop may not end.\<close>

partial_function (option) next_p2_loop :: "u32 \<Rightarrow> u32 \<Rightarrow> u32 option" where
  "next_p2_loop val ret = (if val > ret then next_p2_loop val (push_bit 1 ret) else Some ret)"

definition next_p2 :: "u32 \<Rightarrow> u32 option" where
  "next_p2 val = next_p2_loop val 1"

subsection \<open>locate_diffs\<close>

text \<open>First and last differing offset, \<open>None\<close> for the \<open>-1\<close> of the code.\<close>

fun locate_loop :: "nat \<Rightarrow> bytes \<Rightarrow> bytes \<Rightarrow> nat option \<times> nat option \<Rightarrow> nat option \<times> nat option" where
  "locate_loop pos (a # ptr1) (b # ptr2) (f_loc, l_loc) =
     locate_loop (Suc pos) ptr1 ptr2
       (if a \<noteq> b then (case f_loc of None \<Rightarrow> Some pos | Some f \<Rightarrow> Some f, Some pos) else (f_loc, l_loc))"
| "locate_loop pos _ _ fl = fl"

definition locate_diffs :: "bytes \<Rightarrow> bytes \<Rightarrow> nat \<Rightarrow> nat option \<times> nat option" where
  "locate_diffs ptr1 ptr2 len = locate_loop 0 (take len ptr1) (take len ptr2) (None, None)"

subsection \<open>FLIP_BIT is its own inverse\<close>

lemma length_FLIP_BIT [simp, buf_simps]: "length (FLIP_BIT ar b) = length ar"
  by (simp add: FLIP_BIT_def)

lemma FLIP_BIT_twice [simp, buf_simps]: "FLIP_BIT (FLIP_BIT ar b) b = ar"
proof (cases "b div 8 < length ar")
  case True
  have "(x XOR y) XOR y = x" for x y :: u8 by (simp add: xor.assoc)
  then show ?thesis using True by (simp add: FLIP_BIT_def)
qed (simp add: FLIP_BIT_def list_update_beyond)

lemma FLIP_BIT_commute: "FLIP_BIT (FLIP_BIT ar b) c = FLIP_BIT (FLIP_BIT ar c) b"
proof (cases "b div 8 = c div 8")
  case True
  then show ?thesis
    by (cases "c div 8 < length ar")
      (simp_all add: FLIP_BIT_def list_update_beyond xor.assoc xor.commute xor.left_commute)
next
  case False
  then show ?thesis by (simp add: FLIP_BIT_def list_update_swap)
qed

subsection \<open>What could_be_bitflip accepts\<close>

lemma u32_odd: "(x :: u32) AND 1 \<noteq> 0 \<longleftrightarrow> bit x 0"
  by (simp add: and_one_eq odd_iff_mod_2_eq_one bit_0 mod2_eq_if)

lemma push_drop_even: "\<not> bit (x :: u32) 0 \<Longrightarrow> push_bit 1 (drop_bit 1 x) = x"
proof (rule bit_eqI)
  fix n assume x: "\<not> bit x 0" and n: "possible_bit TYPE(32 word) n"
  have "bit (push_bit 1 (drop_bit 1 x)) n \<longleftrightarrow> 1 \<le> n \<and> bit x (1 + (n - 1))"
    using n by (simp only: bit_push_bit_iff bit_drop_bit_eq) (simp add: bit_drop_bit_eq)
  then show "bit (push_bit 1 (drop_bit 1 x)) n = bit x n" using x by (cases n) simp_all
qed

lemma strip_zeros_spec:
  "x \<noteq> 0 \<Longrightarrow> \<exists>k. strip_zeros x sh = (drop_bit k x, sh + k) \<and> bit x k \<and> (\<forall>j < k. \<not> bit x j)"
proof (induction x sh rule: strip_zeros.induct)
  case (1 x sh)
  show ?case
  proof (cases "bit x 0")
    case True
    then have "strip_zeros x sh = (drop_bit 0 x, sh + 0)" by (subst strip_zeros.simps) (simp add: u32_odd)
    then show ?thesis using True by (metis not_less0)
  next
    case False
    then have s: "strip_zeros x sh = strip_zeros (drop_bit 1 x) (Suc sh)"
      using "1.prems" u32_odd [of x] by (subst strip_zeros.simps) simp
    have "drop_bit 1 x \<noteq> 0" using push_drop_even [OF False] "1.prems" by auto
    then obtain k where k: "strip_zeros (drop_bit 1 x) (Suc sh) = (drop_bit k (drop_bit 1 x), Suc sh + k)"
      "bit (drop_bit 1 x) k" "\<forall>j < k. \<not> bit (drop_bit 1 x) j"
      using "1.IH" "1.prems" False u32_odd [of x] by blast
    have "\<forall>j < Suc k. \<not> bit x j"
    proof (intro allI impI)
      fix j assume "j < Suc k"
      then show "\<not> bit x j" using k(3) False by (cases j) (simp_all add: bit_drop_bit_eq)
    qed
    moreover have "drop_bit k (drop_bit 1 x) = drop_bit (Suc k) x" "bit x (Suc k)"
      using k(2) by (simp_all add: bit_drop_bit_eq)
    ultimately show ?thesis using s k(1) by (metis add_Suc_shift)
  qed
qed

text \<open>A run of \<open>n\<close> set bits from bit \<open>k\<close> upwards, and nothing else.\<close>

definition bit_run :: "nat \<Rightarrow> nat \<Rightarrow> u32 \<Rightarrow> bool" where
  "bit_run k n x \<longleftrightarrow> k + n \<le> 32 \<and> (\<forall>j < 32. bit x j \<longleftrightarrow> k \<le> j \<and> j < k + n)"

lemma drop_bit_mask_iff:
  assumes "bit x k" and "\<forall>j < k. \<not> bit x j" and "0 < n" and "n \<le> 32"
  shows "drop_bit k x = (mask n :: u32) \<longleftrightarrow> bit_run k n x"
proof -
  have k: "k < 32" using assms(1) bit_imp_le_length [of x k] by simp
  show ?thesis
  proof
    assume e: "drop_bit k x = mask n"
    have b: "bit x (k + j) \<longleftrightarrow> j < n" if "j < 32" for j
      using arg_cong [OF e, of "\<lambda>w. bit w j"] that by (simp add: bit_drop_bit_eq bit_mask_iff)
    have "bit x (k + (n - 1))" using b [of "n - 1"] assms(3,4) by simp
    then have "k + (n - 1) < 32" using bit_imp_le_length [of x] by fastforce
    moreover have "bit x j \<longleftrightarrow> k \<le> j \<and> j < k + n" if "j < 32" for j
      using b [of "j - k"] assms(2) that by (cases "k \<le> j") auto
    ultimately show "bit_run k n x" using assms(3) unfolding bit_run_def by auto
  next
    assume r: "bit_run k n x"
    show "drop_bit k x = mask n"
    proof (rule bit_eqI)
      fix j assume "possible_bit TYPE(32 word) j"
      then have "j < 32" by simp
      then show "bit (drop_bit k x) j = bit (mask n :: u32) j"
        using r bit_imp_le_length [of x "k + j"]
        by (auto simp: bit_run_def bit_drop_bit_eq bit_mask_iff)
    qed
  qed
qed

lemma run_start:
  "bit_run k n x \<Longrightarrow> 0 < n \<Longrightarrow> bit x k \<and> (\<forall>j < k. \<not> bit x j)"
  by (auto simp: bit_run_def dest: bit_imp_le_length)

lemma could_be_bitflip_iff:
  "could_be_bitflip x \<longleftrightarrow> x = 0 \<or>
     (\<exists>k n. bit_run k n x \<and> (n \<in> {1, 2, 4} \<or> (n \<in> {8, 16, 32} \<and> k mod 8 = 0)))"
proof (cases "x = 0")
  case False
  obtain k where k: "strip_zeros x 0 = (drop_bit k x, 0 + k)" "bit x k" "\<forall>j < k. \<not> bit x j"
    using strip_zeros_spec [OF False] by blast
  have m: "drop_bit k x = (mask n :: u32) \<longleftrightarrow> bit_run k n x" if "0 < n" "n \<le> 32" for n
    by (rule drop_bit_mask_iff [OF k(2,3) that])
  have lit: "(1 :: u32) = mask 1" "(3 :: u32) = mask 2" "(15 :: u32) = mask 4" "(0xff :: u32) = mask 8"
    "(0xffff :: u32) = mask 16" "(0xffffffff :: u32) = mask 32"
    by (simp_all add: mask_eq_exp_minus_1)
  have "could_be_bitflip x \<longleftrightarrow>
      (bit_run k 1 x \<or> bit_run k 2 x \<or> bit_run k 4 x) \<or>
      (k mod 8 = 0 \<and> (bit_run k 8 x \<or> bit_run k 16 x \<or> bit_run k 32 x))"
    unfolding could_be_bitflip_def k(1) Let_def lit
    using False m [of 1] m [of 2] m [of 4] m [of 8] m [of 16] m [of 32]
    by simp
  moreover have "k' = k" if "bit_run k' n x" "0 < n" for k' n
    using run_start [OF that] k(2,3) by (meson linorder_neqE_nat)
  ultimately have "could_be_bitflip x \<longleftrightarrow>
     (\<exists>k n. bit_run k n x \<and> (n \<in> {1, 2, 4} \<or> (n \<in> {8, 16, 32} \<and> k mod 8 = 0)))"
    by (metis insertE insertI1 insertI2 singletonD zero_less_numeral zero_less_one)
  then show ?thesis using False by simp
qed (simp add: could_be_bitflip_def)

text \<open>Flipping \<open>n\<close> consecutive bits of the stream, as the walking-bit stages do.\<close>

definition flip_bits :: "nat \<Rightarrow> nat \<Rightarrow> bytes \<Rightarrow> bytes" where
  "flip_bits k n buf = fold (\<lambda>j b. FLIP_BIT b j) [k..<k + n] buf"

lemma ld_le_xor_same:
  "ld_le [a, b] XOR ld_le [a XOR m, b XOR n] = (ld_le [m, n] :: u16)"
  by (rule bit_eqI) (auto simp: bit_xor_iff bit_ld_le nth_Cons' simp del: ld_le.simps)

subsection \<open>next_p2\<close>

lemma u32_power: "k < 32 \<Longrightarrow> unat (2 ^ k :: u32) = 2 ^ k"
proof -
  assume "k < 32"
  then have "(2 :: nat) ^ k < 2 ^ 32" by (rule power_strict_increasing) simp
  then have "unat (of_nat (2 ^ k) :: u32) = 2 ^ k" by (simp add: unat_of_nat del: of_nat_power)
  then show ?thesis by simp
qed

lemma next_p2_loop_eq:
  assumes "k \<le> 31" and "unat val \<le> 2 ^ 31"
  shows "\<exists>m \<ge> k. m \<le> 31 \<and> next_p2_loop val (2 ^ k) = Some (2 ^ m) \<and> unat val \<le> 2 ^ m \<and>
    (m = k \<or> 2 ^ (m - 1) < unat val)"
  using assms(1)
proof (induction "31 - k" arbitrary: k)
  case 0
  then have k: "k = 31" by simp
  have "unat (2 ^ 31 :: u32) = 2 ^ 31" by simp
  then have "\<not> val > 2 ^ 31" using assms(2) by (simp add: word_less_nat_alt)
  then have "next_p2_loop val (2 ^ 31) = Some (2 ^ 31)" by (subst next_p2_loop.simps) simp
  then show ?case using k assms(2) by auto
next
  case (Suc d)
  then have k: "k < 31" by simp
  have u: "unat (2 ^ k :: u32) = 2 ^ k" using k by (simp add: u32_power)
  show ?case
  proof (cases "val > 2 ^ k")
    case True
    have sh: "push_bit 1 (2 ^ k :: u32) = 2 ^ Suc k" by (simp add: push_bit_eq_mult)
    obtain m where m: "m \<ge> Suc k" "m \<le> 31" "next_p2_loop val (2 ^ Suc k) = Some (2 ^ m)"
      "unat val \<le> 2 ^ m" "m = Suc k \<or> 2 ^ (m - 1) < unat val"
    proof -
      have "d = 31 - Suc k" using Suc.hyps(2) by linarith
      from Suc.hyps(1) [OF this] k that show thesis by auto
    qed
    have "next_p2_loop val (2 ^ k) = Some (2 ^ m)"
      using True m(3) sh by (subst next_p2_loop.simps) (simp add: mult.commute)
    moreover have "2 ^ (m - 1) < unat val"
      using m(5) True u by (auto simp: word_less_nat_alt)
    ultimately show ?thesis using m by (intro exI [of _ m]) auto
  next
    case False
    then have "next_p2_loop val (2 ^ k) = Some (2 ^ k)" by (subst next_p2_loop.simps) simp
    moreover have "unat val \<le> 2 ^ k" using False u by (simp add: word_less_nat_alt)
    ultimately show ?thesis using k by (intro exI [of _ k]) auto
  qed
qed

text \<open>
  Past \<open>2^31\<close> the counter wraps to 0 and the loop never ends: no step of the iteration answers.
\<close>

lemma shift_power: "(r :: u32) = 0 \<or> (\<exists>k \<le> 31. r = 2 ^ k) \<Longrightarrow> push_bit 1 r = 0 \<or> (\<exists>k \<le> 31. push_bit 1 r = 2 ^ k)"
proof -
  assume "r = 0 \<or> (\<exists>k \<le> 31. r = 2 ^ k)"
  then consider "r = 0" | k where "k < 31" "r = 2 ^ k" | "r = 2 ^ 31"
    by (metis le_neq_implies_less)
  then show ?thesis
  proof cases
    case (2 k)
    then have "push_bit 1 r = 2 ^ Suc k" by (simp add: push_bit_eq_mult)
    then show ?thesis using 2 by (metis Suc_leI)
  qed (simp_all add: push_bit_eq_mult)
qed

definition power_or_0 :: "u32 \<Rightarrow> bool" where
  "power_or_0 r \<longleftrightarrow> r = 0 \<or> (\<exists>k \<le> 31. r = 2 ^ k)"

lemma next_p2_result:
  assumes "next_p2_loop val r = Some x"
  shows "power_or_0 r \<longrightarrow> val \<le> x \<and> power_or_0 x"
proof (rule next_p2_loop.raw_induct [where P = "\<lambda>val r x. power_or_0 r \<longrightarrow> val \<le> x \<and> power_or_0 x", OF _ assms])
  fix f val r x
  assume IH: "\<And>v r y. f v r = Some y \<Longrightarrow> power_or_0 r \<longrightarrow> v \<le> y \<and> power_or_0 y"
    and e: "(if r < val then f val (push_bit 1 r) else Some r) = Some x"
  show "power_or_0 r \<longrightarrow> val \<le> x \<and> power_or_0 x"
  proof (cases "r < val")
    case True
    then show ?thesis using IH [of val "push_bit 1 r" x] e shift_power [of r] unfolding power_or_0_def by argo
  next
    case False
    then show ?thesis using e by auto
  qed
qed

lemma next_p2_diverges: "2 ^ 31 < unat val \<Longrightarrow> next_p2 val = None"
proof (rule ccontr)
  assume v: "2 ^ 31 < unat val" and "next_p2 val \<noteq> None"
  then obtain x where "next_p2_loop val 1 = Some x" by (auto simp: next_p2_def)
  moreover have "power_or_0 1" unfolding power_or_0_def by (metis power_0 zero_le)
  ultimately have x: "val \<le> x" "x = 0 \<or> (\<exists>k \<le> 31. x = 2 ^ k)"
    using next_p2_result [of val 1 x] by (simp_all add: power_or_0_def)
  have "unat x \<le> 2 ^ 31"
  proof (cases "x = 0")
    case False
    then obtain k where "k \<le> 31" "x = 2 ^ k" using x(2) by blast
    then show ?thesis using power_increasing [of k 31 "2 :: nat"] by (simp add: u32_power)
  qed simp
  then show False using v x(1) by (simp add: word_le_nat_alt)
qed

subsection \<open>locate_diffs\<close>

lemma locate_loop_spec:
  assumes "length a = length b"
  shows "locate_loop pos a b fl =
    (let ds = filter (\<lambda>k. a ! k \<noteq> b ! k) [0..<length a] in
     if ds = [] then fl
     else (case fst fl of None \<Rightarrow> Some (pos + hd ds) | Some f \<Rightarrow> Some f, Some (pos + last ds)))"
  using assms
proof (induction a b arbitrary: pos fl rule: list_induct2)
  case Nil
  then show ?case by simp
next
  case (Cons x xs y ys)
  let ?ds = "filter (\<lambda>k. xs ! k \<noteq> ys ! k) [0..<length xs]"
  have u: "[0..<length (x # xs)] = 0 # map Suc [0..<length xs]"
    by (simp add: map_Suc_upt upt_conv_Cons del: upt_Suc)
  have ds: "filter (\<lambda>k. (x # xs) ! k \<noteq> (y # ys) ! k) [0..<length (x # xs)] =
      (if x \<noteq> y then 0 # map Suc ?ds else map Suc ?ds)"
    unfolding u by (simp add: filter_map o_def)
  obtain f l where fl: "fl = (f, l)" by (cases fl)
  show ?case
    unfolding ds fl using Cons.IH
    by (cases "?ds = []"; cases f) (auto simp: Let_def hd_map last_map)
qed

subsection \<open>What could_be_arith accepts\<close>

abbreviation unit_at :: "nat \<Rightarrow> u32 \<Rightarrow> 'a::len word" where
  "unit_at k v \<equiv> ucast (drop_bit (LENGTH('a) * k) v)"

lemma diff_units_filter:
  fixes old_val new_val :: u32
  defines "differ \<equiv> \<lambda>k. (unit_at k old_val :: 'a::len word) \<noteq> unit_at k new_val"
  shows "\<exists>a b. diff_units TYPE('a) n old_val new_val = (length (filter differ [0..<n]), a, b) \<and>
    (filter differ [0..<n] \<noteq> [] \<longrightarrow>
      a = unit_at (last (filter differ [0..<n])) old_val \<and> b = unit_at (last (filter differ [0..<n])) new_val)"
proof (induction n)
  case (Suc n)
  obtain a b where ab: "diff_units TYPE('a) n old_val new_val = (length (filter differ [0..<n]), a, b)"
    "filter differ [0..<n] \<noteq> [] \<longrightarrow>
      a = unit_at (last (filter differ [0..<n])) old_val \<and> b = unit_at (last (filter differ [0..<n])) new_val"
    using Suc by blast
  then have "diff_units TYPE('a) (Suc n) old_val new_val =
      (if differ n then (Suc (length (filter differ [0..<n])), unit_at n old_val, unit_at n new_val)
       else (length (filter differ [0..<n]), a, b))"
    by (simp add: diff_units_def differ_def Let_def)
  then show ?case using ab by auto
qed (simp add: diff_units_def)

text \<open>Exactly one unit differs, and it satisfies \<open>P\<close>.\<close>

definition one_unit :: "'a::len itself \<Rightarrow> ('a word \<Rightarrow> 'a word \<Rightarrow> bool) \<Rightarrow> nat \<Rightarrow> u32 \<Rightarrow> u32 \<Rightarrow> bool" where
  "one_unit _ P n old_val new_val \<longleftrightarrow>
     (\<exists>k < n. (unit_at k old_val :: 'a word) \<noteq> unit_at k new_val \<and>
        P (unit_at k old_val) (unit_at k new_val) \<and>
        (\<forall>j < n. j \<noteq> k \<longrightarrow> (unit_at j old_val :: 'a word) = unit_at j new_val))"

lemma filter_upt_single: "filter P [0..<n] = [k] \<longleftrightarrow> k < n \<and> P k \<and> (\<forall>j < n. j \<noteq> k \<longrightarrow> \<not> P j)"
proof
  assume f: "filter P [0..<n] = [k]"
  have "set (filter P [0..<n]) = {k}" unfolding f by simp
  then show "k < n \<and> P k \<and> (\<forall>j < n. j \<noteq> k \<longrightarrow> \<not> P j)" by auto
next
  assume k: "k < n \<and> P k \<and> (\<forall>j < n. j \<noteq> k \<longrightarrow> \<not> P j)"
  obtain m where n: "n = Suc (k + m)" using k less_imp_Suc_add by blast
  have "[0..<n] = [0..<k] @ k # [Suc k..<n]"
    unfolding n using upt_add_eq_append [of 0 k "Suc m"] upt_conv_Cons [of k "Suc (k + m)"] by simp
  moreover have "filter P [0..<k] = []" "filter P [Suc k..<n] = []"
    using k by (auto simp: filter_empty_conv)
  ultimately show "filter P [0..<n] = [k]" using k by simp
qed

lemma diff_units_one:
  "(case diff_units TYPE('a::len) n old_val new_val of (d, a, b) \<Rightarrow> d = 1 \<and> P a b) \<longleftrightarrow>
   one_unit TYPE('a) P n old_val new_val"
proof -
  let ?D = "\<lambda>k. (unit_at k old_val :: 'a word) \<noteq> unit_at k new_val"
  obtain a b where ab: "diff_units TYPE('a) n old_val new_val = (length (filter ?D [0..<n]), a, b)"
    "filter ?D [0..<n] \<noteq> [] \<longrightarrow>
      a = unit_at (last (filter ?D [0..<n])) old_val \<and> b = unit_at (last (filter ?D [0..<n])) new_val"
    using diff_units_filter [where 'a = 'a, of n old_val new_val] by blast
  have "length (filter ?D [0..<n]) = 1 \<longleftrightarrow> (\<exists>k. filter ?D [0..<n] = [k])"
    by (simp add: length_Suc_conv)
  then have "(length (filter ?D [0..<n]) = 1 \<and> P a b) \<longleftrightarrow>
      (\<exists>k. filter ?D [0..<n] = [k] \<and> P (unit_at k old_val) (unit_at k new_val))"
    using ab(2) by auto
  then show ?thesis
    unfolding ab(1) one_unit_def filter_upt_single split_conv by blast
qed

lemma could_be_arith_iff:
  "could_be_arith old_val new_val blen \<longleftrightarrow>
     old_val = new_val \<or>
     one_unit TYPE(8) near blen old_val new_val \<or>
     (blen \<noteq> 1 \<and>
       (one_unit TYPE(16) (\<lambda>a b. near a b \<or> near (SWAP16 a) (SWAP16 b)) (blen div 2) old_val new_val \<or>
        (blen = 4 \<and> (near old_val new_val \<or> near (SWAP32 new_val) (SWAP32 old_val)))))"
proof -
  have sp: "(let (d, a, b) = x in if d = (1 :: nat) \<and> P a b then True else Q) \<longleftrightarrow>
      (case x of (d, a, b) \<Rightarrow> d = 1 \<and> P a b) \<or> Q" for x and P :: "'b \<Rightarrow> 'c \<Rightarrow> bool" and Q
    by (cases x) auto
  have sp2: "(let (d, a, b) = x in if d = (1 :: nat) \<and> P a b then True else if d = 1 \<and> P' a b then True else Q) \<longleftrightarrow>
      (case x of (d, a, b) \<Rightarrow> d = 1 \<and> (P a b \<or> P' a b)) \<or> Q" for x and P P' :: "'b \<Rightarrow> 'c \<Rightarrow> bool" and Q
    by (cases x) auto
  show ?thesis
    unfolding could_be_arith_def sp sp2 diff_units_one by auto
qed

subsection \<open>Single bytes: the redundancy test is exact\<close>

lemma flip_bits_byte: "m + n \<le> 8 \<Longrightarrow> flip_bits m n [a] = [a XOR push_bit (8 - (m + n)) (mask n)]"
proof (induction n)
  case (Suc n)
  have f: "flip_bits m (Suc n) [a] = FLIP_BIT (flip_bits m n [a]) (m + n)" by (simp add: flip_bits_def)
  obtain d where d: "7 = m + n + d" using Suc.prems le_Suc_ex [of "m + n" 7] by auto
  then have e: "8 - (m + n) = Suc d" "8 - (m + Suc n) = d" by simp_all
  have b: "bit (drop_bit (m + n) (128 :: u8)) j \<longleftrightarrow> j = d" for j
  proof -
    have "(128 :: u8) = 2 ^ 7" by simp
    then show ?thesis using d by (simp only: bit_drop_bit_eq o_apply bit_exp_iff) auto
  qed
  have "push_bit (8 - (m + n)) (mask n) XOR drop_bit (m + n) (128 :: u8) =
      push_bit (8 - (m + Suc n)) (mask (Suc n))"
    unfolding e
  proof (rule bit_eqI)
    fix j assume "possible_bit TYPE(8 word) j"
    then have j: "j < 8" by simp
    have "((Suc d \<le> j \<and> j - Suc d < n) \<noteq> (j = d)) = (d \<le> j \<and> j - d < Suc n)" by linarith
    then show "bit (push_bit (Suc d) (mask n) XOR drop_bit (m + n) (128 :: u8)) j =
        bit (push_bit d (mask (Suc n)) :: u8) j"
      unfolding bit_xor_iff b bit_push_bit_iff bit_mask_iff using j by auto
  qed
  moreover have "(m + n) div 8 = 0" "(m + n) mod 8 = m + n" using Suc.prems by simp_all
  ultimately show ?case
    unfolding f using Suc by (simp add: FLIP_BIT_def xor.assoc)
qed (simp add: flip_bits_def)

lemma bit_run_byte:
  assumes "bit_run k n (ucast (r :: u8))" and "0 < n"
  shows "k + n \<le> 8 \<and> r = push_bit k (mask n)"
proof -
  have b: "bit r j \<longleftrightarrow> k \<le> j \<and> j < k + n" if "j < 8" for j
    using assms(1) that by (auto simp: bit_run_def bit_ucast_iff)
  have "bit (ucast r :: u32) (k + n - 1)" using assms by (auto simp: bit_run_def)
  then have "k + n - 1 < 8" using bit_imp_le_length [of r "k + n - 1"] by (auto simp: bit_ucast_iff)
  then have le: "k + n \<le> 8" using assms(2) by linarith
  have "r = push_bit k (mask n)"
  proof (rule bit_eqI)
    fix j assume "possible_bit TYPE(8 word) j"
    then have "j < 8" by simp
    then show "bit r j = bit (push_bit k (mask n) :: u8) j"
      using b [of j] by (auto simp: bit_push_bit_iff bit_mask_iff)
  qed
  then show ?thesis using le by blast
qed

lemma could_be_bitflip_byte:
  assumes "could_be_bitflip (ucast (r :: u8))"
  shows "r = 0 \<or> (\<exists>m n. n \<in> {1, 2, 4, 8} \<and> m + n \<le> 8 \<and> (\<forall>a. flip_bits m n [a] = [a XOR r]))"
proof (cases "r = 0")
  case False
  then obtain j where "bit r j" by (auto simp: bit_eq_iff)
  then have "bit (ucast r :: u32) j" using bit_imp_le_length [of r j] by (simp add: bit_ucast_iff)
  then have "(ucast r :: u32) \<noteq> 0" by auto
  then obtain k n where kn: "bit_run k n (ucast r)" "n \<in> {1, 2, 4, 8, 16, 32}"
    using assms by (auto simp: could_be_bitflip_iff)
  then have b: "k + n \<le> 8" "r = push_bit k (mask n)" using bit_run_byte [OF kn(1)] by auto
  then have "flip_bits (8 - (k + n)) n [a] = [a XOR r]" for a
    using flip_bits_byte [of "8 - (k + n)" n a] by simp
  moreover have "n \<in> {1, 2, 4, 8}" using kn(2) b(1) by auto
  ultimately show ?thesis using b(1) by (intro disjI2 exI [of _ "8 - (k + n)"] exI [of _ n]) simp
qed simp

subsection \<open>Flips in stream order\<close>

definition sbit :: "bytes \<Rightarrow> nat \<Rightarrow> bool" where
  "sbit buf k = bit (buf ! (k div 8)) (7 - k mod 8)"

lemma bit_128: "u < 8 \<Longrightarrow> v < 8 \<Longrightarrow> bit (drop_bit u (128 :: u8)) (7 - v) \<longleftrightarrow> u = v"
proof -
  assume "u < 8" "v < 8"
  moreover have "(128 :: u8) = 2 ^ 7" by simp
  ultimately show ?thesis by (simp only: bit_drop_bit_eq o_apply bit_exp_iff) auto
qed

lemma sbit_FLIP_BIT:
  assumes "j < 8 * length buf" and "k < 8 * length buf"
  shows "sbit (FLIP_BIT buf j) k \<longleftrightarrow> sbit buf k \<noteq> (k = j)"
proof (cases "k div 8 = j div 8")
  case True
  have l: "j div 8 < length buf" using assms by linarith
  have "bit (drop_bit (j mod 8) (128 :: u8)) (7 - k mod 8) \<longleftrightarrow> j mod 8 = k mod 8"
    by (rule bit_128) simp_all
  moreover have "k = j \<longleftrightarrow> j mod 8 = k mod 8" using True by (metis div_mod_decomp)
  moreover have "sbit (FLIP_BIT buf j) k \<longleftrightarrow>
      sbit buf k \<noteq> bit (drop_bit (j mod 8) (128 :: u8)) (7 - k mod 8)"
    unfolding sbit_def FLIP_BIT_def True nth_list_update_eq [OF l] bit_xor_iff by (rule refl)
  ultimately show ?thesis by (simp only:)
next
  case False
  then show ?thesis by (auto simp: sbit_def FLIP_BIT_def)
qed

lemma sbit_flip_bits:
  assumes "m + n \<le> 8 * length buf" and "k < 8 * length buf"
  shows "sbit (flip_bits m n buf) k \<longleftrightarrow> sbit buf k \<noteq> (m \<le> k \<and> k < m + n)"
  using assms(1)
proof (induction n)
  case (Suc n)
  have len: "length (flip_bits m n buf) = length buf" for n
    unfolding flip_bits_def by (induction n) simp_all
  have f: "flip_bits m (Suc n) buf = FLIP_BIT (flip_bits m n buf) (m + n)" by (simp add: flip_bits_def)
  show ?case
    unfolding f using Suc sbit_FLIP_BIT [of "m + n" "flip_bits m n buf" k] assms(2) len by auto
qed (simp add: flip_bits_def)

subsection \<open>Properties\<close>

text \<open>
  \<open>could_be_bitflip\<close> accepts exactly 0 and the values that are one run of set bits: of 1, 2 or
  4 bits anywhere, of 8, 16 or 32 bits at a multiple of 8. Its shift loop always ends. For a single
  byte the answer is right: an accepted difference is none, or that of some walking flip of 1, 2,
  4 or 8 bits of that byte.
\<close>

theorem could_be_bitflip_exact:
  "(could_be_bitflip x \<longleftrightarrow> x = 0 \<or>
     (\<exists>k n. bit_run k n x \<and> (n \<in> {1, 2, 4} \<or> (n \<in> {8, 16, 32} \<and> k mod 8 = 0)))) \<and>
   (could_be_bitflip (ucast (r :: u8)) \<longrightarrow>
     r = 0 \<or> (\<exists>m n. n \<in> {1, 2, 4, 8} \<and> m + n \<le> 8 \<and> (\<forall>a. flip_bits m n [a] = [a XOR r])))"
  by (intro conjI impI) (rule could_be_bitflip_iff, erule could_be_bitflip_byte)

theorem could_be_bitflip_exact_witness:
  "could_be_bitflip 0x30 \<and> (\<exists>m n. m + n \<le> 8 \<and> (\<forall>a. flip_bits m n [a] = [a XOR 0x30]))"
proof -
  have "could_be_bitflip 0x30" by (simp add: could_be_bitflip_def strip_zeros.simps)
  then show ?thesis using could_be_bitflip_exact [of "0x30" "0x30"] by auto
qed

text \<open>
  C40: For two bytes the answer is wrong: the difference 0x0180 of a little-endian word is accepted
  as a product of a bit flip, but no walking flip of 1, 2, 4, 8 or 16 bits of a two-byte buffer
  makes it, because the stages walk the bits of each byte from the most significant one.
\<close>

theorem could_be_bitflip_spurious:
  "could_be_bitflip 0x180 \<and>
   (\<forall>a b m n. m + n \<le> 16 \<longrightarrow> flip_bits m n [a, b] \<noteq> [a XOR 0x80, b XOR 0x01]) \<and>
   (\<forall>a b. ld_le [a XOR 0x80, b XOR 0x01] = (ld_le [a, b] XOR 0x180 :: u16))"
proof (intro conjI allI impI notI)
  show "could_be_bitflip 0x180" by (simp add: could_be_bitflip_def strip_zeros.simps)
  show "ld_le [a XOR 0x80, b XOR 0x01] = (ld_le [a, b] XOR 0x180 :: u16)" for a b
  proof -
    have "(ld_le [0x80, 0x01] :: u16) = 0x180" by simp
    then have "ld_le [a, b] XOR ld_le [a XOR 0x80, b XOR 0x01] = (0x180 :: u16)"
      using ld_le_xor_same [of a b "0x80" "0x01"] by simp
    then have "ld_le [a, b] XOR (ld_le [a, b] XOR ld_le [a XOR 0x80, b XOR 0x01]) = (ld_le [a, b] XOR 0x180 :: u16)"
      by (simp only:)
    then show ?thesis by (simp only: xor.assoc [symmetric] xor_self_eq xor.left_neutral)
  qed
  fix a b m n
  assume mn: "m + n \<le> 16" and e: "flip_bits m n [a, b] = [a XOR 0x80, b XOR 0x01]"
  have s: "sbit [a XOR 0x80, b XOR 0x01] k \<longleftrightarrow> sbit [a, b] k \<noteq> (m \<le> k \<and> k < m + n)" if "k < 16" for k
    using sbit_flip_bits [of m n "[a, b]" k] mn that e by simp
  have "m \<le> 0 \<and> 0 < m + n" using s [of 0] by (auto simp: sbit_def bit_xor_iff bit_numeral_rec)
  moreover have "m \<le> 15 \<and> 15 < m + n" using s [of 15] by (auto simp: sbit_def bit_xor_iff bit_numeral_rec)
  moreover have "\<not> (m \<le> 1 \<and> 1 < m + n)" using s [of 1] by (auto simp: sbit_def bit_xor_iff bit_numeral_rec)
  ultimately show False by simp
qed

theorem could_be_bitflip_spurious_witness:
  "could_be_bitflip 0x180 \<and> flip_bits 7 2 [0x12, 0x34] \<noteq> [0x12 XOR 0x80, 0x34 XOR 0x01]"
proof -
  note spurious = could_be_bitflip_spurious [THEN conjunct2, THEN conjunct1, rule_format]
  have "7 + 2 \<le> (16 :: nat)" by simp
  from spurious [OF this] show ?thesis using could_be_bitflip_spurious [THEN conjunct1] by blast
qed


text \<open>
  \<open>next_p2\<close> returns the least power of two that is at least its argument when that is at most
  2^31; above, its counter wraps to 0 and it never returns.
\<close>

theorem next_p2_spec:
  "(unat val \<le> 2 ^ 31 \<longrightarrow>
     (\<exists>m \<le> 31. next_p2 val = Some (2 ^ m) \<and> unat val \<le> 2 ^ m \<and> (m = 0 \<or> 2 ^ (m - 1) < unat val))) \<and>
   (2 ^ 31 < unat val \<longrightarrow> next_p2 val = None)"
  using next_p2_loop_eq [of 0 val] next_p2_diverges [of val] by (auto simp: next_p2_def)

theorem next_p2_spec_witness: "\<exists>m \<le> 31. next_p2 5 = Some (2 ^ m) \<and> 5 \<le> (2 :: nat) ^ m"
  using next_p2_spec [of 5] by auto

text \<open>
  \<open>locate_diffs\<close> finds the first and the last offset below \<open>len\<close> at which two buffers
  differ, and none when they agree there.
\<close>

theorem locate_diffs_spec:
  assumes "len \<le> length ptr1" and "len \<le> length ptr2"
  shows "locate_diffs ptr1 ptr2 len =
    (let ds = filter (\<lambda>k. ptr1 ! k \<noteq> ptr2 ! k) [0..<len] in
     if ds = [] then (None, None) else (Some (hd ds), Some (last ds)))"
proof -
  have "filter (\<lambda>k. take len ptr1 ! k \<noteq> take len ptr2 ! k) [0..<len] =
      filter (\<lambda>k. ptr1 ! k \<noteq> ptr2 ! k) [0..<len]"
    by (rule filter_cong) simp_all
  moreover have l: "length (take len ptr1) = length (take len ptr2)" "length (take len ptr1) = len"
    using assms by simp_all
  ultimately show ?thesis
    unfolding locate_diffs_def locate_loop_spec [OF l(1)] l(2) Let_def by (simp only:) simp
qed

theorem locate_diffs_spec_witness: "locate_diffs [1, 2, 3, 4] [1, 9, 3, 5] 4 = (Some 1, Some 3)"
  using locate_diffs_spec [of 4 "[1, 2, 3, 4]" "[1, 9, 3, 5]"] by (simp add: upt_rec)

end
