(* ===== verification/Hash.thy ===== *)
theory Hash
  imports Prelude
begin

unbundle bit_operations_syntax

section \<open>hash32: the checksum of a trace\<close>

text \<open>
  Both flavours of \<open>hash32\<close> of \<open>src/afl/hash.h\<close>. The 64-bit one is used by the model of the
  fuzzer. The loop reads whole 8-byte (4-byte) words; what is left over at the end is not hashed.
\<close>

definition HASH_CONST :: u32 where "HASH_CONST = 0xa5b35705"

definition ROL64 :: "u64 \<Rightarrow> nat \<Rightarrow> u64" where
  "ROL64 x r = push_bit r x OR drop_bit (64 - r) x"

definition ROL32 :: "u32 \<Rightarrow> nat \<Rightarrow> u32" where
  "ROL32 x r = push_bit r x OR drop_bit (32 - r) x"

definition hash64_round :: "u64 \<Rightarrow> u64 \<Rightarrow> u64" where
  "hash64_round h1 k =
     (let k1 = k * 0x87c37b91114253d5;
          k2 = ROL64 k1 31;
          k3 = k2 * 0x4cf5ad432745937f
      in ROL64 (h1 XOR k3) 27 * 5 + 0x52dce729)"

fun hash64_loop :: "nat \<Rightarrow> bytes \<Rightarrow> u64 \<Rightarrow> u64" where
  "hash64_loop 0 data h1 = h1"
| "hash64_loop (Suc len) data h1 = hash64_loop len (drop 8 data) (hash64_round h1 (ld64 data))"

definition hash64_final :: "u64 \<Rightarrow> u32" where
  "hash64_final h =
     (let h1 = h XOR drop_bit 33 h;
          h2 = h1 * 0xff51afd7ed558ccd;
          h3 = h2 XOR drop_bit 33 h2;
          h4 = h3 * 0xc4ceb9fe1a85ec53;
          h5 = h4 XOR drop_bit 33 h4
      in ucast h5)"

definition hash32 :: "bytes \<Rightarrow> u32 \<Rightarrow> u32 \<Rightarrow> u32" where
  "hash32 key len seed =
     hash64_final (hash64_loop (unat (drop_bit 3 len)) key (ucast (seed XOR len)))"

definition hash32_round :: "u32 \<Rightarrow> u32 \<Rightarrow> u32" where
  "hash32_round h1 k =
     (let k1 = k * 0xcc9e2d51;
          k2 = ROL32 k1 15;
          k3 = k2 * 0x1b873593
      in ROL32 (h1 XOR k3) 13 * 5 + 0xe6546b64)"

fun hash32_loop :: "nat \<Rightarrow> bytes \<Rightarrow> u32 \<Rightarrow> u32" where
  "hash32_loop 0 data h1 = h1"
| "hash32_loop (Suc len) data h1 = hash32_loop len (drop 4 data) (hash32_round h1 (ld32 data))"

definition hash32_final :: "u32 \<Rightarrow> u32" where
  "hash32_final h =
     (let h1 = h XOR drop_bit 16 h;
          h2 = h1 * 0x85ebca6b;
          h3 = h2 XOR drop_bit 13 h2;
          h4 = h3 * 0xc2b2ae35
      in h4 XOR drop_bit 16 h4)"

definition hash32_narrow :: "bytes \<Rightarrow> u32 \<Rightarrow> u32 \<Rightarrow> u32" where
  "hash32_narrow key len seed =
     hash32_final (hash32_loop (unat (drop_bit 2 len)) key (seed XOR len))"

subsection \<open>Each round is a bijection of the running state\<close>

text \<open>
  The rotation and the multiplication by 5 lose nothing, so two runs that differ before a round
  differ after it, and a change in one word of the key always changes the running state.
\<close>

lemma bit_ROL64: "0 < r \<Longrightarrow> r < 64 \<Longrightarrow> j < 64 \<Longrightarrow> bit (ROL64 x r) j \<longleftrightarrow> bit x ((j + (64 - r)) mod 64)"
proof -
  assume r: "0 < r" "r < 64" and j: "j < 64"
  show ?thesis
  proof (cases "r \<le> j")
    case True
    then obtain d where d: "j = r + d" using le_Suc_ex by blast
    have "(j + (64 - r)) mod 64 = d" using d r j by simp
    moreover have "\<not> bit x (64 - r + j)" using bit_imp_le_length [of x "64 - r + j"] r d by auto
    ultimately show ?thesis
      using j True d by (simp add: ROL64_def bit_or_iff bit_push_bit_iff bit_drop_bit_eq)
  next
    case False
    then have "(j + (64 - r)) mod 64 = 64 - r + j" using r by simp
    then show ?thesis
      using j False by (simp add: ROL64_def bit_or_iff bit_push_bit_iff bit_drop_bit_eq add.commute)
  qed
qed

lemma ROL64_inj: "0 < r \<Longrightarrow> r < 64 \<Longrightarrow> ROL64 x r = ROL64 y r \<longleftrightarrow> x = y"
proof
  assume r: "0 < r" "r < 64" and e: "ROL64 x r = ROL64 y r"
  show "x = y"
  proof (rule bit_eqI)
    fix n assume "possible_bit TYPE(64 word) n"
    then have n: "n < 64" by simp
    let ?j = "(n + r) mod 64"
    have "(?j + (64 - r)) mod 64 = (n + r + (64 - r)) mod 64" by (rule mod_add_left_eq)
    also have "\<dots> = n" using r n by simp
    finally have "(?j + (64 - r)) mod 64 = n" .
    then show "bit x n = bit y n"
      using bit_ROL64 [OF r, of ?j x] bit_ROL64 [OF r, of ?j y] e by simp
  qed
qed simp

lemma word_mult_odd_inj:
  fixes c :: "'a::len word"
  assumes "c * d = 1"
  shows "x * c = y * c \<longleftrightarrow> x = y"
proof
  assume "x * c = y * c"
  then have "(x * c) * d = (y * c) * d" by simp
  then show "x = y" using assms by (simp add: mult.assoc)
qed simp

lemma xor_left_inj: "(a XOR b = a XOR c) \<longleftrightarrow> b = (c :: 'a::len word)"
  by (metis xor.assoc xor_self_eq xor.left_neutral)

lemma xor_right_inj: "(b XOR a = c XOR a) \<longleftrightarrow> b = (c :: 'a::len word)"
  by (metis xor.commute xor_left_inj)

lemma hash64_round_state_inj: "hash64_round h k = hash64_round h' k \<longleftrightarrow> h = h'"
proof -
  have "x * 5 = y * 5 \<longleftrightarrow> x = y" for x y :: u64
    by (rule word_mult_odd_inj [of 5 "0xcccccccccccccccd"]) simp
  then show ?thesis by (simp add: hash64_round_def Let_def ROL64_inj xor_right_inj)
qed

lemma hash64_round_key_inj: "hash64_round h k = hash64_round h k' \<longleftrightarrow> k = k'"
proof -
  have m5: "x * 5 = y * 5 \<longleftrightarrow> x = y" for x y :: u64
    by (rule word_mult_odd_inj [of 5 "0xcccccccccccccccd"]) simp
  have m1: "x * 0x87c37b91114253d5 = y * 0x87c37b91114253d5 \<longleftrightarrow> x = y" for x y :: u64
    by (rule word_mult_odd_inj [of _ "0xa98409e882ce4d7d"]) simp
  have m2: "x * 0x4cf5ad432745937f = y * 0x4cf5ad432745937f \<longleftrightarrow> x = y" for x y :: u64
    by (rule word_mult_odd_inj [of _ "0xa81e14edd9de2c7f"]) simp
  show ?thesis by (simp add: hash64_round_def Let_def ROL64_inj xor_left_inj m5 m1 m2)
qed

lemma hash64_loop_state_inj: "hash64_loop n d h = hash64_loop n d h' \<longleftrightarrow> h = h'"
  by (induction n arbitrary: d h h') (simp_all add: hash64_round_state_inj)

text \<open>Keys that differ in exactly one of the hashed words leave different running states.\<close>

lemma hash64_loop_one_word:
  assumes "i < n" and "\<forall>j < n. j \<noteq> i \<longrightarrow> ld64 (drop (8 * j) d) = ld64 (drop (8 * j) d')"
    and "ld64 (drop (8 * i) d) \<noteq> ld64 (drop (8 * i) d')"
  shows "hash64_loop n d h \<noteq> hash64_loop n d' h"
  using assms
proof (induction n arbitrary: d d' h i)
  case (Suc n)
  have rest: "ld64 (drop (8 * j) (drop 8 x)) = ld64 (drop (8 * Suc j) x)" for j and x :: bytes
    by (simp add: add.commute)
  show ?case
  proof (cases i)
    case 0
    have same: "\<forall>j < n. ld64 (drop (8 * j) (drop 8 d)) = ld64 (drop (8 * j) (drop 8 d'))"
      using Suc.prems(2) 0 unfolding rest by auto
    have "hash64_loop n (drop 8 d) x = hash64_loop n (drop 8 d') x" for x
      using same
    proof (induction n arbitrary: x d d')
      case (Suc n)
      have "ld64 (drop 8 d) = ld64 (drop 8 d')" using Suc.prems [rule_format, of 0] by simp
      moreover have "\<forall>j < n. ld64 (drop (8 * j) (drop 8 (drop 8 d))) = ld64 (drop (8 * j) (drop 8 (drop 8 d')))"
        using Suc.prems by (metis Suc_mono rest)
      ultimately show ?case using Suc.IH [of "drop 8 d" "drop 8 d'"] by simp
    qed simp
    then show ?thesis
      using Suc.prems(3) 0 by (simp add: hash64_loop_state_inj hash64_round_key_inj)
  next
    case (Suc k)
    have "ld64 d = ld64 d'" using Suc.prems(2) [rule_format, of 0] Suc by simp
    moreover have "hash64_loop n (drop 8 d) x \<noteq> hash64_loop n (drop 8 d') x" for x
      by (rule Suc.IH [of k]) (use Suc.prems Suc in \<open>auto simp: rest simp del: drop_drop\<close>)
    ultimately show ?thesis by simp
  qed
qed simp

lemma hash64_loop_prefix:
  "take (8 * n) d = take (8 * n) d' \<Longrightarrow> hash64_loop n d h = hash64_loop n d' h"
proof (induction n arbitrary: d d' h)
  case (Suc n)
  have e1: "take 8 d = take 8 d'"
    using arg_cong [OF Suc.prems, of "take 8"] by (simp add: min_def)
  have e2: "take (8 * n) (drop 8 d) = take (8 * n) (drop 8 d')"
    using arg_cong [OF Suc.prems, of "drop 8"] by (simp add: drop_take)
  show ?case unfolding hash64_loop.simps e1 by (rule Suc.IH [OF e2])
qed simp

subsection \<open>Properties\<close>

text \<open>
  \<open>hash32\<close> hashes the whole 8-byte words of the key: keys that agree on them have the same
  hash whatever follows (the last \<open>len mod 8\<close> bytes never matter), and keys of the same length
  that differ in exactly one of these words still have different 64-bit states when the loop ends,
  before the final mixing drops half of the bits.
\<close>

theorem hash32_words:
  assumes "len = of_nat n" and "n < 2 ^ 32"
  shows "(take (8 * (n div 8)) key = take (8 * (n div 8)) key' \<longrightarrow> hash32 key len seed = hash32 key' len seed) \<and>
    ((\<exists>i < n div 8. ld64 (drop (8 * i) key) \<noteq> ld64 (drop (8 * i) key') \<and>
        (\<forall>j < n div 8. j \<noteq> i \<longrightarrow> ld64 (drop (8 * j) key) = ld64 (drop (8 * j) key'))) \<longrightarrow>
      hash64_loop (unat (drop_bit 3 len)) key (ucast (seed XOR len)) \<noteq>
      hash64_loop (unat (drop_bit 3 len)) key' (ucast (seed XOR len)))"
proof -
  have "unat len = n" using assms by (simp add: unat_of_nat)
  then have w: "unat (drop_bit 3 len) = n div 8" by (simp add: unat_drop_bit_eq drop_bit_eq_div unat_div_distrib)
  have "hash32 key len seed = hash32 key' len seed" if "take (8 * (n div 8)) key = take (8 * (n div 8)) key'"
    unfolding hash32_def w by (rule arg_cong [OF hash64_loop_prefix [OF that]])
  moreover have "hash64_loop (n div 8) key h \<noteq> hash64_loop (n div 8) key' h"
    if "\<exists>i < n div 8. ld64 (drop (8 * i) key) \<noteq> ld64 (drop (8 * i) key') \<and>
        (\<forall>j < n div 8. j \<noteq> i \<longrightarrow> ld64 (drop (8 * j) key) = ld64 (drop (8 * j) key'))" for h
    using that by (elim exE conjE) (rule hash64_loop_one_word)
  ultimately show ?thesis unfolding w by (intro conjI impI)
qed

theorem hash32_words_witness:
  "hash32 [1, 2, 3, 4, 5, 6, 7, 8, 9] 9 HASH_CONST = hash32 [1, 2, 3, 4, 5, 6, 7, 8, 77] 9 HASH_CONST"
  using hash32_words [of 9 9 "[1, 2, 3, 4, 5, 6, 7, 8, 9]" "[1, 2, 3, 4, 5, 6, 7, 8, 77]" HASH_CONST] by simp

end
