(* ===== verification/State.thy ===== *)
theory State
  imports Favor Hash
begin

section \<open>The globals of the fuzzer\<close>

text \<open>
  The global variables of \<open>src/afl/hybrid_metric/afl-fuzz.c\<close> that the modelled routines use,
  beyond those of the queue: the dictionaries, the maps and counters of the executions, the
  position inside the current stage. Each record extends the previous one. Signed 32-bit globals
  are \<open>32 word\<close>s read with \<open>sint\<close>; flags are \<open>bool\<close>. \<open>tried\<close> is no variable of the program:
  it is the history of the buffers handed to \<open>common_fuzz_stuff\<close>, kept so that the properties of
  the stages can speak of it. \<open>stage_name\<close>, which only the screen shows, is left out.
\<close>

type_synonym s32 = "32 word"

datatype fault = FAULT_NONE | FAULT_TMOUT | FAULT_CRASH | FAULT_ERROR | FAULT_NOINST | FAULT_NOBITS

datatype val_type = STAGE_VAL_NONE | STAGE_VAL_LE | STAGE_VAL_BE

text \<open>Indices into \<open>stage_finds\<close> and \<open>stage_cycles\<close>.\<close>

abbreviation STAGE_FLIP1 :: nat where "STAGE_FLIP1 \<equiv> 0"
abbreviation STAGE_FLIP2 :: nat where "STAGE_FLIP2 \<equiv> 1"
abbreviation STAGE_FLIP4 :: nat where "STAGE_FLIP4 \<equiv> 2"
abbreviation STAGE_FLIP8 :: nat where "STAGE_FLIP8 \<equiv> 3"
abbreviation STAGE_FLIP16 :: nat where "STAGE_FLIP16 \<equiv> 4"
abbreviation STAGE_FLIP32 :: nat where "STAGE_FLIP32 \<equiv> 5"
abbreviation STAGE_ARITH8 :: nat where "STAGE_ARITH8 \<equiv> 6"
abbreviation STAGE_ARITH16 :: nat where "STAGE_ARITH16 \<equiv> 7"
abbreviation STAGE_ARITH32 :: nat where "STAGE_ARITH32 \<equiv> 8"
abbreviation STAGE_INTEREST8 :: nat where "STAGE_INTEREST8 \<equiv> 9"
abbreviation STAGE_INTEREST16 :: nat where "STAGE_INTEREST16 \<equiv> 10"
abbreviation STAGE_INTEREST32 :: nat where "STAGE_INTEREST32 \<equiv> 11"
abbreviation STAGE_EXTRAS_UO :: nat where "STAGE_EXTRAS_UO \<equiv> 12"
abbreviation STAGE_EXTRAS_UI :: nat where "STAGE_EXTRAS_UI \<equiv> 13"
abbreviation STAGE_EXTRAS_AO :: nat where "STAGE_EXTRAS_AO \<equiv> 14"
abbreviation STAGE_HAVOC :: nat where "STAGE_HAVOC \<equiv> 15"
abbreviation STAGE_SPLICE :: nat where "STAGE_SPLICE \<equiv> 16"

text \<open>\<open>struct extra_data\<close>; the length is that of the data.\<close>

record extra_data =
  x_data :: bytes
  hit_cnt :: u32

record dict_st = queue_st +
  extras :: "extra_data list"
  a_extras :: "extra_data list"
  auto_changed :: bool

record exec_st = dict_st +
  virgin_bits :: bytes
  virgin_tmout :: bytes
  virgin_crash :: bytes
  virgin_hybrid :: "u32 list"
  var_bytes :: bytes
  bitmap_changed :: bool
  out_file :: "string option"
  testcase :: bytes
  exec_tmout :: u32
  hang_tmout :: u32
  crash_mode :: fault
  no_forkserver :: bool
  uses_asan :: bool
  fast_cal :: bool
  resuming_fuzz :: bool
  stop_soon :: bool
  skip_requested :: bool
  child_timed_out :: bool
  kill_signal :: u8
  prev_timed_out :: bool
  runs :: nat

record count_st = exec_st +
  total_execs :: u64
  total_crashes :: u64
  unique_crashes :: u64
  total_tmouts :: u64
  unique_tmouts :: u64
  unique_hangs :: u64
  last_crash_time :: u64
  last_hang_time :: u64
  last_crash_execs :: u64
  total_cal_us :: u64
  total_cal_cycles :: u64
  total_bitmap_size :: u64
  total_bitmap_entries :: u64
  queued_with_cov :: u32
  queued_with_hybrid :: u32
  queued_with_incorrect :: u32
  queued_variable :: u32
  queued_discovered :: u32
  var_byte_count :: u32
  subseq_tmouts :: u32
  cur_skipped_paths :: u32
  trim_execs :: u64
  bytes_trim_in :: u64
  bytes_trim_out :: u64

record ui_st = count_st +
  start_time :: u64
  last_ms :: u64
  last_stats_ms :: u64
  stats_update_freq :: u32
  run_over10m :: bool

record stage_st = ui_st +
  stage_short :: string
  stage_cur :: s32
  stage_max :: s32
  stage_cur_byte :: s32
  stage_cur_val :: s32
  stage_val_type :: val_type
  stage_finds :: "u64 list"
  stage_cycles :: "u64 list"
  syncing_party :: "string option"
  syncing_case :: u32
  splicing_with :: s32
  current_entry :: u32
  queue_cycle :: u64
  blocks_eff_total :: u64
  blocks_eff_select :: u64
  tried :: "bytes list"

record fuzz_st = stage_st +
  queue_cur :: "nat option"
  no_arith :: bool
  skip_deterministic :: bool
  use_splicing :: bool
  havoc_div :: u32
  master_id :: u32
  master_max :: u32

end
