(* ===== verification/Energy.thy ===== *)
theory Energy
  imports State
begin

section \<open>How long and how much: scores and block lengths\<close>

text \<open>
  \<open>calculate_score\<close> and \<open>choose_block_len\<close> of \<open>src/afl/hybrid_metric/afl-fuzz.c\<close>. The C code
  compares products with the constants 0.1, 0.25, 0.3, 0.5, 0.75 and 1.5 in double precision
  against 32-bit integers; the products are exact or rounded to within less than the distance of
  the compared values, so the comparisons are those of the cleared fractions on natural numbers.
  A score scaled by a fraction is truncated.
\<close>

definition HAVOC_MAX_MULT :: u32 where "HAVOC_MAX_MULT = 16"
definition HAVOC_BLK_SMALL :: u32 where "HAVOC_BLK_SMALL = 32"
definition HAVOC_BLK_MEDIUM :: u32 where "HAVOC_BLK_MEDIUM = 128"
definition HAVOC_BLK_LARGE :: u32 where "HAVOC_BLK_LARGE = 1500"
definition HAVOC_BLK_XL :: u32 where "HAVOC_BLK_XL = 32768"

definition speed_score :: "u64 \<Rightarrow> u32 \<Rightarrow> u32" where
  "speed_score us avg =
     (if unat us > 10 * unat avg then 10
      else if unat us > 4 * unat avg then 25
      else if unat us > 2 * unat avg then 50
      else if 3 * unat us > 4 * unat avg then 75
      else if us * 4 < ucast avg then 300
      else if us * 3 < ucast avg then 200
      else if us * 2 < ucast avg then 150
      else 100)"

definition size_score :: "u32 \<Rightarrow> u32 \<Rightarrow> u32 \<Rightarrow> u32" where
  "size_score sz avg perf =
     (if 3 * unat sz > 10 * unat avg then perf * 3
      else if unat sz > 2 * unat avg then perf * 2
      else if 3 * unat sz > 4 * unat avg then perf * 3 div 2
      else if sz * 3 < avg then perf div 4
      else if sz * 2 < avg then perf div 2
      else if 3 * unat sz < 2 * unat avg then perf * 3 div 4
      else perf)"

definition depth_mult :: "u64 \<Rightarrow> u32" where
  "depth_mult d = (if d \<le> 3 then 1 else if d \<le> 7 then 2 else if d \<le> 13 then 3 else if d \<le> 25 then 4 else 5)"

definition calculate_score :: "nat \<Rightarrow> 'a count_st_scheme \<Rightarrow> (u32 \<times> 'a count_st_scheme) res" where
  "calculate_score q s =
     (if total_cal_cycles s = 0 \<or> total_bitmap_entries s = 0 then Inl DivByZero
      else
        let avg_exec_us = ucast (total_cal_us s div total_cal_cycles s);
            avg_bitmap_size = ucast (total_bitmap_size s div total_bitmap_entries s);
            p1 = speed_score (exec_us (ent s q)) avg_exec_us;
            p2 = size_score (bitmap_size (ent s q)) avg_bitmap_size p1;
            h = handicap (ent s q);
            (p3, s1) = (if h \<ge> 4 then (p2 * 4, upd q (handicap_update (\<lambda>h. h - 4)) s)
                        else if h \<noteq> 0 then (p2 * 2, upd q (handicap_update (\<lambda>h. h - 1)) s)
                        else (p2, s));
            p4 = p3 * depth_mult (depth (ent s1 q))
        in Inr (min p4 (HAVOC_MAX_MULT * 100), s1))"

definition block_range :: "u32 \<Rightarrow> bool \<Rightarrow> u32 \<times> u32" where
  "block_range k large =
     (if k = 0 then (1, HAVOC_BLK_SMALL) else if k = 1 then (HAVOC_BLK_SMALL, HAVOC_BLK_MEDIUM)
      else if large then (HAVOC_BLK_MEDIUM, HAVOC_BLK_LARGE) else (HAVOC_BLK_LARGE, HAVOC_BLK_XL))"

definition choose_block_len :: "env \<Rightarrow> u32 \<Rightarrow> 'a stage_st_scheme \<Rightarrow> (u32 \<times> 'a stage_st_scheme) res" where
  "choose_block_len E limit s0 =
     (let rlim = (if run_over10m s0 then ucast (min (queue_cycle s0) 3) else 1) in
      bnd (UR E rlim s0) (\<lambda>(k, s1).
      bnd (if k = 0 \<or> k = 1 then Inr (0, s1) else UR E 10 s1) (\<lambda>(d, s2).
        let (min0, max_value) = block_range k (d \<noteq> 0);
            min_value = (if min0 \<ge> limit then 1 else min0)
        in bnd (UR E (min max_value limit - min_value + 1) s2) (\<lambda>(r, s3).
             Inr (min_value + r, s3)))))"

end
