(* ===== verification/Extras.thy ===== *)
theory Extras
  imports State Mutate
begin

unbundle bit_operations_syntax

section \<open>The dictionaries\<close>

text \<open>
  User-supplied tokens (\<open>load_extras_file\<close>, \<open>load_extras\<close>) and automatically found ones
  (\<open>maybe_add_auto\<close>, \<open>load_auto\<close>) of \<open>src/afl/hybrid_metric/afl-fuzz.c\<close>. \<open>qsort\<close> of the C
  library is the stable sort by the comparator, the merge sort of glibc. The size range that
  \<open>load_extras\<close> prints is left out.
\<close>

subsection \<open>Constants of config.h\<close>

definition MAX_DICT_FILE :: nat where "MAX_DICT_FILE = 128"
definition MAX_LINE :: nat where "MAX_LINE = 8192"
definition MIN_AUTO_EXTRA :: nat where "MIN_AUTO_EXTRA = 3"
definition MAX_AUTO_EXTRA :: nat where "MAX_AUTO_EXTRA = 32"
definition MAX_AUTO_EXTRAS :: nat where "MAX_AUTO_EXTRAS = 500"
definition USE_AUTO_EXTRAS :: nat where "USE_AUTO_EXTRAS = 50"

subsection \<open>Sorting\<close>

definition x_len :: "extra_data \<Rightarrow> u32" where "x_len x = of_nat (length (x_data x))"

definition compare_extras_len :: "extra_data \<Rightarrow> extra_data \<Rightarrow> s32" where
  "compare_extras_len e1 e2 = x_len e1 - x_len e2"

definition compare_extras_use_d :: "extra_data \<Rightarrow> extra_data \<Rightarrow> s32" where
  "compare_extras_use_d e1 e2 = hit_cnt e2 - hit_cnt e1"

primrec qinsert :: "('x \<Rightarrow> 'x \<Rightarrow> s32) \<Rightarrow> 'x \<Rightarrow> 'x list \<Rightarrow> 'x list" where
  "qinsert cmp x [] = [x]"
| "qinsert cmp x (y # ys) = (if sint (cmp x y) \<le> 0 then x # y # ys else y # qinsert cmp x ys)"

primrec qsort :: "('x \<Rightarrow> 'x \<Rightarrow> s32) \<Rightarrow> 'x list \<Rightarrow> 'x list" where
  "qsort cmp [] = []"
| "qsort cmp (x # xs) = qinsert cmp x (qsort cmp xs)"

subsection \<open>Characters (C locale)\<close>

definition isspace :: "u8 \<Rightarrow> bool" where "isspace c \<longleftrightarrow> c = 32 \<or> (9 \<le> c \<and> c \<le> 13)"
definition isdigit :: "u8 \<Rightarrow> bool" where "isdigit c \<longleftrightarrow> 48 \<le> c \<and> c \<le> 57"
definition isalnum :: "u8 \<Rightarrow> bool" where
  "isalnum c \<longleftrightarrow> isdigit c \<or> (65 \<le> c \<and> c \<le> 90) \<or> (97 \<le> c \<and> c \<le> 122)"
definition isxdigit :: "u8 \<Rightarrow> bool" where
  "isxdigit c \<longleftrightarrow> isdigit c \<or> (65 \<le> c \<and> c \<le> 70) \<or> (97 \<le> c \<and> c \<le> 102)"
definition tolower :: "u8 \<Rightarrow> u8" where "tolower c = (if 65 \<le> c \<and> c \<le> 90 then c + 32 else c)"

text \<open>\<open>strchr(hexdigits, tolower(c)) - hexdigits\<close>.\<close>

definition hexval :: "u8 \<Rightarrow> u8" where
  "hexval c = (if isdigit c then c - 48 else tolower c - 87)"

definition skip :: "(u8 \<Rightarrow> bool) \<Rightarrow> bytes \<Rightarrow> bytes" where "skip P l = dropWhile P l"

text \<open>\<open>atoi\<close>; a number that does not fit an \<open>int\<close> wraps.\<close>

definition digits_val :: "bytes \<Rightarrow> int" where
  "digits_val l = foldl (\<lambda>a c. 10 * a + (uint c - 48)) 0 (takeWhile isdigit l)"

definition atoi :: "bytes \<Rightarrow> s32" where
  "atoi l =
     (case skip isspace l of
        [] \<Rightarrow> 0
      | c # cs \<Rightarrow> of_int (if c = 45 then - digits_val cs else if c = 43 then digits_val cs
                        else digits_val (c # cs)))"

subsection \<open>load_extras_file\<close>

text \<open>
  \<open>fgets(buf, MAX_LINE, f)\<close>: up to a newline, at most \<open>MAX_LINE - 1\<close> characters; what the C code
  sees of it ends at a null character.
\<close>

definition next_line :: "bytes \<Rightarrow> bytes \<times> bytes" where
  "next_line f =
     (let n = length (takeWhile (\<lambda>c. c \<noteq> 10) f); k = min (if n < length f then n + 1 else n) (MAX_LINE - 1)
      in (take k f, drop k f))"

definition c_string :: "bytes \<Rightarrow> bytes" where "c_string l = takeWhile (\<lambda>c. c \<noteq> 0) l"

definition trim_line :: "bytes \<Rightarrow> bytes" where
  "trim_line l = rev (skip isspace (rev (skip isspace (c_string l))))"

text \<open>The loop over the quoted text: the bytes of the token.\<close>

fun unescape :: "bytes \<Rightarrow> bytes res" where
  "unescape [] = Inr []"
| "unescape (c # cs) =
     (if (1 \<le> c \<and> c \<le> 31) \<or> 128 \<le> c then Inl (Fatal ''Non-printable characters'')
      else if c = 92 then
        (case cs of
           [] \<Rightarrow> Inl (Fatal ''Invalid escaping'')
         | d # ds \<Rightarrow>
             if d = 92 \<or> d = 34 then bnd (unescape ds) (\<lambda>t. Inr (d # t))
             else case ds of
               a # b # rest \<Rightarrow>
                 if d = 120 \<and> isxdigit a \<and> isxdigit b then
                   bnd (unescape rest) (\<lambda>t. Inr ((push_bit 4 (hexval a) OR hexval b) # t))
                 else Inl (Fatal ''Invalid escaping'')
             | _ \<Rightarrow> Inl (Fatal ''Invalid escaping''))
      else bnd (unescape cs) (\<lambda>t. Inr (c # t)))"

text \<open>One line: no token (blank, comment, or a level above \<open>dict_level\<close>) or its bytes.\<close>

definition skip_label :: "u32 \<Rightarrow> bytes \<Rightarrow> bytes option" where
  "skip_label dict_level l =
     (case skip (\<lambda>c. isalnum c \<or> c = 95) l of
        [] \<Rightarrow> Some []
      | c # cs \<Rightarrow> if c = 64 then (if atoi cs > dict_level then None else Some (skip isdigit cs))
                  else Some (c # cs))"

definition parse_line :: "u32 \<Rightarrow> bytes \<Rightarrow> bytes option res" where
  "parse_line dict_level line =
     (let l = trim_line line in
      if l = [] \<or> hd l = 35 then Inr None
      else if last l \<noteq> 34 then Inl (Fatal ''Malformed name=value pair'')
      else case skip_label dict_level (butlast l) of
        None \<Rightarrow> Inr None
      | Some m \<Rightarrow>
          (case skip (\<lambda>c. isspace c \<or> c = 61) m of
             [] \<Rightarrow> Inl (Fatal ''Malformed name=keyword pair'')
           | c # cs \<Rightarrow>
               if c \<noteq> 34 then Inl (Fatal ''Malformed name=keyword pair'')
               else if cs = [] then Inl (Fatal ''Empty keyword'')
               else bnd (unescape cs) (\<lambda>t.
                 if length t > MAX_DICT_FILE then Inl (Fatal ''Keyword too big'') else Inr (Some t))))"

text \<open>Every line consumes input, so the length of the file bounds the number of lines.\<close>

fun load_lines :: "nat \<Rightarrow> u32 \<Rightarrow> bytes \<Rightarrow> extra_data list \<Rightarrow> extra_data list res" where
  "load_lines 0 dict_level f xs = (if f = [] then Inr xs else Inl Diverges)"
| "load_lines (Suc n) dict_level f xs =
     (if f = [] then Inr xs
      else
        let (line, rest) = next_line f in
        bnd (parse_line dict_level line) (\<lambda>t.
          load_lines n dict_level rest
            (case t of None \<Rightarrow> xs | Some d \<Rightarrow> xs @ [\<lparr>x_data = d, hit_cnt = 0\<rparr>])))"

definition load_extras_file :: "string \<Rightarrow> u32 \<Rightarrow> 'a dict_st_scheme \<Rightarrow> 'a dict_st_scheme res" where
  "load_extras_file fn dict_level s =
     (case read_file fn s of
        None \<Rightarrow> Inl (Fatal (''Unable to open '' @ fn))
      | Some f \<Rightarrow> bnd (load_lines (length f) dict_level f (extras s)) (\<lambda>xs. Inr (s\<lparr>extras := xs\<rparr>)))"

text \<open>One directory entry; what is no regular file or is empty is passed over.\<close>

definition load_extra_entry :: "string \<Rightarrow> string \<Rightarrow> 'a dict_st_scheme \<Rightarrow> 'a dict_st_scheme res" where
  "load_extra_entry dir name s =
     (case fs s (dir @ ''/'' @ name) of
        Some (Regular d) \<Rightarrow>
          if d = [] then Inr s
          else if length d > MAX_DICT_FILE then Inl (Fatal ''Extra is too big'')
          else Inr (s\<lparr>extras := extras s @ [\<lparr>x_data = d, hit_cnt = 0\<rparr>]\<rparr>)
      | _ \<Rightarrow> Inr s)"

definition bytes_of :: "string \<Rightarrow> bytes" where "bytes_of = map of_char"

definition load_extras :: "env \<Rightarrow> string \<Rightarrow> 'a dict_st_scheme \<Rightarrow> 'a dict_st_scheme res" where
  "load_extras E arg s =
     (let dir = takeWhile (\<lambda>c. c \<noteq> CHR ''@'') arg;
          leveled = CHR ''@'' \<in> set arg;
          dict_level = (if leveled then atoi (bytes_of (drop (Suc (length dir)) arg)) else 0)
      in bnd (case readdir E dir of
                None \<Rightarrow> load_extras_file dir dict_level s
              | Some names \<Rightarrow>
                  if leveled then Inl (Fatal ''Dictionary levels not supported for directories.'')
                  else fold_res (load_extra_entry dir) names s)
           (\<lambda>s1. if extras s1 = [] then Inl (Fatal ''No usable files'')
                 else Inr (s1\<lparr>extras := qsort compare_extras_len (extras s1)\<rparr>)))"

subsection \<open>maybe_add_auto\<close>

definition memcmp_nocase :: "bytes \<Rightarrow> bytes \<Rightarrow> nat \<Rightarrow> bool" where
  "memcmp_nocase m1 m2 len \<longleftrightarrow> (\<exists>(a, b) \<in> set (zip (take len m1) (take len m2)). tolower a \<noteq> tolower b)"

text \<open>\<open>*((u16* )mem) == interesting_16[i]\<close> compares an unsigned with a signed \<open>int\<close>.\<close>

definition builtin_value :: "bytes \<Rightarrow> bool" where
  "builtin_value mem \<longleftrightarrow>
     (length mem = 2 \<and>
       (\<exists>v \<in> set interesting_16. uint (ld16 mem) = sint v \<or> ld16 mem = SWAP16 v)) \<or>
     (length mem = 4 \<and>
       (\<exists>v \<in> set interesting_32. ld32 mem = v \<or> ld32 mem = SWAP32 v))"

text \<open>The scan of \<open>extras\<close>, which relies on its order.\<close>

definition matches_extra :: "extra_data list \<Rightarrow> bytes \<Rightarrow> bool" where
  "matches_extra xs mem \<longleftrightarrow>
     (\<exists>x \<in> set (takeWhile (\<lambda>x. length (x_data x) = length mem)
                  (dropWhile (\<lambda>x. length (x_data x) < length mem) xs)).
        \<not> memcmp_nocase (x_data x) mem (length mem))"

fun bump_match :: "bytes \<Rightarrow> extra_data list \<Rightarrow> extra_data list option" where
  "bump_match mem [] = None"
| "bump_match mem (x # xs) =
     (if length (x_data x) = length mem \<and> \<not> memcmp_nocase (x_data x) mem (length mem)
      then Some (x\<lparr>hit_cnt := hit_cnt x + 1\<rparr> # xs)
      else map_option (\<lambda>ys. x # ys) (bump_match mem xs))"

definition sort_a_extras :: "extra_data list \<Rightarrow> extra_data list" where
  "sort_a_extras xs =
     (let ys = qsort compare_extras_use_d xs; k = min USE_AUTO_EXTRAS (length xs)
      in qsort compare_extras_len (take k ys) @ drop k ys)"

definition maybe_add_auto :: "env \<Rightarrow> bytes \<Rightarrow> 'a dict_st_scheme \<Rightarrow> 'a dict_st_scheme res" where
  "maybe_add_auto E mem s0 =
     (if \<forall>b \<in> set (tl mem). b = hd mem then Inr s0
      else if builtin_value mem then Inr s0
      else if matches_extra (extras s0) mem then Inr s0
      else
        let s = s0\<lparr>auto_changed := True\<rparr> in
        case bump_match mem (a_extras s) of
          Some xs \<Rightarrow> Inr (s\<lparr>a_extras := sort_a_extras xs\<rparr>)
        | None \<Rightarrow>
            let x = \<lparr>x_data = mem, hit_cnt = 0\<rparr> in
            if length (a_extras s) < MAX_AUTO_EXTRAS then
              Inr (s\<lparr>a_extras := sort_a_extras (a_extras s @ [x])\<rparr>)
            else
              bnd (UR E (of_nat ((MAX_AUTO_EXTRAS + 1) div 2)) s) (\<lambda>(r, s1).
                let i = MAX_AUTO_EXTRAS div 2 + unat r in
                Inr (s1\<lparr>a_extras := sort_a_extras ((a_extras s1)[i := x])\<rparr>)))"

subsection \<open>load_auto\<close>

definition load_auto_one :: "env \<Rightarrow> string \<Rightarrow> nat \<Rightarrow> 'a dict_st_scheme \<Rightarrow> (bool \<times> 'a dict_st_scheme) res" where
  "load_auto_one E in_dir i s =
     (case read_file (in_dir @ ''/.state/auto_extras/auto_'' @ dec_pad 6 i) s of
        None \<Rightarrow> Inr (True, s)
      | Some d \<Rightarrow>
          let tmp = take (MAX_AUTO_EXTRA + 1) d in
          if MIN_AUTO_EXTRA \<le> length tmp \<and> length tmp \<le> MAX_AUTO_EXTRA then
            bnd (maybe_add_auto E tmp s) (\<lambda>s'. Inr (False, s'))
          else Inr (False, s))"

definition load_auto :: "env \<Rightarrow> string \<Rightarrow> 'a dict_st_scheme \<Rightarrow> 'a dict_st_scheme res" where
  "load_auto E in_dir s =
     bnd (for_each [0..<USE_AUTO_EXTRAS] (load_auto_one E in_dir) s) (\<lambda>(stop, s'). Inr s')"

end
