(* ===== verification/Stages.thy ===== *)
theory Stages
  imports Extras Hash
begin

unbundle bit_operations_syntax

section \<open>The deterministic stages\<close>

text \<open>
  The stages of \<open>fuzz_one\<close> (\<open>src/afl/hybrid_metric/afl-fuzz.c\<close>) from the walking bit flips to
  the automatic extras. A stage takes the call \<open>common_fuzz_stuff(argv, buf, |buf|)\<close> as the
  argument \<open>run\<close> and works on the pair of \<open>out_buf\<close> and the globals; the answer \<open>True\<close> is
  \<open>goto abandon_entry\<close>. \<open>len\<close> is the length of \<open>out_buf\<close>.
\<close>

type_synonym 'a runner = "bytes \<Rightarrow> 'a stage_st_scheme \<Rightarrow> (bool \<times> 'a stage_st_scheme) res"

type_synonym 'a work = "bytes \<times> 'a stage_st_scheme"

subsection \<open>Control flow\<close>

text \<open>The next statement runs unless the entry has been abandoned.\<close>

definition cont :: "(bool \<times> 's) res \<Rightarrow> ('s \<Rightarrow> (bool \<times> 's) res) \<Rightarrow> (bool \<times> 's) res" where
  "cont m f = bnd m (\<lambda>(stop, s). if stop then Inr (True, s) else f s)"

text \<open>
  \<open>for (stage_cur = 0; stage_cur < stage_max; stage_cur++)\<close>: both bounds are globals. The fuel is
  the value of \<open>stage_max\<close> when the loop starts; \<open>Diverges\<close> would mean that the body moved them.
\<close>

fun stage_loop :: "nat \<Rightarrow> ('x \<times> 'a stage_st_scheme \<Rightarrow> (bool \<times> 'x \<times> 'a stage_st_scheme) res) \<Rightarrow>
    'x \<times> 'a stage_st_scheme \<Rightarrow> (bool \<times> 'x \<times> 'a stage_st_scheme) res" where
  "stage_loop n body (x, s) =
     (if sint (stage_cur s) < sint (stage_max s) then
        (case n of
           0 \<Rightarrow> Inl Diverges
         | Suc m \<Rightarrow> cont (body (x, s)) (\<lambda>(x', s'). stage_loop m body (x', s'\<lparr>stage_cur := stage_cur s' + 1\<rparr>)))
      else Inr (False, x, s))"

declare stage_loop.simps [simp del]

definition run_stage :: "('x \<times> 'a stage_st_scheme \<Rightarrow> (bool \<times> 'x \<times> 'a stage_st_scheme) res) \<Rightarrow>
    'x \<times> 'a stage_st_scheme \<Rightarrow> (bool \<times> 'x \<times> 'a stage_st_scheme) res" where
  "run_stage body w = (case w of (x, s) \<Rightarrow> stage_loop (nat (sint (stage_max s))) body (x, s\<lparr>stage_cur := 0\<rparr>))"

text \<open>\<open>queued_paths + unique_crashes\<close>, and the bookkeeping when a stage is over.\<close>

definition hit_count :: "'a stage_st_scheme \<Rightarrow> u64" where
  "hit_count s = ucast (queued_paths s) + unique_crashes s"

definition stage_done :: "nat \<Rightarrow> u64 \<Rightarrow> 'a stage_st_scheme \<Rightarrow> 'a stage_st_scheme" where
  "stage_done k orig_hit_cnt s =
     s\<lparr>stage_finds := (stage_finds s)[k := stage_finds s ! k + (hit_count s - orig_hit_cnt)],
       stage_cycles := (stage_cycles s)[k := stage_cycles s ! k + scast (stage_max s)]\<rparr>"

text \<open>
  A stage: its short name, its initial \<open>stage_max\<close>, \<open>stage_cur = 0\<close>, the loop, the bookkeeping.
\<close>

definition staged :: "nat \<Rightarrow> string \<Rightarrow> s32 \<Rightarrow> ('x \<times> 'a stage_st_scheme \<Rightarrow> (bool \<times> 'x \<times> 'a stage_st_scheme) res) \<Rightarrow>
    'x \<times> 'a stage_st_scheme \<Rightarrow> (bool \<times> 'x \<times> 'a stage_st_scheme) res" where
  "staged k short smax loop w =
     (case w of (x, s) \<Rightarrow>
        cont (loop (x, s\<lparr>stage_short := short, stage_cur := 0, stage_max := smax\<rparr>))
          (\<lambda>(x', s'). Inr (False, x', stage_done k (hit_count s) s')))"

definition set_byte :: "nat \<Rightarrow> 'a stage_st_scheme \<Rightarrow> 'a stage_st_scheme" where
  "set_byte i s = s\<lparr>stage_cur_byte := of_nat i\<rparr>"

subsection \<open>Bit flips\<close>

definition flip_body :: "nat \<Rightarrow> 'a runner \<Rightarrow> 'a work \<Rightarrow> (bool \<times> 'a work) res" where
  "flip_body n run w =
     (case w of (out, s0) \<Rightarrow>
        let s = s0\<lparr>stage_cur_byte := drop_bit 3 (stage_cur s0)\<rparr>;
            out1 = flip_bits (unat (stage_cur s)) n out
        in bnd (run out1 s) (\<lambda>(stop, s').
             if stop then Inr (True, out1, s')
             else Inr (False, flip_bits (unat (stage_cur s')) n out1, s')))"

definition bitflip2 :: "'a runner \<Rightarrow> 'a work \<Rightarrow> (bool \<times> 'a work) res" where
  "bitflip2 run w = staged STAGE_FLIP2 ''flip2'' (of_nat (length (fst w)) * 8 - 1)
     (run_stage (flip_body 2 run)) w"

definition bitflip4 :: "'a runner \<Rightarrow> 'a work \<Rightarrow> (bool \<times> 'a work) res" where
  "bitflip4 run w = staged STAGE_FLIP4 ''flip4'' (of_nat (length (fst w)) * 8 - 3)
     (run_stage (flip_body 4 run)) w"

text \<open>
  The single walking bit also collects syntax tokens: the characters whose change gives the same
  new checksum. The locals are the record \<open>token_loc\<close>; \<open>a_collect\<close> holds what the array holds of
  the first \<open>a_len\<close> characters, and \<open>a_len\<close> counts on past its end.
\<close>

record token_loc =
  a_collect :: bytes
  a_len :: nat
  prev_cksum :: u32

definition collect :: "u8 \<Rightarrow> token_loc \<Rightarrow> token_loc" where
  "collect c l =
     (if a_len l < MAX_AUTO_EXTRA then l\<lparr>a_collect := take (a_len l) (a_collect l) @ [c], a_len := a_len l + 1\<rparr>
      else l\<lparr>a_len := a_len l + 1\<rparr>)"

definition offer_token :: "env \<Rightarrow> token_loc \<Rightarrow> 'a dict_st_scheme \<Rightarrow> 'a dict_st_scheme res" where
  "offer_token E l s =
     (if a_len l \<ge> MIN_AUTO_EXTRA \<and> a_len l \<le> MAX_AUTO_EXTRA
      then maybe_add_auto E (take (a_len l) (a_collect l)) s else Inr s)"

definition token_step :: "env \<Rightarrow> u32 \<Rightarrow> u32 \<Rightarrow> bool \<Rightarrow> u8 \<Rightarrow> token_loc \<Rightarrow> 'a dict_st_scheme \<Rightarrow>
    (token_loc \<times> 'a dict_st_scheme) res" where
  "token_step E exec_ck cksum at_end c l0 s0 =
     bnd (if at_end \<and> cksum = prev_cksum l0 then
            (let l = collect c l0 in bnd (offer_token E l s0) (\<lambda>s. Inr (l, s)))
          else if cksum \<noteq> prev_cksum l0 then
            bnd (offer_token E l0 s0) (\<lambda>s. Inr (l0\<lparr>a_len := 0, prev_cksum := cksum\<rparr>, s))
          else Inr (l0, s0))
       (\<lambda>(l, s). Inr (if cksum \<noteq> exec_ck then collect c l else l, s))"

definition trace_cksum :: "'a queue_st_scheme \<Rightarrow> u32" where
  "trace_cksum s = hash32 (trace_bits s) (of_nat (length (trace_bits s))) HASH_CONST"

definition flip1_body :: "env \<Rightarrow> nat \<Rightarrow> 'a runner \<Rightarrow> (bytes \<times> token_loc) \<times> 'a stage_st_scheme \<Rightarrow>
    (bool \<times> (bytes \<times> token_loc) \<times> 'a stage_st_scheme) res" where
  "flip1_body E q run w =
     (case w of ((out, l), s0) \<Rightarrow>
        bnd (flip_body 1 run (out, s0)) (\<lambda>(stop, out', s).
          if stop then Inr (True, (out', l), s)
          else if dumb_mode s = 0 \<and> unat (stage_cur s) mod 8 = 7 then
            bnd (token_step E (exec_cksum (ent s q)) (trace_cksum s) (stage_cur s = stage_max s - 1)
                   (out' ! (unat (stage_cur s) div 8)) l s)
              (\<lambda>(l', s'). Inr (False, (out', l'), s'))
          else Inr (False, (out', l), s)))"

definition bitflip1 :: "env \<Rightarrow> nat \<Rightarrow> 'a runner \<Rightarrow> 'a work \<Rightarrow> (bool \<times> 'a work) res" where
  "bitflip1 E q run w =
     (case w of (out, s) \<Rightarrow>
        let l0 = \<lparr>a_collect = [], a_len = 0, prev_cksum = exec_cksum (ent s q)\<rparr> in
        bnd (staged STAGE_FLIP1 ''flip1'' (of_nat (length out) * 8) (run_stage (flip1_body E q run))
               ((out, l0), s\<lparr>stage_val_type := STAGE_VAL_NONE\<rparr>))
          (\<lambda>(stop, (out', l), s'). Inr (stop, out', s')))"

subsection \<open>The effector map\<close>

definition EFF_MIN_LEN :: nat where "EFF_MIN_LEN = 128"
definition EFF_MAX_PERC :: nat where "EFF_MAX_PERC = 90"

text \<open>Allocation of an empty map gives a null pointer.\<close>

definition eff_init :: "nat \<Rightarrow> (bool list \<times> nat) res" where
  "eff_init len =
     (if EFF_ALEN len = 0 then Inl NullDeref
      else
        let m = (replicate (EFF_ALEN len) False)[0 := True] in
        Inr (if EFF_APOS (len - 1) \<noteq> 0 then (m[EFF_APOS (len - 1) := True], 2) else (m, 1)))"

definition flip8_body :: "nat \<Rightarrow> 'a runner \<Rightarrow> (bytes \<times> bool list \<times> nat) \<times> 'a stage_st_scheme \<Rightarrow>
    (bool \<times> (bytes \<times> bool list \<times> nat) \<times> 'a stage_st_scheme) res" where
  "flip8_body q run w =
     (case w of ((out, eff, cnt), s0) \<Rightarrow>
        let s = s0\<lparr>stage_cur_byte := stage_cur s0\<rparr>;
            i = unat (stage_cur s);
            out1 = out[i := out ! i XOR 0xFF]
        in bnd (run out1 s) (\<lambda>(stop, s').
             if stop then Inr (True, (out1, eff, cnt), s')
             else
               let i' = unat (stage_cur s');
                   cksum = (if dumb_mode s' = 0 \<and> length out \<ge> EFF_MIN_LEN then trace_cksum s'
                            else NOT (exec_cksum (ent s' q)));
                   hit = (\<not> eff ! EFF_APOS i' \<and> cksum \<noteq> exec_cksum (ent s' q))
               in Inr (False, (out1[i' := out1 ! i' XOR 0xFF],
                               if hit then eff[EFF_APOS i' := True] else eff,
                               if hit then cnt + 1 else cnt), s')))"

text \<open>More than 90 percent of the map set: everything is worth fuzzing.\<close>

definition eff_finish :: "nat \<Rightarrow> bool list \<Rightarrow> nat \<Rightarrow> bool list \<times> nat" where
  "eff_finish len eff cnt =
     (if cnt \<noteq> EFF_ALEN len \<and> cnt * 100 div EFF_ALEN len > EFF_MAX_PERC
      then (replicate (EFF_ALEN len) True, EFF_ALEN len) else (eff, cnt))"

definition byteflip1 :: "nat \<Rightarrow> 'a runner \<Rightarrow> 'a work \<Rightarrow> (bool \<times> (bytes \<times> bool list) \<times> 'a stage_st_scheme) res" where
  "byteflip1 q run w =
     (case w of (out, s) \<Rightarrow>
        let len = length out in
        bnd (eff_init len) (\<lambda>(eff0, cnt0).
        bnd (staged STAGE_FLIP8 ''flip8'' (of_nat len)
               (\<lambda>w. cont (run_stage (flip8_body q run) w) (\<lambda>((out', eff, cnt), s').
                  let (eff', sel) = eff_finish len eff cnt in
                  Inr (False, (out', eff', cnt),
                       s'\<lparr>blocks_eff_select := blocks_eff_select s' + of_nat sel,
                          blocks_eff_total := blocks_eff_total s' + of_nat (EFF_ALEN len)\<rparr>)))
               ((out, eff0, cnt0), s))
          (\<lambda>(stop, (out', eff, cnt), s'). Inr (stop, (out', eff), s'))))"

definition eff_any :: "bool list \<Rightarrow> nat \<Rightarrow> nat \<Rightarrow> bool" where
  "eff_any eff i n \<longleftrightarrow> (\<exists>k \<in> set [i..<i + n]. eff ! EFF_APOS k)"

text \<open>Spans without an effector are taken off \<open>stage_max\<close>.\<close>

definition drop_slots :: "nat \<Rightarrow> 'a stage_st_scheme \<Rightarrow> 'a stage_st_scheme" where
  "drop_slots n s = s\<lparr>stage_max := stage_max s - of_nat n\<rparr>"

definition wordflip_body :: "nat \<Rightarrow> 'a runner \<Rightarrow> bool list \<Rightarrow> nat \<Rightarrow> 'a work \<Rightarrow> (bool \<times> 'a work) res" where
  "wordflip_body n run eff i w =
     (case w of (out, s0) \<Rightarrow>
        if \<not> eff_any eff i n then Inr (False, out, drop_slots 1 s0)
        else
          let s = set_byte i s0; out1 = put i (map NOT (slice i n out)) out in
          bnd (run out1 s) (\<lambda>(stop, s').
            if stop then Inr (True, out1, s')
            else Inr (False, put i (map NOT (slice i n out1)) out1,
                      s'\<lparr>stage_cur := stage_cur s' + 1\<rparr>)))"

definition byteflip2 :: "'a runner \<Rightarrow> bool list \<Rightarrow> 'a work \<Rightarrow> (bool \<times> 'a work) res" where
  "byteflip2 run eff w =
     (let len = length (fst w) in
      staged STAGE_FLIP16 ''flip16'' (of_nat (len - 1)) (for_each [0..<len - 1] (wordflip_body 2 run eff)) w)"

definition byteflip4 :: "'a runner \<Rightarrow> bool list \<Rightarrow> 'a work \<Rightarrow> (bool \<times> 'a work) res" where
  "byteflip4 run eff w =
     (let len = length (fst w) in
      staged STAGE_FLIP32 ''flip32'' (of_nat (len - 3)) (for_each [0..<len - 3] (wordflip_body 4 run eff)) w)"

subsection \<open>Arithmetic\<close>

text \<open>
  One candidate: when the guard holds it is written and run, and \<open>stage_cur\<close> counts it;
  otherwise \<open>stage_max--\<close>.
\<close>

definition attempt :: "'a runner \<Rightarrow> bool \<Rightarrow> nat \<Rightarrow> bytes \<Rightarrow> 'a work \<Rightarrow> (bool \<times> 'a work) res" where
  "attempt run ok i val w =
     (case w of (out, s) \<Rightarrow>
        if ok then
          (let out1 = put i val out in
           bnd (run out1 s) (\<lambda>(stop, s').
             if stop then Inr (True, out1, s')
             else Inr (False, out1, s'\<lparr>stage_cur := stage_cur s' + 1\<rparr>)))
        else Inr (False, out, drop_slots 1 s))"

definition cur_val :: "s32 \<Rightarrow> 'a work \<Rightarrow> 'a work" where
  "cur_val v w = (case w of (out, s) \<Rightarrow> (out, s\<lparr>stage_cur_val := v\<rparr>))"

definition val_type_is :: "val_type \<Rightarrow> 'a work \<Rightarrow> 'a work" where
  "val_type_is t w = (case w of (out, s) \<Rightarrow> (out, s\<lparr>stage_val_type := t\<rparr>))"

definition restore :: "nat \<Rightarrow> bytes \<Rightarrow> 'a work \<Rightarrow> (bool \<times> 'a work) res" where
  "restore i val w = (case w of (out, s) \<Rightarrow> Inr (False, put i val out, s))"

text \<open>The value is recorded only for candidates that are run.\<close>

definition attempt_val :: "'a runner \<Rightarrow> bool \<Rightarrow> s32 \<Rightarrow> nat \<Rightarrow> bytes \<Rightarrow> 'a work \<Rightarrow> (bool \<times> 'a work) res" where
  "attempt_val run ok v i val w = attempt run ok i val (if ok then cur_val v w else w)"

definition arith8_try :: "'a runner \<Rightarrow> nat \<Rightarrow> u8 \<Rightarrow> nat \<Rightarrow> 'a work \<Rightarrow> (bool \<times> 'a work) res" where
  "arith8_try run i orig j w =
     (let c = of_nat j in
      cont (attempt_val run (\<not> could_be_bitflip (ucast (orig XOR (orig + c)))) (of_nat j) i [orig + c] w) (\<lambda>w.
      cont (attempt_val run (\<not> could_be_bitflip (ucast (orig XOR (orig - c)))) (- of_nat j) i [orig - c] w)
        (restore i [orig])))"

definition arith8_body :: "'a runner \<Rightarrow> bool list \<Rightarrow> nat \<Rightarrow> 'a work \<Rightarrow> (bool \<times> 'a work) res" where
  "arith8_body run eff i w =
     (case w of (out, s) \<Rightarrow>
        if \<not> eff ! EFF_APOS i then Inr (False, out, drop_slots (2 * ARITH_MAX) s)
        else for_each [1..<Suc ARITH_MAX] (arith8_try run i (out ! i)) (out, set_byte i s))"

definition arith8 :: "'a runner \<Rightarrow> bool list \<Rightarrow> 'a work \<Rightarrow> (bool \<times> 'a work) res" where
  "arith8 run eff w =
     (let len = length (fst w) in
      staged STAGE_ARITH8 ''arith8'' (of_nat (2 * len * ARITH_MAX)) (for_each [0..<len] (arith8_body run eff))
        (val_type_is STAGE_VAL_LE w))"

definition arith16_try :: "'a runner \<Rightarrow> nat \<Rightarrow> u16 \<Rightarrow> nat \<Rightarrow> 'a work \<Rightarrow> (bool \<times> 'a work) res" where
  "arith16_try run i orig j w =
     (let c = of_nat j;
          v1 = orig + c; v2 = orig - c; v3 = SWAP16 (SWAP16 orig + c); v4 = SWAP16 (SWAP16 orig - c);
          flip = (\<lambda>v. could_be_bitflip (ucast (orig XOR v)))
      in
      cont (attempt_val run (unat (orig AND 0xff) + j > 0xff \<and> \<not> flip v1) (of_nat j) i (st16 v1)
              (val_type_is STAGE_VAL_LE w)) (\<lambda>w.
      cont (attempt_val run (unat (orig AND 0xff) < j \<and> \<not> flip v2) (- of_nat j) i (st16 v2) w) (\<lambda>w.
      cont (attempt_val run (unat (drop_bit 8 orig) + j > 0xff \<and> \<not> flip v3) (of_nat j) i (st16 v3)
              (val_type_is STAGE_VAL_BE w)) (\<lambda>w.
      cont (attempt_val run (unat (drop_bit 8 orig) < j \<and> \<not> flip v4) (- of_nat j) i (st16 v4) w)
        (restore i (st16 orig))))))"

definition arith16_body :: "'a runner \<Rightarrow> bool list \<Rightarrow> nat \<Rightarrow> 'a work \<Rightarrow> (bool \<times> 'a work) res" where
  "arith16_body run eff i w =
     (case w of (out, s) \<Rightarrow>
        if \<not> eff_any eff i 2 then Inr (False, out, drop_slots (4 * ARITH_MAX) s)
        else for_each [1..<Suc ARITH_MAX] (arith16_try run i (ld16 (drop i out))) (out, set_byte i s))"

definition arith16 :: "'a runner \<Rightarrow> bool list \<Rightarrow> 'a work \<Rightarrow> (bool \<times> 'a work) res" where
  "arith16 run eff w =
     (let len = length (fst w) in
      staged STAGE_ARITH16 ''arith16'' (of_nat (4 * (len - 1) * ARITH_MAX))
        (for_each [0..<len - 1] (arith16_body run eff)) w)"

definition arith32_try :: "'a runner \<Rightarrow> nat \<Rightarrow> u32 \<Rightarrow> nat \<Rightarrow> 'a work \<Rightarrow> (bool \<times> 'a work) res" where
  "arith32_try run i orig j w =
     (let c = of_nat j;
          v1 = orig + c; v2 = orig - c; v3 = SWAP32 (SWAP32 orig + c); v4 = SWAP32 (SWAP32 orig - c);
          flip = (\<lambda>v. could_be_bitflip (orig XOR v))
      in
      cont (attempt_val run ((orig AND 0xffff) + c > 0xffff \<and> \<not> flip v1) (of_nat j) i (st32 v1)
              (val_type_is STAGE_VAL_LE w)) (\<lambda>w.
      cont (attempt_val run ((orig AND 0xffff) < c \<and> \<not> flip v2) (- of_nat j) i (st32 v2) w) (\<lambda>w.
      cont (attempt_val run ((SWAP32 orig AND 0xffff) + c > 0xffff \<and> \<not> flip v3) (of_nat j) i (st32 v3)
              (val_type_is STAGE_VAL_BE w)) (\<lambda>w.
      cont (attempt_val run ((SWAP32 orig AND 0xffff) < c \<and> \<not> flip v4) (- of_nat j) i (st32 v4) w)
        (restore i (st32 orig))))))"

definition arith32_body :: "'a runner \<Rightarrow> bool list \<Rightarrow> nat \<Rightarrow> 'a work \<Rightarrow> (bool \<times> 'a work) res" where
  "arith32_body run eff i w =
     (case w of (out, s) \<Rightarrow>
        if \<not> eff_any eff i 4 then Inr (False, out, drop_slots (4 * ARITH_MAX) s)
        else for_each [1..<Suc ARITH_MAX] (arith32_try run i (ld32 (drop i out))) (out, set_byte i s))"

definition arith32 :: "'a runner \<Rightarrow> bool list \<Rightarrow> 'a work \<Rightarrow> (bool \<times> 'a work) res" where
  "arith32 run eff w =
     (let len = length (fst w) in
      staged STAGE_ARITH32 ''arith32'' (of_nat (4 * (len - 3) * ARITH_MAX))
        (for_each [0..<len - 3] (arith32_body run eff)) w)"

subsection \<open>Interesting values\<close>

definition interest8_try :: "'a runner \<Rightarrow> nat \<Rightarrow> u8 \<Rightarrow> u8 \<Rightarrow> 'a work \<Rightarrow> (bool \<times> 'a work) res" where
  "interest8_try run i orig v w =
     (if could_be_bitflip (ucast (orig XOR v)) \<or> could_be_arith (ucast orig) (ucast v) 1
      then attempt_val run False 0 i [v] w
      else cont (attempt_val run True (scast v) i [v] w) (restore i [orig]))"

definition interest8_body :: "'a runner \<Rightarrow> bool list \<Rightarrow> nat \<Rightarrow> 'a work \<Rightarrow> (bool \<times> 'a work) res" where
  "interest8_body run eff i w =
     (case w of (out, s) \<Rightarrow>
        if \<not> eff ! EFF_APOS i then Inr (False, out, drop_slots (length interesting_8) s)
        else for_each interesting_8 (interest8_try run i (out ! i)) (out, set_byte i s))"

definition interest8 :: "'a runner \<Rightarrow> bool list \<Rightarrow> 'a work \<Rightarrow> (bool \<times> 'a work) res" where
  "interest8 run eff w =
     (let len = length (fst w) in
      staged STAGE_INTEREST8 ''int8'' (of_nat (len * length interesting_8))
        (for_each [0..<len] (interest8_body run eff)) (val_type_is STAGE_VAL_LE w))"

text \<open>\<open>stage_val_type\<close> changes only when the candidate is run.\<close>

definition attempt_typed :: "'a runner \<Rightarrow> bool \<Rightarrow> val_type \<Rightarrow> nat \<Rightarrow> bytes \<Rightarrow> 'a work \<Rightarrow> (bool \<times> 'a work) res" where
  "attempt_typed run ok t i val w = attempt run ok i val (if ok then val_type_is t w else w)"

definition interest16_try :: "'a runner \<Rightarrow> nat \<Rightarrow> u16 \<Rightarrow> u16 \<Rightarrow> 'a work \<Rightarrow> (bool \<times> 'a work) res" where
  "interest16_try run i orig v w =
     (let fresh = (\<lambda>v check_le. \<not> could_be_bitflip (ucast (orig XOR v)) \<and>
                     \<not> could_be_arith (ucast orig) (ucast v) 2 \<and>
                     \<not> could_be_interest (ucast orig) (ucast v) 2 check_le)
      in
      cont (attempt_typed run (fresh v False) STAGE_VAL_LE i (st16 v) (cur_val (scast v) w)) (\<lambda>w.
      attempt_typed run (v \<noteq> SWAP16 v \<and> fresh (SWAP16 v) True) STAGE_VAL_BE i (st16 (SWAP16 v)) w))"

definition interest16_body :: "'a runner \<Rightarrow> bool list \<Rightarrow> nat \<Rightarrow> 'a work \<Rightarrow> (bool \<times> 'a work) res" where
  "interest16_body run eff i w =
     (case w of (out, s) \<Rightarrow>
        if \<not> eff_any eff i 2 then Inr (False, out, drop_slots (2 * length interesting_16) s)
        else cont (for_each interesting_16 (interest16_try run i (ld16 (drop i out))) (out, set_byte i s))
               (restore i (slice i 2 out)))"

definition interest16 :: "'a runner \<Rightarrow> bool list \<Rightarrow> 'a work \<Rightarrow> (bool \<times> 'a work) res" where
  "interest16 run eff w =
     (let len = length (fst w) in
      staged STAGE_INTEREST16 ''int16'' (of_nat (2 * (len - 1) * length interesting_16))
        (for_each [0..<len - 1] (interest16_body run eff)) w)"

definition interest32_try :: "'a runner \<Rightarrow> nat \<Rightarrow> u32 \<Rightarrow> u32 \<Rightarrow> 'a work \<Rightarrow> (bool \<times> 'a work) res" where
  "interest32_try run i orig v w =
     (let fresh = (\<lambda>v check_le. \<not> could_be_bitflip (orig XOR v) \<and> \<not> could_be_arith orig v 4 \<and>
                     \<not> could_be_interest orig v 4 check_le)
      in
      cont (attempt_typed run (fresh v False) STAGE_VAL_LE i (st32 v) (cur_val v w)) (\<lambda>w.
      attempt_typed run (v \<noteq> SWAP32 v \<and> fresh (SWAP32 v) True) STAGE_VAL_BE i (st32 (SWAP32 v)) w))"

definition interest32_body :: "'a runner \<Rightarrow> bool list \<Rightarrow> nat \<Rightarrow> 'a work \<Rightarrow> (bool \<times> 'a work) res" where
  "interest32_body run eff i w =
     (case w of (out, s) \<Rightarrow>
        if \<not> eff_any eff i 4 then Inr (False, out, drop_slots (2 * length interesting_32) s)
        else cont (for_each interesting_32 (interest32_try run i (ld32 (drop i out))) (out, set_byte i s))
               (restore i (slice i 4 out)))"

definition interest32 :: "'a runner \<Rightarrow> bool list \<Rightarrow> 'a work \<Rightarrow> (bool \<times> 'a work) res" where
  "interest32 run eff w =
     (let len = length (fst w) in
      staged STAGE_INTEREST32 ''int32'' (of_nat (2 * (len - 3) * length interesting_32))
        (for_each [0..<len - 3] (interest32_body run eff)) w)"

end
