(* ===== verification/DictStages.thy ===== *)
theory DictStages
  imports Stages
begin

section \<open>The deterministic stages over the dictionaries\<close>

text \<open>
  Overwriting with and inserting of the user's extras, and overwriting with the automatic extras:
  the end of the deterministic part of \<open>fuzz_one\<close> in \<open>src/afl/hybrid_metric/afl-fuzz.c\<close>. The
  loops index \<open>extras\<close> and \<open>a_extras\<close> of the globals.
\<close>

definition MAX_DET_EXTRAS :: nat where "MAX_DET_EXTRAS = 200"
definition MAX_FILE :: nat where "MAX_FILE = 1024 * 1024"

text \<open>\<open>memchr(eff_map + EFF_APOS(i), 1, EFF_SPAN_ALEN(i, n))\<close>.\<close>

definition eff_span :: "bool list \<Rightarrow> nat \<Rightarrow> nat \<Rightarrow> bool" where
  "eff_span eff i n \<longleftrightarrow> (\<exists>k \<in> set [EFF_APOS i..<EFF_APOS i + EFF_SPAN_ALEN i n]. eff ! k)"

text \<open>
  One token at one offset; \<open>last_len\<close> is the length of the last token written there. The token is
  skipped when it does not fit, is there already or spans no effector byte.
\<close>

definition over_try :: "'a runner \<Rightarrow> bool list \<Rightarrow> nat \<Rightarrow> bytes \<Rightarrow> (bytes \<times> nat) \<times> 'a stage_st_scheme \<Rightarrow>
    (bool \<times> (bytes \<times> nat) \<times> 'a stage_st_scheme) res" where
  "over_try run eff i d w =
     (case w of ((out, last_len), s) \<Rightarrow>
        if length d > length out - i \<or> slice i (length d) out = d \<or> \<not> eff_span eff i (length d) then
          Inr (False, (out, last_len), drop_slots 1 s)
        else
          (let out1 = put i d out in
           bnd (run out1 s) (\<lambda>(stop, s').
             if stop then Inr (True, (out1, length d), s')
             else Inr (False, (out1, length d), s'\<lparr>stage_cur := stage_cur s' + 1\<rparr>))))"

text \<open>More than \<open>MAX_DET_EXTRAS\<close> user tokens are drawn at random, before the other tests.\<close>

definition user_over_try :: "env \<Rightarrow> 'a runner \<Rightarrow> bool list \<Rightarrow> nat \<Rightarrow> nat \<Rightarrow>
    (bytes \<times> nat) \<times> 'a stage_st_scheme \<Rightarrow> (bool \<times> (bytes \<times> nat) \<times> 'a stage_st_scheme) res" where
  "user_over_try E run eff i j w =
     (case w of (x, s) \<Rightarrow>
        if length (extras s) > MAX_DET_EXTRAS then
          bnd (UR E (of_nat (length (extras s))) s) (\<lambda>(r, s1).
            if unat r \<ge> MAX_DET_EXTRAS then Inr (False, x, drop_slots 1 s1)
            else over_try run eff i (x_data (extras s1 ! j)) (x, s1))
        else over_try run eff i (x_data (extras s ! j)) (x, s))"

definition auto_over_try :: "'a runner \<Rightarrow> bool list \<Rightarrow> nat \<Rightarrow> nat \<Rightarrow>
    (bytes \<times> nat) \<times> 'a stage_st_scheme \<Rightarrow> (bool \<times> (bytes \<times> nat) \<times> 'a stage_st_scheme) res" where
  "auto_over_try run eff i j w = over_try run eff i (x_data (a_extras (snd w) ! j)) w"

text \<open>One offset: all tokens, then the clobbered bytes are restored from \<open>in_buf\<close>.\<close>

definition over_body :: "(nat \<Rightarrow> nat \<Rightarrow> (bytes \<times> nat) \<times> 'a stage_st_scheme \<Rightarrow>
      (bool \<times> (bytes \<times> nat) \<times> 'a stage_st_scheme) res) \<Rightarrow> nat \<Rightarrow> bytes \<Rightarrow> nat \<Rightarrow> 'a work \<Rightarrow>
    (bool \<times> 'a work) res" where
  "over_body try n in_buf i w =
     (case w of (out, s) \<Rightarrow>
        bnd (for_each [0..<n] (try i) ((out, 0), set_byte i s)) (\<lambda>(stop, (out', last_len), s').
          if stop then Inr (True, out', s')
          else Inr (False, put i (slice i last_len in_buf) out', s')))"

definition extras_over :: "env \<Rightarrow> 'a runner \<Rightarrow> bool list \<Rightarrow> bytes \<Rightarrow> 'a work \<Rightarrow> (bool \<times> 'a work) res" where
  "extras_over E run eff in_buf w =
     (let len = length (fst w); n = length (extras (snd w)) in
      staged STAGE_EXTRAS_UO ''ext_UO'' (of_nat (n * len))
        (for_each [0..<len] (over_body (user_over_try E run eff) n in_buf)) (val_type_is STAGE_VAL_NONE w))"

definition auto_extras_over :: "'a runner \<Rightarrow> bool list \<Rightarrow> bytes \<Rightarrow> 'a work \<Rightarrow> (bool \<times> 'a work) res" where
  "auto_extras_over run eff in_buf w =
     (let len = length (fst w); n = min (length (a_extras (snd w))) USE_AUTO_EXTRAS in
      staged STAGE_EXTRAS_AO ''ext_AO'' (of_nat (n * len))
        (for_each [0..<len] (over_body (auto_over_try run eff) n in_buf)) (val_type_is STAGE_VAL_NONE w))"

text \<open>
  Insertion: \<open>ex_tmp\<close> holds the head of \<open>out_buf\<close> up to the offset. After the last offset the loop
  still copies \<open>out_buf[len]\<close>, the canary byte that \<open>ck_alloc\<close> puts behind the buffer
  (\<open>ALLOC_MAGIC_C2\<close> of \<open>src/afl/alloc-inl.h\<close>).
\<close>

definition ALLOC_MAGIC_C2 :: u8 where "ALLOC_MAGIC_C2 = 0xF0"

definition insert_try :: "'a runner \<Rightarrow> bytes \<Rightarrow> nat \<Rightarrow> nat \<Rightarrow> bytes \<times> 'a stage_st_scheme \<Rightarrow>
    (bool \<times> bytes \<times> 'a stage_st_scheme) res" where
  "insert_try run out i j w =
     (case w of (ex_tmp, s) \<Rightarrow>
        let d = x_data (extras s ! j); len = length out in
        if len + length d > MAX_FILE then Inr (False, ex_tmp, drop_slots 1 s)
        else
          (let ex1 = put (i + length d) (drop i out) (put i d ex_tmp) in
           bnd (run (take (len + length d) ex1) s) (\<lambda>(stop, s').
             if stop then Inr (True, ex1, s')
             else Inr (False, ex1, s'\<lparr>stage_cur := stage_cur s' + 1\<rparr>))))"

definition insert_body :: "'a runner \<Rightarrow> bytes \<Rightarrow> nat \<Rightarrow> nat \<Rightarrow> bytes \<times> 'a stage_st_scheme \<Rightarrow>
    (bool \<times> bytes \<times> 'a stage_st_scheme) res" where
  "insert_body run out n i w =
     (case w of (ex_tmp, s) \<Rightarrow>
        cont (for_each [0..<n] (insert_try run out i) (ex_tmp, set_byte i s)) (\<lambda>(ex', s').
          Inr (False, ex'[i := if i < length out then out ! i else ALLOC_MAGIC_C2], s')))"

definition extras_insert :: "'a runner \<Rightarrow> 'a work \<Rightarrow> (bool \<times> 'a work) res" where
  "extras_insert run w =
     (case w of (out, s) \<Rightarrow>
        let len = length out; n = length (extras s) in
        bnd (staged STAGE_EXTRAS_UI ''ext_UI'' (of_nat (n * len))
               (for_each [0..<Suc len] (insert_body run out n)) (replicate (len + MAX_DICT_FILE) 0, s))
          (\<lambda>(stop, ex_tmp, s'). Inr (stop, out, s')))"

text \<open>
  The deterministic stages in order; \<open>no_arith\<close> and the length decide what is skipped. The entry
  is \<open>queue_cur\<close> = \<open>q\<close>.
\<close>

definition unless :: "bool \<Rightarrow> ('s \<Rightarrow> (bool \<times> 's) res) \<Rightarrow> 's \<Rightarrow> (bool \<times> 's) res" where
  "unless b m w = (if b then Inr (False, w) else m w)"

definition bitflips :: "env \<Rightarrow> nat \<Rightarrow> 'a runner \<Rightarrow> 'a work \<Rightarrow> (bool \<times> (bytes \<times> bool list) \<times> 'a stage_st_scheme) res" where
  "bitflips E q run w =
     bnd (cont (bitflip1 E q run w) (\<lambda>w. cont (bitflip2 run w) (bitflip4 run))) (\<lambda>(stop, out, s).
       if stop then Inr (True, (out, []), s)
       else
         cont (byteflip1 q run (out, s)) (\<lambda>((out, eff), s).
         let len = length out in
         bnd (unless (len < 2) (\<lambda>w. cont (byteflip2 run eff w) (unless (len < 4) (byteflip4 run eff))) (out, s))
           (\<lambda>(stop, out, s). Inr (stop, (out, eff), s))))"

definition ariths :: "bool \<Rightarrow> 'a runner \<Rightarrow> bool list \<Rightarrow> 'a work \<Rightarrow> (bool \<times> 'a work) res" where
  "ariths noar run eff w =
     (let len = length (fst w) in
      unless noar (\<lambda>w. cont (arith8 run eff w) (unless (len < 2) (\<lambda>w.
        cont (arith16 run eff w) (unless (len < 4) (arith32 run eff))))) w)"

definition interests :: "bool \<Rightarrow> 'a runner \<Rightarrow> bool list \<Rightarrow> 'a work \<Rightarrow> (bool \<times> 'a work) res" where
  "interests noar run eff w =
     (let len = length (fst w) in
      cont (interest8 run eff w) (unless (noar \<or> len < 2) (\<lambda>w.
        cont (interest16 run eff w) (unless (len < 4) (interest32 run eff)))))"

definition dictionary :: "env \<Rightarrow> 'a runner \<Rightarrow> bool list \<Rightarrow> bytes \<Rightarrow> 'a work \<Rightarrow> (bool \<times> 'a work) res" where
  "dictionary E run eff in_buf w =
     cont (unless (extras (snd w) = []) (\<lambda>w. cont (extras_over E run eff in_buf w) (extras_insert run)) w) (\<lambda>w.
       unless (a_extras (snd w) = []) (auto_extras_over run eff in_buf) w)"

definition deterministic :: "env \<Rightarrow> nat \<Rightarrow> bool \<Rightarrow> 'a runner \<Rightarrow> bytes \<Rightarrow> 'a work \<Rightarrow> (bool \<times> 'a work) res" where
  "deterministic E q noar run in_buf w =
     bnd (bitflips E q run w) (\<lambda>(stop, (out, eff), s).
       if stop then Inr (True, out, s)
       else cont (ariths noar run eff (out, s)) (\<lambda>w.
            cont (interests noar run eff w) (dictionary E run eff in_buf)))"

end
