(* ===== verification/Havoc.thy ===== *)
theory Havoc
  imports Energy DictStages
begin

unbundle bit_operations_syntax

section \<open>Random havoc\<close>

text \<open>
  The havoc stage of \<open>fuzz_one\<close> (\<open>src/afl/hybrid_metric/afl-fuzz.c\<close>): stacked random tweaks of
  the buffer. \<open>temp_len\<close> is the length of the buffer, which a tweak may change. Where an argument
  holds two calls of \<open>UR\<close>, the one of the offset is taken first, as the source lists them.
\<close>

type_synonym 'a tweak = "bytes \<Rightarrow> 'a stage_st_scheme \<Rightarrow> (bytes \<times> 'a stage_st_scheme) res"

text \<open>A draw below a length.\<close>

definition UR_nat :: "env \<Rightarrow> nat \<Rightarrow> 'a world_scheme \<Rightarrow> (nat \<times> 'a world_scheme) res" where
  "UR_nat E n s = bnd (UR E (of_nat n) s) (\<lambda>(r, s'). Inr (unat r, s'))"

definition tweak_flip :: "env \<Rightarrow> 'a tweak" where
  "tweak_flip E out s = bnd (UR_nat E (8 * length out) s) (\<lambda>(b, s). Inr (FLIP_BIT out b, s))"

definition tweak_int8 :: "env \<Rightarrow> 'a tweak" where
  "tweak_int8 E out s =
     bnd (UR_nat E (length out) s) (\<lambda>(p, s).
     bnd (UR_nat E (length interesting_8) s) (\<lambda>(k, s). Inr (out[p := interesting_8 ! k], s)))"

text \<open>A word of \<open>n\<close> bytes at a random offset, in random byte order; short buffers are left alone.\<close>

definition tweak_int16 :: "env \<Rightarrow> 'a tweak" where
  "tweak_int16 E out s =
     (if length out < 2 then Inr (out, s)
      else
        bnd (UR E 2 s) (\<lambda>(le, s).
        bnd (UR_nat E (length out - 1) s) (\<lambda>(p, s).
        bnd (UR_nat E (length interesting_16) s) (\<lambda>(k, s).
          let v = interesting_16 ! k in Inr (put p (st16 (if le \<noteq> 0 then v else SWAP16 v)) out, s)))))"

definition tweak_int32 :: "env \<Rightarrow> 'a tweak" where
  "tweak_int32 E out s =
     (if length out < 4 then Inr (out, s)
      else
        bnd (UR E 2 s) (\<lambda>(le, s).
        bnd (UR_nat E (length out - 3) s) (\<lambda>(p, s).
        bnd (UR_nat E (length interesting_32) s) (\<lambda>(k, s).
          let v = interesting_32 ! k in Inr (put p (st32 (if le \<noteq> 0 then v else SWAP32 v)) out, s)))))"

text \<open>\<open>sub\<close>: subtract instead of add.\<close>

definition plus_minus :: "bool \<Rightarrow> 'b::len word \<Rightarrow> 'b word \<Rightarrow> 'b word" where
  "plus_minus sub a b = (if sub then a - b else a + b)"

definition tweak_add8 :: "bool \<Rightarrow> env \<Rightarrow> 'a tweak" where
  "tweak_add8 sub E out s =
     bnd (UR_nat E (length out) s) (\<lambda>(p, s).
     bnd (UR E (of_nat ARITH_MAX) s) (\<lambda>(n, s). Inr (out[p := plus_minus sub (out ! p) (1 + ucast n)], s)))"

definition tweak_add16 :: "bool \<Rightarrow> env \<Rightarrow> 'a tweak" where
  "tweak_add16 sub E out s =
     (if length out < 2 then Inr (out, s)
      else
        bnd (UR E 2 s) (\<lambda>(le, s).
        bnd (UR_nat E (length out - 1) s) (\<lambda>(p, s).
        bnd (UR E (of_nat ARITH_MAX) s) (\<lambda>(n, s).
          let num = 1 + ucast n; v = ld16 (drop p out) in
          Inr (put p (st16 (if le \<noteq> 0 then plus_minus sub v num
                            else SWAP16 (plus_minus sub (SWAP16 v) num))) out, s)))))"

definition tweak_add32 :: "bool \<Rightarrow> env \<Rightarrow> 'a tweak" where
  "tweak_add32 sub E out s =
     (if length out < 4 then Inr (out, s)
      else
        bnd (UR E 2 s) (\<lambda>(le, s).
        bnd (UR_nat E (length out - 3) s) (\<lambda>(p, s).
        bnd (UR E (of_nat ARITH_MAX) s) (\<lambda>(n, s).
          let num = 1 + n; v = ld32 (drop p out) in
          Inr (put p (st32 (if le \<noteq> 0 then plus_minus sub v num
                            else SWAP32 (plus_minus sub (SWAP32 v) num))) out, s)))))"

definition tweak_xor :: "env \<Rightarrow> 'a tweak" where
  "tweak_xor E out s =
     bnd (UR_nat E (length out) s) (\<lambda>(p, s).
     bnd (UR E 255 s) (\<lambda>(v, s). Inr (out[p := out ! p XOR (1 + ucast v)], s)))"

definition tweak_delete :: "env \<Rightarrow> 'a tweak" where
  "tweak_delete E out s =
     (if length out < 2 then Inr (out, s)
      else
        bnd (choose_block_len E (of_nat (length out - 1)) s) (\<lambda>(n, s).
        let del_len = unat n in
        bnd (UR_nat E (length out - del_len + 1) s) (\<lambda>(from, s).
          Inr (take from out @ drop (from + del_len) out, s))))"

text \<open>\<open>UR(2) ? UR(256) : out_buf[UR(temp_len)]\<close>.\<close>

definition fill_byte :: "env \<Rightarrow> bytes \<Rightarrow> 'a world_scheme \<Rightarrow> (u8 \<times> 'a world_scheme) res" where
  "fill_byte E out s =
     bnd (UR E 2 s) (\<lambda>(b, s).
       if b \<noteq> 0 then bnd (UR E 256 s) (\<lambda>(v, s). Inr (ucast v, s))
       else bnd (UR_nat E (length out) s) (\<lambda>(p, s). Inr (out ! p, s)))"

definition tweak_clone :: "env \<Rightarrow> 'a tweak" where
  "tweak_clone E out s =
     (if length out + unat HAVOC_BLK_XL < MAX_FILE then
        bnd (UR E 4 s) (\<lambda>(actually_clone, s).
        bnd (if actually_clone \<noteq> 0 then
               bnd (choose_block_len E (of_nat (length out)) s) (\<lambda>(n, s).
               bnd (UR_nat E (length out - unat n + 1) s) (\<lambda>(from, s). Inr (unat n, from, s)))
             else bnd (choose_block_len E HAVOC_BLK_XL s) (\<lambda>(n, s). Inr (unat n, 0, s)))
          (\<lambda>(clone_len, clone_from, s).
        bnd (UR_nat E (length out) s) (\<lambda>(clone_to, s).
        bnd (if actually_clone \<noteq> 0 then Inr (slice clone_from clone_len out, s)
             else bnd (fill_byte E out s) (\<lambda>(v, s). Inr (replicate clone_len v, s)))
          (\<lambda>(block, s). Inr (take clone_to out @ block @ drop clone_to out, s)))))
      else Inr (out, s))"

definition tweak_copy :: "env \<Rightarrow> 'a tweak" where
  "tweak_copy E out s =
     (if length out < 2 then Inr (out, s)
      else
        bnd (choose_block_len E (of_nat (length out - 1)) s) (\<lambda>(n, s).
        let copy_len = unat n in
        bnd (UR_nat E (length out - copy_len + 1) s) (\<lambda>(copy_from, s).
        bnd (UR_nat E (length out - copy_len + 1) s) (\<lambda>(copy_to, s).
        bnd (UR E 4 s) (\<lambda>(copy, s).
          if copy \<noteq> 0 then Inr (put copy_to (slice copy_from copy_len out) out, s)
          else bnd (fill_byte E out s) (\<lambda>(v, s). Inr (put copy_to (replicate copy_len v) out, s)))))))"

text \<open>Which of the two dictionaries, and which token.\<close>

definition pick_extra :: "env \<Rightarrow> 'a stage_st_scheme \<Rightarrow> (bytes \<times> 'a stage_st_scheme) res" where
  "pick_extra E s =
     bnd (if extras s = [] then Inr (True, s)
          else if a_extras s \<noteq> [] then bnd (UR E 2 s) (\<lambda>(b, s). Inr (b \<noteq> 0, s))
          else Inr (False, s)) (\<lambda>(auto, s).
     let xs = (if auto then a_extras s else extras s) in
     bnd (UR_nat E (length xs) s) (\<lambda>(k, s). Inr (x_data (xs ! k), s)))"

definition tweak_extra_over :: "env \<Rightarrow> 'a tweak" where
  "tweak_extra_over E out s =
     bnd (pick_extra E s) (\<lambda>(d, s).
       if length d > length out then Inr (out, s)
       else bnd (UR_nat E (length out - length d + 1) s) (\<lambda>(p, s). Inr (put p d out, s)))"

definition tweak_extra_insert :: "env \<Rightarrow> 'a tweak" where
  "tweak_extra_insert E out s =
     bnd (UR_nat E (length out + 1) s) (\<lambda>(p, s).
     bnd (pick_extra E s) (\<lambda>(d, s).
       if length out + length d \<ge> MAX_FILE then Inr (out, s)
       else Inr (take p out @ d @ drop p out, s)))"

text \<open>The switch; the last two cases need a dictionary.\<close>

definition tweak :: "env \<Rightarrow> u32 \<Rightarrow> 'a tweak" where
  "tweak E k out s =
     (if k = 0 then tweak_flip E out s
      else if k = 1 then tweak_int8 E out s
      else if k = 2 then tweak_int16 E out s
      else if k = 3 then tweak_int32 E out s
      else if k = 4 then tweak_add8 True E out s
      else if k = 5 then tweak_add8 False E out s
      else if k = 6 then tweak_add16 True E out s
      else if k = 7 then tweak_add16 False E out s
      else if k = 8 then tweak_add32 True E out s
      else if k = 9 then tweak_add32 False E out s
      else if k = 10 then tweak_xor E out s
      else if k = 11 \<or> k = 12 then tweak_delete E out s
      else if k = 13 then tweak_clone E out s
      else if k = 14 then tweak_copy E out s
      else if k = 15 then tweak_extra_over E out s
      else if k = 16 then tweak_extra_insert E out s
      else Inr (out, s))"

definition one_tweak :: "env \<Rightarrow> 'a tweak" where
  "one_tweak E out s =
     bnd (UR E (15 + (if extras s = [] \<and> a_extras s = [] then 0 else 2)) s) (\<lambda>(k, s). tweak E k out s)"

definition stacked :: "env \<Rightarrow> nat \<Rightarrow> 'a tweak" where
  "stacked E n out s = fold_res (\<lambda>i (out, s). one_tweak E out s) [0..<n] (out, s)"

subsection \<open>The stage\<close>

definition HAVOC_STACK_POW2 :: u32 where "HAVOC_STACK_POW2 = 7"
definition HAVOC_CYCLES :: u32 where "HAVOC_CYCLES = 256"
definition HAVOC_CYCLES_INIT :: u32 where "HAVOC_CYCLES_INIT = 1024"
definition HAVOC_MIN :: s32 where "HAVOC_MIN = 16"
definition SPLICE_HAVOC :: u32 where "SPLICE_HAVOC = 32"

text \<open>
  One run: \<open>2 ^ (1 + UR 7)\<close> tweaks of a fresh copy of \<open>in_buf\<close>; when it queued something, stage
  and score are doubled up to a limit. The first component is \<open>out_buf\<close>, \<open>perf_score\<close> and
  \<open>havoc_queued\<close>.
\<close>

definition havoc_body :: "env \<Rightarrow> 'a runner \<Rightarrow> bytes \<Rightarrow> (bytes \<times> u32 \<times> u32) \<times> 'a stage_st_scheme \<Rightarrow>
    (bool \<times> (bytes \<times> u32 \<times> u32) \<times> 'a stage_st_scheme) res" where
  "havoc_body E run in_buf w =
     (case w of ((out, perf, havoc_queued), s) \<Rightarrow>
        bnd (UR E HAVOC_STACK_POW2 s) (\<lambda>(r, s).
        let use_stacking = 2 ^ (1 + unat r) in
        bnd (stacked E use_stacking out (s\<lparr>stage_cur_val := of_nat use_stacking\<rparr>)) (\<lambda>(out1, s).
        bnd (run out1 s) (\<lambda>(stop, s).
          if stop then Inr (True, (out1, perf, havoc_queued), s)
          else if queued_paths s \<noteq> havoc_queued then
            (if perf \<le> HAVOC_MAX_MULT * 100 then
               Inr (False, (in_buf, perf * 2, queued_paths s), s\<lparr>stage_max := stage_max s * 2\<rparr>)
             else Inr (False, (in_buf, perf, queued_paths s), s))
          else Inr (False, (in_buf, perf, havoc_queued), s)))))"

text \<open>
  The loop runs while \<open>stage_cur < stage_max\<close>. \<open>stage_max\<close> can double only while the score is at
  most 1600, so \<open>havoc_fuel\<close>, the initial \<open>stage_max\<close> doubled twelve times, is enough.
\<close>

definition havoc_fuel :: "s32 \<Rightarrow> nat" where
  "havoc_fuel smax = nat (sint smax) * 4096"

definition havoc_max :: "bool \<Rightarrow> bool \<Rightarrow> u32 \<Rightarrow> u32 \<Rightarrow> s32" where
  "havoc_max splicing doing_det perf hdiv =
     (let m = (if splicing then SPLICE_HAVOC else if doing_det then HAVOC_CYCLES_INIT else HAVOC_CYCLES)
                * perf div hdiv div 100
      in if sint m < sint HAVOC_MIN then HAVOC_MIN else m)"

definition havoc_stage :: "env \<Rightarrow> 'a runner \<Rightarrow> bool \<Rightarrow> bool \<Rightarrow> u32 \<Rightarrow> u32 \<Rightarrow> bytes \<Rightarrow> 'a stage_st_scheme \<Rightarrow>
    (bool \<times> 'a stage_st_scheme) res" where
  "havoc_stage E run splicing doing_det perf hdiv in_buf s0 =
     (if hdiv = 0 then Inl DivByZero
      else
        let smax = havoc_max splicing doing_det perf hdiv;
            s = s0\<lparr>stage_cur_byte := -1\<rparr>
        in bnd (staged (if splicing then STAGE_SPLICE else STAGE_HAVOC) (if splicing then ''splice'' else ''havoc'')
                  smax (stage_loop (havoc_fuel smax) (havoc_body E run in_buf))
                  ((in_buf, perf, queued_paths s), s))
             (\<lambda>(stop, x, s'). Inr (stop, s')))"

end
