(* ===== verification/Exec.thy ===== *)
theory Exec
  imports Extras
begin

unbundle bit_operations_syntax

section \<open>Running the target and keeping what it finds\<close>

text \<open>
  The execution layer of \<open>src/afl/hybrid_metric/afl-fuzz.c\<close>: writing the test case, running the
  target and classifying the outcome (\<open>run_target\<close>), calibration, saving interesting inputs, and
  \<open>common_fuzz_stuff\<close>, the one entry point of all fuzzing stages. The fork server and the child
  are behind \<open>target\<close> of the environment; the content of the test-case file is \<open>testcase\<close>.
  Drawing the screen, the statistics and plot files are output only and left out of
  \<open>show_stats\<close>.
\<close>

subsection \<open>Constants of config.h\<close>

definition EXEC_FAIL_SIG :: u32 where "EXEC_FAIL_SIG = 0xfee1dead"
definition MSAN_ERROR :: u32 where "MSAN_ERROR = 86"
definition CAL_CYCLES :: s32 where "CAL_CYCLES = 8"
definition CAL_CYCLES_LONG :: s32 where "CAL_CYCLES_LONG = 40"
definition CAL_TMOUT_PERC :: u32 where "CAL_TMOUT_PERC = 125"
definition CAL_TMOUT_ADD :: u32 where "CAL_TMOUT_ADD = 50"
definition TMOUT_LIMIT :: u32 where "TMOUT_LIMIT = 250"
definition KEEP_UNIQUE_HANG :: u64 where "KEEP_UNIQUE_HANG = 500"
definition KEEP_UNIQUE_CRASH :: u64 where "KEEP_UNIQUE_CRASH = 5000"

subsection \<open>has_new_bits on the three virgin maps\<close>

definition has_new_bits_main :: "'a exec_st_scheme \<Rightarrow> u8 \<times> 'a exec_st_scheme" where
  "has_new_bits_main s =
     (let (ret, v) = has_new_bits64 (trace_bits s) (virgin_bits s)
      in (ret, s\<lparr>virgin_bits := v, bitmap_changed := (ret \<noteq> 0 \<or> bitmap_changed s)\<rparr>))"

definition has_new_bits_tmout :: "'a exec_st_scheme \<Rightarrow> u8 \<times> 'a exec_st_scheme" where
  "has_new_bits_tmout s =
     (let (ret, v) = has_new_bits64 (trace_bits s) (virgin_tmout s) in (ret, s\<lparr>virgin_tmout := v\<rparr>))"

definition has_new_bits_crash :: "'a exec_st_scheme \<Rightarrow> u8 \<times> 'a exec_st_scheme" where
  "has_new_bits_crash s =
     (let (ret, v) = has_new_bits64 (trace_bits s) (virgin_crash s) in (ret, s\<lparr>virgin_crash := v\<rparr>))"

definition has_new_metric_main :: "'a exec_st_scheme \<Rightarrow> u8 \<times> 'a exec_st_scheme" where
  "has_new_metric_main s =
     (let (ret, v) = has_new_metric (virgin_hybrid s) (hybrid_bits s) in (ret, s\<lparr>virgin_hybrid := v\<rparr>))"

subsection \<open>The test case\<close>

text \<open>An existing \<open>out_file\<close> is unlinked first, so only an uncreatable path fails.\<close>

definition write_to_testcase :: "env \<Rightarrow> bytes \<Rightarrow> 'a exec_st_scheme \<Rightarrow> 'a exec_st_scheme res" where
  "write_to_testcase E mem s =
     (case out_file s of
        Some f \<Rightarrow> if creatable E f then Inr (s\<lparr>testcase := mem\<rparr>)
                  else Inl (Fatal (''Unable to create '' @ f))
      | None \<Rightarrow> Inr (s\<lparr>testcase := mem\<rparr>))"

definition write_with_gap :: "env \<Rightarrow> bytes \<Rightarrow> u32 \<Rightarrow> u32 \<Rightarrow> u32 \<Rightarrow> 'a exec_st_scheme \<Rightarrow>
    'a exec_st_scheme res" where
  "write_with_gap E mem len skip_at skip_len s =
     (let tail_len = len - skip_at - skip_len
      in write_to_testcase E
           (take (unat skip_at) mem @ slice (unat (skip_at + skip_len)) (unat tail_len) mem) s)"

subsection \<open>run_target\<close>

text \<open>The wait-status macros of \<open>sys/wait.h\<close> on Linux.\<close>

definition WTERMSIG :: "u32 \<Rightarrow> u32" where "WTERMSIG status = status AND 0x7f"
definition WIFSIGNALED :: "u32 \<Rightarrow> bool" where
  "WIFSIGNALED status \<longleftrightarrow> WTERMSIG status \<noteq> 0 \<and> WTERMSIG status \<noteq> 0x7f"
definition WEXITSTATUS :: "u32 \<Rightarrow> u32" where "WEXITSTATUS status = drop_bit 8 (status AND 0xff00)"
definition SIGKILL :: u8 where "SIGKILL = 9"
definition SIGUSR2 :: u8 where "SIGUSR2 = 12"

text \<open>
  The target runs once more; an interrupted transfer ends the run early when the user asked to
  stop. \<open>child_timed_out\<close> is what the \<open>SIGALRM\<close> handler leaves.
\<close>

definition run_begin :: "'a exec_st_scheme \<Rightarrow> 'a exec_st_scheme" where
  "run_begin s = s\<lparr>child_timed_out := False, trace_bits := replicate (length (trace_bits s)) 0,
     hybrid_bits := replicate (length (hybrid_bits s)) 0\<rparr>"

definition direct_exec :: "'a exec_st_scheme \<Rightarrow> bool" where
  "direct_exec s \<longleftrightarrow> dumb_mode s = 1 \<or> no_forkserver s"

text \<open>How the finished run is reported.\<close>

definition run_report :: "u32 \<Rightarrow> u32 \<Rightarrow> 'a exec_st_scheme \<Rightarrow> fault \<times> 'a exec_st_scheme" where
  "run_report status tb4 s =
     (let s1 = (if WIFSIGNALED status \<and> \<not> stop_soon s then s\<lparr>kill_signal := ucast (WTERMSIG status)\<rparr>
                else s)
      in if WIFSIGNALED status \<and> \<not> stop_soon s \<and> child_timed_out s1 \<and> kill_signal s1 = SIGKILL then
           (FAULT_TMOUT, s1)
         else if WIFSIGNALED status \<and> \<not> stop_soon s \<and> kill_signal s1 = SIGUSR2 then
           (FAULT_CRASH, s1)
         else if uses_asan s1 \<and> WEXITSTATUS status = MSAN_ERROR then
           (FAULT_TMOUT, s1\<lparr>kill_signal := 0\<rparr>)
         else if direct_exec s1 \<and> tb4 = EXEC_FAIL_SIG then (FAULT_ERROR, s1)
         else (FAULT_NONE, s1))"

definition run_finish :: "run \<Rightarrow> 'a count_st_scheme \<Rightarrow> fault \<times> 'a count_st_scheme" where
  "run_finish r s =
     (let s1 = s\<lparr>total_execs := total_execs s + 1\<rparr>;
          tb4 = ld32 (trace_bits s1);
          s2 = s1\<lparr>trace_bits := classify_counts_with (init_count_class16 (\<lambda>_. 0)) (trace_bits s1),
                  prev_timed_out := child_timed_out s1\<rparr>
      in run_report (r_status r) tb4 s2)"

definition run_target :: "env \<Rightarrow> u32 \<Rightarrow> 'a count_st_scheme \<Rightarrow> (fault \<times> 'a count_st_scheme) res" where
  "run_target E timeout s =
     (let s1 = run_begin s;
          r = target E (runs s1) (testcase s1) timeout (prev_timed_out s1);
          s2 = s1\<lparr>runs := Suc (runs s1), stop_soon := (stop_soon s1 \<or> r_stop r),
                  skip_requested := (skip_requested s1 \<or> r_skip r)\<rparr>;
          s3 = s2\<lparr>trace_bits := r_trace r, hybrid_bits := r_hybrid r, child_timed_out := r_timed_out r\<rparr>
      in if direct_exec s then
           (if sint (r_pid r) < 0 then Inl (Fatal ''fork() failed'') else Inr (run_finish r s3))
         else case r_io r of
           Io_request_failed \<Rightarrow>
             if stop_soon s2 then Inr (FAULT_NONE, s2)
             else Inl (Fatal ''Unable to request new process from fork server (OOM?)'')
         | Io_status_failed \<Rightarrow>
             if sint (r_pid r) \<le> 0 then Inl (Fatal ''Fork server is misbehaving (OOM?)'')
             else if stop_soon s2 then Inr (FAULT_NONE, s3)
             else Inl (Fatal ''Unable to communicate with fork server (OOM?)'')
         | Io_ok \<Rightarrow>
             if sint (r_pid r) \<le> 0 then Inl (Fatal ''Fork server is misbehaving (OOM?)'')
             else Inr (run_finish r s3))"

subsection \<open>Periodic work: show_stats\<close>

definition write_bitmap :: "env \<Rightarrow> 'a exec_st_scheme \<Rightarrow> 'a exec_st_scheme res" where
  "write_bitmap E s =
     (if \<not> bitmap_changed s then Inr s
      else create_trunc E (out_dir s @ ''/fuzz_bitmap'') (virgin_bits s) (s\<lparr>bitmap_changed := False\<rparr>))"

definition save_auto_one :: "env \<Rightarrow> nat \<Rightarrow> 'a dict_st_scheme \<Rightarrow> 'a dict_st_scheme res" where
  "save_auto_one E i s =
     create_trunc E (out_dir s @ ''/queue/.state/auto_extras/auto_'' @ dec_pad 6 i)
       (x_data (a_extras s ! i)) s"

definition save_auto :: "env \<Rightarrow> 'a dict_st_scheme \<Rightarrow> 'a dict_st_scheme res" where
  "save_auto E s =
     (if \<not> auto_changed s then Inr s
      else fold_res (save_auto_one E) [0..<min USE_AUTO_EXTRAS (length (a_extras s))]
             (s\<lparr>auto_changed := False\<rparr>))"

text \<open>
  The gate, the refresh rate, the minute-by-minute save and the two stop conditions; the average
  speed is \<open>exec_freq\<close> of the environment, already divided by \<open>UI_TARGET_HZ * 10\<close>.
\<close>

definition stats_save :: "env \<Rightarrow> u64 \<Rightarrow> 'a ui_st_scheme \<Rightarrow> 'a ui_st_scheme res" where
  "stats_save E cur_ms s =
     (if cur_ms - last_stats_ms s > 60 * 1000 then
        bnd (save_auto E (s\<lparr>last_stats_ms := cur_ms\<rparr>)) (write_bitmap E)
      else Inr s)"

definition stats_stop :: "env \<Rightarrow> 'a ui_st_scheme \<Rightarrow> 'a ui_st_scheme" where
  "stats_stop E s =
     (if (dumb_mode s = 0 \<and> cycles_wo_finds s > 100 \<and> pending_not_fuzzed s = 0 \<and> exit_when_done E)
         \<or> (total_crashes s \<noteq> 0 \<and> bench_until_crash E)
      then s\<lparr>stop_soon := True\<rparr> else s)"

definition show_stats :: "env \<Rightarrow> 'a ui_st_scheme \<Rightarrow> 'a ui_st_scheme res" where
  "show_stats E s0 =
     (let (cur_ms, s) = get_cur_time E s0 in
      if cur_ms - last_ms s < 1000 div 5 then Inr s
      else
        let s1 = (if cur_ms - start_time s > 10 * 60 * 1000 then s\<lparr>run_over10m := True\<rparr> else s);
            freq = exec_freq E (ticks s1);
            s2 = s1\<lparr>last_ms := cur_ms, stats_update_freq := (if freq = 0 then 1 else freq)\<rparr>
        in bnd (stats_save E cur_ms s2) (\<lambda>s3. Inr (stats_stop E s3)))"

text \<open>\<open>!(n % stats_update_freq)\<close>.\<close>

definition every :: "u32 \<Rightarrow> 'a ui_st_scheme \<Rightarrow> bool res" where
  "every n s = (if stats_update_freq s = 0 then Inl DivByZero
                else Inr (n mod stats_update_freq s = 0))"

end
