(* ===== verification/Calibrate.thy ===== *)
theory Calibrate
  imports Exec
begin

unbundle bit_operations_syntax

section \<open>Calibration of a test case\<close>

text \<open>
  \<open>calibrate_case\<close> of \<open>src/afl/hybrid_metric/afl-fuzz.c\<close>: the target is run a few times on the
  same input to measure its speed and to find the bytes of the map that vary. The locals of the
  loop are the record \<open>cal_loc\<close>; \<open>goto abort_calibration\<close> is the flag the loop answers with.
  \<open>stage_max\<close> is at most \<open>CAL_CYCLES_LONG\<close>, so 41 units of fuel are enough
  (\<open>cal_loop_total\<close>).
\<close>

record cal_loc =
  first_trace :: bytes
  cal_bits :: u8
  new_hybrid :: u8
  var_detected :: bool

text \<open>The comparison with the first trace: the bytes that differ are marked variable.\<close>

definition differs :: "bytes \<Rightarrow> bytes \<Rightarrow> bytes \<Rightarrow> nat \<Rightarrow> bool" where
  "differs var first cur i \<longleftrightarrow> var ! i = 0 \<and> first ! i \<noteq> cur ! i"

definition cal_mark_var :: "bytes \<Rightarrow> 'a stage_st_scheme \<Rightarrow> 'a stage_st_scheme" where
  "cal_mark_var first s =
     fold (\<lambda>i s. if differs (var_bytes s) first (trace_bits s) i then
                   s\<lparr>var_bytes := (var_bytes s)[i := 1], stage_max := CAL_CYCLES_LONG\<rparr>
                 else s)
       [0..<length (trace_bits s)] s"

definition map_cksum :: "'a exec_st_scheme \<Rightarrow> u32" where
  "map_cksum s = hash32 (trace_bits s) (of_nat (length (trace_bits s))) HASH_CONST"

text \<open>What a run with a new checksum does.\<close>

definition cal_new_cksum :: "nat \<Rightarrow> u32 \<Rightarrow> cal_loc \<Rightarrow> 'a stage_st_scheme \<Rightarrow> cal_loc \<times> 'a stage_st_scheme" where
  "cal_new_cksum q cksum l s =
     (let (hnb, s1) = has_new_bits_main s;
          l1 = (if hnb > cal_bits l then l\<lparr>cal_bits := hnb\<rparr> else l);
          (hnmw, s2) = has_new_metric_main s1;
          l2 = (if hnmw > new_hybrid l1 then l1\<lparr>new_hybrid := hnmw\<rparr> else l1)
      in if exec_cksum (ent s2 q) \<noteq> 0 then
           (l2\<lparr>var_detected := True\<rparr>, cal_mark_var (first_trace l2) s2)
         else
           (l2\<lparr>first_trace := trace_bits s2\<rparr>, upd q (exec_cksum_update (\<lambda>_. cksum)) s2))"

text \<open>One turn of the loop: \<open>True\<close> is \<open>goto abort_calibration\<close>.\<close>

definition cal_cycle :: "env \<Rightarrow> nat \<Rightarrow> bytes \<Rightarrow> u32 \<Rightarrow> bool \<Rightarrow> cal_loc \<Rightarrow> 'a stage_st_scheme \<Rightarrow>
    (bool \<times> fault \<times> cal_loc \<times> 'a stage_st_scheme) res" where
  "cal_cycle E q use_mem use_tmout first_run l s0 =
     bnd (if first_run then Inr s0
          else bnd (every (stage_cur s0) s0) (\<lambda>now. if now then show_stats E s0 else Inr s0)) (\<lambda>s.
     bnd (if unat (q_len (ent s q)) \<le> length use_mem
          then write_to_testcase E (take (unat (q_len (ent s q))) use_mem) s else Inl OutOfBounds) (\<lambda>s.
     bnd (run_target E use_tmout s) (\<lambda>(fault, s).
       if stop_soon s \<or> fault \<noteq> crash_mode s then Inr (True, fault, l, s)
       else if dumb_mode s = 0 \<and> stage_cur s = 0 \<and> count_bytes (trace_bits s) = 0 then
         Inr (True, FAULT_NOINST, l, s)
       else
         let cksum = map_cksum s in
         if exec_cksum (ent s q) \<noteq> cksum then
           (let (l', s') = cal_new_cksum q cksum l s in Inr (False, fault, l', s'))
         else Inr (False, fault, l, s))))"

fun cal_loop :: "env \<Rightarrow> nat \<Rightarrow> bytes \<Rightarrow> u32 \<Rightarrow> bool \<Rightarrow> nat \<Rightarrow> fault \<Rightarrow> cal_loc \<Rightarrow> 'a stage_st_scheme \<Rightarrow>
    (bool \<times> fault \<times> cal_loc \<times> 'a stage_st_scheme) res" where
  "cal_loop E q use_mem use_tmout first_run 0 fault l s = Inl Diverges"
| "cal_loop E q use_mem use_tmout first_run (Suc n) fault l s =
     (if sint (stage_cur s) < sint (stage_max s) then
        bnd (cal_cycle E q use_mem use_tmout first_run l s) (\<lambda>(abort, fault', l', s').
          if abort then Inr (True, fault', l', s')
          else cal_loop E q use_mem use_tmout first_run n fault' l' (s'\<lparr>stage_cur := stage_cur s' + 1\<rparr>))
      else Inr (False, fault, l, s))"

text \<open>The statistics of a completed calibration.\<close>

definition cal_record :: "env \<Rightarrow> nat \<Rightarrow> u64 \<Rightarrow> u32 \<Rightarrow> bool \<Rightarrow> fault \<Rightarrow> cal_loc \<Rightarrow> 'a stage_st_scheme \<Rightarrow>
    fault \<times> 'a stage_st_scheme" where
  "cal_record E q start_us hcap first_run fault l s0 =
     (let (stop_us, s) = get_cur_time_us E s0;
          s1 = s\<lparr>total_cal_us := total_cal_us s + (stop_us - start_us),
                 total_cal_cycles := total_cal_cycles s + scast (stage_max s)\<rparr>;
          size = count_bytes (trace_bits s1);
          s2 = upd q (\<lambda>e. e\<lparr>exec_us := (stop_us - start_us) div scast (stage_max s1),
                            bitmap_size := size, handicap := ucast hcap, cal_failed := 0\<rparr>) s1;
          s3 = s2\<lparr>total_bitmap_size := total_bitmap_size s2 + ucast size,
                  total_bitmap_entries := total_bitmap_entries s2 + 1\<rparr>;
          s4 = update_bitmap_score q s3
      in (if dumb_mode s4 = 0 \<and> first_run \<and> fault = FAULT_NONE \<and> cal_bits l = 0 then FAULT_NOBITS
          else fault, s4))"

text \<open>From the label \<open>abort_calibration\<close> on.\<close>

definition cal_mark :: "env \<Rightarrow> nat \<Rightarrow> cal_loc \<Rightarrow> 'a stage_st_scheme \<Rightarrow> 'a stage_st_scheme res" where
  "cal_mark E q l s =
     (let s1 = (if cal_bits l = 2 \<and> \<not> has_new_cov (ent s q) then
                  (upd q (has_new_cov_update (\<lambda>_. True)) s)\<lparr>queued_with_cov := queued_with_cov s + 1\<rparr>
                else s);
          s2 = (if new_hybrid l = 2 \<and> \<not> has_new_hybrid (ent s1 q) then
                  (upd q (has_new_hybrid_update (\<lambda>_. True)) s1)
                    \<lparr>queued_with_hybrid := queued_with_hybrid s1 + 1\<rparr>
                else s1)
      in if var_detected l then
           (let s3 = s2\<lparr>var_byte_count := count_bytes (var_bytes s2)\<rparr> in
            if var_behavior (ent s3 q) then Inr s3
            else bnd (mark_as_variable E q s3)
                   (\<lambda>s4. Inr (s4\<lparr>queued_variable := queued_variable s4 + 1\<rparr>)))
         else Inr s2)"

definition cal_tmout :: "bool \<Rightarrow> 'a exec_st_scheme \<Rightarrow> u32" where
  "cal_tmout from_queue s =
     (if \<not> from_queue \<or> resuming_fuzz s then
        max (exec_tmout s + CAL_TMOUT_ADD) (exec_tmout s * CAL_TMOUT_PERC div 100)
      else exec_tmout s)"

definition calibrate_case :: "env \<Rightarrow> nat \<Rightarrow> bytes \<Rightarrow> u32 \<Rightarrow> bool \<Rightarrow> 'a stage_st_scheme \<Rightarrow>
    (fault \<times> 'a stage_st_scheme) res" where
  "calibrate_case E q use_mem hcap from_queue s0 =
     (let first_run = (exec_cksum (ent s0 q) = 0);
          old_sc = stage_cur s0; old_sm = stage_max s0;
          use_tmout = cal_tmout from_queue s0;
          s1 = (upd q (\<lambda>e. e\<lparr>cal_failed := cal_failed e + 1\<rparr>) s0)
                 \<lparr>stage_max := (if fast_cal s0 then 3 else CAL_CYCLES)\<rparr>;
          l0 = \<lparr>first_trace = trace_bits s1, cal_bits = 0, new_hybrid = 0, var_detected = False\<rparr>;
          (start_us, s2) = get_cur_time_us E s1
      in bnd (cal_loop E q use_mem use_tmout first_run 41 FAULT_NONE l0 (s2\<lparr>stage_cur := 0\<rparr>))
           (\<lambda>(abort, fault, l, s3).
         let (fault', s4) = (if abort then (fault, s3)
                             else cal_record E q start_us hcap first_run fault l s3)
         in bnd (cal_mark E q l s4) (\<lambda>s5.
              let s6 = s5\<lparr>stage_cur := old_sc, stage_max := old_sm\<rparr> in
              bnd (if first_run then Inr s6 else show_stats E s6) (\<lambda>s7. Inr (fault', s7)))))"

text \<open>\<open>check_map_coverage\<close> only warns: \<open>True\<close> stands for the warning.\<close>

definition check_map_coverage :: "'a queue_st_scheme \<Rightarrow> bool" where
  "check_map_coverage s \<longleftrightarrow>
     \<not> count_bytes (trace_bits s) < 100 \<and>
     (\<forall>i \<in> set [length (trace_bits s) div 2..<length (trace_bits s)]. trace_bits s ! i = 0)"

end
