(* ===== verification/Save.thy ===== *)
theory Save
  imports Calibrate
begin

unbundle bit_operations_syntax

section \<open>Keeping interesting inputs\<close>

text \<open>
  \<open>describe_op\<close>, \<open>write_crash_readme\<close>, \<open>save_if_interesting\<close> and \<open>common_fuzz_stuff\<close> of
  \<open>src/afl/hybrid_metric/afl-fuzz.c\<close>, built without \<open>SIMPLE_FILES\<close>. A file name that does not
  fit the 256 bytes of the static buffer of \<open>describe_op\<close> is \<open>OutOfBounds\<close>.
\<close>

subsection \<open>describe_op\<close>

text \<open>\<open>%+d\<close> and \<open>%u\<close> of a signed value.\<close>

definition dec_signed :: "s32 \<Rightarrow> string" where
  "dec_signed v = (if sint v < 0 then CHR ''-'' # dec (nat (- sint v)) else CHR ''+'' # dec (nat (sint v)))"

definition op_position :: "'a stage_st_scheme \<Rightarrow> string" where
  "op_position s =
     (if sint (stage_cur_byte s) \<ge> 0 then
        '',pos:'' @ dec (unat (stage_cur_byte s)) @
        (if stage_val_type s \<noteq> STAGE_VAL_NONE then
           '',val:'' @ (if stage_val_type s = STAGE_VAL_BE then ''be:'' else '''') @
           dec_signed (stage_cur_val s)
         else '''')
      else '',rep:'' @ dec (unat (stage_cur_val s)))"

definition op_origin :: "'a stage_st_scheme \<Rightarrow> string" where
  "op_origin s =
     (case syncing_party s of
        Some party \<Rightarrow> ''sync:'' @ party @ '',src:'' @ dec_pad 6 (unat (syncing_case s))
      | None \<Rightarrow>
          ''src:'' @ dec_pad 6 (unat (current_entry s)) @
          (if sint (splicing_with s) \<ge> 0 then CHR ''+'' # dec_pad 6 (unat (splicing_with s)) else '''') @
          '',op:'' @ stage_short s @ op_position s)"

definition op_text :: "u8 \<Rightarrow> u8 \<Rightarrow> u8 \<Rightarrow> bool \<Rightarrow> 'a stage_st_scheme \<Rightarrow> string" where
  "op_text hnb hnmw hmmw incorrect s =
     op_origin s @
     (if hnb = 2 then '',+cov'' else '''') @ (if hnmw = 2 then '',+hybrid'' else '''') @
     (if hmmw = 1 then '',+max_hybrid'' else '''') @ (if incorrect then '',+incorrect'' else '''')"

definition describe_op :: "u8 \<Rightarrow> u8 \<Rightarrow> u8 \<Rightarrow> bool \<Rightarrow> 'a stage_st_scheme \<Rightarrow> string res" where
  "describe_op hnb hnmw hmmw incorrect s =
     (if length (op_text hnb hnmw hmmw incorrect s) < 256 then Inr (op_text hnb hnmw hmmw incorrect s)
      else Inl OutOfBounds)"

subsection \<open>save_if_interesting\<close>

definition write_crash_readme :: "env \<Rightarrow> 'a world_scheme \<Rightarrow> 'a world_scheme" where
  "write_crash_readme E s =
     (case create_excl E (out_dir s @ ''/crashes/README.txt'') (readme_text E) s of
        Inl _ \<Rightarrow> s
      | Inr s' \<Rightarrow> s')"

text \<open>\<open>queue_top->field = 1; counter++\<close> under a condition.\<close>

definition mark_top :: "nat \<Rightarrow> u8 \<Rightarrow> u8 \<Rightarrow> u8 \<Rightarrow> bool \<Rightarrow> 'a count_st_scheme \<Rightarrow> 'a count_st_scheme" where
  "mark_top t hnb hnmw hmmw incorrect s =
     (let s1 = (if hnb = 2 then
                  (upd t (has_new_cov_update (\<lambda>_. True)) s)\<lparr>queued_with_cov := queued_with_cov s + 1\<rparr>
                else s);
          s2 = (if hnmw = 2 \<or> hmmw = 1 then
                  (upd t (has_new_hybrid_update (\<lambda>_. True)) s1)
                    \<lparr>queued_with_hybrid := queued_with_hybrid s1 + 1\<rparr>
                else s1)
      in if incorrect then
           (upd t (has_new_incorrect_update (\<lambda>_. True)) s2)
             \<lparr>queued_with_incorrect := queued_with_incorrect s2 + 1\<rparr>
         else s2)"

text \<open>The hybrid tests run only under \<open>TF_switch\<close>.\<close>

definition hybrid_tests :: "'a exec_st_scheme \<Rightarrow> u8 \<times> u8 \<times> bool \<times> 'a exec_st_scheme" where
  "hybrid_tests s =
     (if TF_switch s then
        (let hmmw = has_max_metric (hybrid_bits s) (max_hybrid s);
             (hnmw, s') = has_new_metric_main s
         in (hmmw, hnmw, True, s'))
      else (0, 0, False, s))"

text \<open>The first half: an input whose outcome is the expected one and that has new bits is queued.\<close>

definition queue_find :: "env \<Rightarrow> bytes \<Rightarrow> u8 \<Rightarrow> 'a stage_st_scheme \<Rightarrow> 'a stage_st_scheme res" where
  "queue_find E mem hnb s0 =
     (let (hmmw, hnmw, incorrect, s) = hybrid_tests s0 in
      bnd (describe_op hnb hnmw hmmw incorrect s) (\<lambda>op.
      let fn = out_dir s @ ''/queue/id:'' @ dec_pad 6 (unat (queued_paths s)) @ '','' @ op in
      bnd (add_to_queue E fn (of_nat (length mem)) False s) (\<lambda>s1.
      case queue_top s1 of
        None \<Rightarrow> Inl NullDeref
      | Some t \<Rightarrow>
          let s2 = mark_top t hnb hnmw hmmw incorrect s1;
              s3 = upd t (exec_cksum_update (\<lambda>_. map_cksum s2)) s2
          in bnd (calibrate_case E t mem (ucast (queue_cycle s3 - 1)) False s3) (\<lambda>(res, s4).
             if res = FAULT_ERROR then Inl (Fatal ''Unable to execute target application'')
             else create_excl E fn mem s4))))"

definition keep_expected :: "env \<Rightarrow> bytes \<Rightarrow> fault \<Rightarrow> 'a stage_st_scheme \<Rightarrow>
    (bool \<times> bool \<times> 'a stage_st_scheme) res" where
  "keep_expected E mem fault s =
     (if fault = crash_mode s then
        (let (hnb, s1) = has_new_bits_main s in
         if hnb = 0 then
           Inr (True, False, if crash_mode s1 \<noteq> FAULT_NONE
                             then s1\<lparr>total_crashes := total_crashes s1 + 1\<rparr> else s1)
         else bnd (queue_find E mem hnb s1) (\<lambda>s2. Inr (False, True, s2)))
      else Inr (False, False, s))"

text \<open>The second half: hangs and crashes go to directories of their own.\<close>

definition save_crash :: "env \<Rightarrow> bytes \<Rightarrow> bool \<Rightarrow> 'a stage_st_scheme \<Rightarrow> (bool \<times> 'a stage_st_scheme) res" where
  "save_crash E mem keeping s0 =
     (let s = s0\<lparr>total_crashes := total_crashes s0 + 1\<rparr> in
      if unique_crashes s \<ge> KEEP_UNIQUE_CRASH then Inr (keeping, s)
      else
        let (hnb, s1) = (if dumb_mode s = 0 then
                           has_new_bits_crash (s\<lparr>trace_bits := simplify_trace (trace_bits s)\<rparr>)
                         else (1, s))
        in if hnb = 0 then Inr (keeping, s1)
           else
             let s2 = (if unique_crashes s1 = 0 then write_crash_readme E s1 else s1) in
             bnd (describe_op 0 0 0 False s2) (\<lambda>op.
             let fn = out_dir s2 @ ''/crashes/id:'' @ dec_pad 6 (unat (unique_crashes s2)) @ '',sig:'' @
                      dec_pad 2 (unat (kill_signal s2)) @ '','' @ op;
                 (now, s3) = get_cur_time E (s2\<lparr>unique_crashes := unique_crashes s2 + 1\<rparr>);
                 s4 = s3\<lparr>last_crash_time := now, last_crash_execs := total_execs s3\<rparr>
             in bnd (create_excl E fn mem s4) (\<lambda>s5. Inr (keeping, s5))))"

definition save_hang :: "env \<Rightarrow> bytes \<Rightarrow> bool \<Rightarrow> 'a stage_st_scheme \<Rightarrow> (bool \<times> 'a stage_st_scheme) res" where
  "save_hang E mem keeping s =
     bnd (describe_op 0 0 0 False s) (\<lambda>op.
       let fn = out_dir s @ ''/hangs/id:'' @ dec_pad 6 (unat (unique_hangs s)) @ '','' @ op;
           (now, s1) = get_cur_time E (s\<lparr>unique_hangs := unique_hangs s + 1\<rparr>)
       in bnd (create_excl E fn mem (s1\<lparr>last_hang_time := now\<rparr>)) (\<lambda>s2. Inr (keeping, s2)))"

text \<open>A hang is run again under the larger timeout, which may turn it into a crash.\<close>

definition save_timeout :: "env \<Rightarrow> bytes \<Rightarrow> bool \<Rightarrow> 'a stage_st_scheme \<Rightarrow> (bool \<times> 'a stage_st_scheme) res" where
  "save_timeout E mem keeping s0 =
     (let s = s0\<lparr>total_tmouts := total_tmouts s0 + 1\<rparr> in
      if unique_hangs s \<ge> KEEP_UNIQUE_HANG then Inr (keeping, s)
      else
        let (hnb, s1) = (if dumb_mode s = 0 then
                           has_new_bits_tmout (s\<lparr>trace_bits := simplify_trace (trace_bits s)\<rparr>)
                         else (1, s))
        in if hnb = 0 then Inr (keeping, s1)
           else
             let s2 = s1\<lparr>unique_tmouts := unique_tmouts s1 + 1\<rparr> in
             if exec_tmout s2 < hang_tmout s2 then
               bnd (write_to_testcase E mem s2) (\<lambda>s3.
               bnd (run_target E (hang_tmout s3) s3) (\<lambda>(new_fault, s4).
                 if \<not> stop_soon s4 \<and> new_fault = FAULT_CRASH then save_crash E mem keeping s4
                 else if stop_soon s4 \<or> new_fault \<noteq> FAULT_TMOUT then Inr (keeping, s4)
                 else save_hang E mem keeping s4))
             else save_hang E mem keeping s2)"

definition save_if_interesting :: "env \<Rightarrow> bytes \<Rightarrow> fault \<Rightarrow> 'a stage_st_scheme \<Rightarrow>
    (bool \<times> 'a stage_st_scheme) res" where
  "save_if_interesting E mem fault s0 =
     bnd (keep_expected E mem fault s0) (\<lambda>(fin, keeping, s).
       if fin then Inr (keeping, s)
       else case fault of
         FAULT_TMOUT \<Rightarrow> save_timeout E mem keeping s
       | FAULT_CRASH \<Rightarrow> save_crash E mem keeping s
       | FAULT_ERROR \<Rightarrow> Inl (Fatal ''Unable to execute target application'')
       | _ \<Rightarrow> Inr (keeping, s))"

subsection \<open>common_fuzz_stuff\<close>

text \<open>The part after the post-processor.\<close>

definition fuzz_buffer :: "env \<Rightarrow> bytes \<Rightarrow> 'a stage_st_scheme \<Rightarrow> (bool \<times> 'a stage_st_scheme) res" where
  "fuzz_buffer E out_buf s0 =
     bnd (write_to_testcase E out_buf s0) (\<lambda>s.
     bnd (run_target E (exec_tmout s) s) (\<lambda>(fault, s).
       if stop_soon s then Inr (True, s)
       else
         let over = (fault = FAULT_TMOUT \<and> subseq_tmouts s > TMOUT_LIMIT);
             s1 = s\<lparr>subseq_tmouts := (if fault = FAULT_TMOUT then subseq_tmouts s + 1 else 0)\<rparr>
         in if over then Inr (True, s1\<lparr>cur_skipped_paths := cur_skipped_paths s1 + 1\<rparr>)
            else if skip_requested s1 then
              Inr (True, s1\<lparr>skip_requested := False, cur_skipped_paths := cur_skipped_paths s1 + 1\<rparr>)
            else
              bnd (save_if_interesting E out_buf fault s1) (\<lambda>(kept, s2).
              let s3 = s2\<lparr>queued_discovered := queued_discovered s2 + (if kept then 1 else 0)\<rparr> in
              bnd (every (stage_cur s3) s3) (\<lambda>now.
              bnd (if now \<or> stage_cur s3 + 1 = stage_max s3 then show_stats E s3 else Inr s3)
                (\<lambda>s4. Inr (False, s4))))))"

definition common_fuzz_stuff :: "env \<Rightarrow> bytes \<Rightarrow> 'a stage_st_scheme \<Rightarrow> (bool \<times> 'a stage_st_scheme) res" where
  "common_fuzz_stuff E out_buf s0 =
     (let s = s0\<lparr>tried := tried s0 @ [out_buf]\<rparr> in
      case post_handler E of
        None \<Rightarrow> fuzz_buffer E out_buf s
      | Some handler \<Rightarrow>
          (case handler out_buf of
             None \<Rightarrow> Inr (False, s)
           | Some buf \<Rightarrow> if buf = [] then Inr (False, s) else fuzz_buffer E buf s))"

end
