(* ===== verification/Trim.thy ===== *)
theory Trim
  imports Calibrate Mutate
begin

unbundle bit_operations_syntax

section \<open>Trimming a test case\<close>

text \<open>
  \<open>trim_case\<close> of \<open>src/afl/hybrid_metric/afl-fuzz.c\<close>: chunks of a power-of-two length are cut out
  of the input as long as the checksum of the trace stays the same. The inner loop cuts or
  advances, so \<open>q->len\<close> units of fuel are enough for it; the outer one halves \<open>remove_len\<close>, 32
  units are enough. The name of the stage is shown only and left out.
\<close>

definition TRIM_MIN_BYTES :: u32 where "TRIM_MIN_BYTES = 4"
definition TRIM_START_STEPS :: u32 where "TRIM_START_STEPS = 16"
definition TRIM_END_STEPS :: u32 where "TRIM_END_STEPS = 1024"

record trim_loc =
  t_buf :: bytes
  needs_write :: bool
  clean_trace :: bytes
  clean_hybrid :: "u32 list"
  trim_exec :: u32
  len_p2 :: u32
  trim_fault :: fault

text \<open>\<open>memmove(in_buf + remove_pos, in_buf + remove_pos + trim_avail, move_tail)\<close>.\<close>

definition move_down :: "nat \<Rightarrow> nat \<Rightarrow> nat \<Rightarrow> bytes \<Rightarrow> bytes" where
  "move_down pos avail tail buf = put pos (slice (pos + avail) tail buf) buf"

text \<open>A cut that leaves the checksum alone is made permanent.\<close>

definition trim_accept :: "nat \<Rightarrow> u32 \<Rightarrow> u32 \<Rightarrow> trim_loc \<Rightarrow> 'a stage_st_scheme \<Rightarrow>
    (trim_loc \<times> 'a stage_st_scheme) res" where
  "trim_accept q remove_pos trim_avail l s =
     (let move_tail = q_len (ent s q) - remove_pos - trim_avail;
          s1 = upd q (\<lambda>e. e\<lparr>q_len := q_len e - trim_avail\<rparr>) s
      in case next_p2 (q_len (ent s1 q)) of
           None \<Rightarrow> Inl Diverges
         | Some p \<Rightarrow>
             let l1 = l\<lparr>len_p2 := p,
                        t_buf := move_down (unat remove_pos) (unat trim_avail) (unat move_tail) (t_buf l)\<rparr>
             in Inr (if needs_write l1 then l1
                     else l1\<lparr>needs_write := True, clean_trace := trace_bits s1,
                             clean_hybrid := hybrid_bits s1\<rparr>, s1))"

text \<open>One turn of the inner loop: the flag is \<open>goto abort_trimming\<close>.\<close>

definition trim_step :: "env \<Rightarrow> nat \<Rightarrow> u32 \<Rightarrow> u32 \<Rightarrow> trim_loc \<Rightarrow> 'a stage_st_scheme \<Rightarrow>
    (bool \<times> u32 \<times> trim_loc \<times> 'a stage_st_scheme) res" where
  "trim_step E q remove_len remove_pos l s0 =
     (let trim_avail = min remove_len (q_len (ent s0 q) - remove_pos) in
      bnd (write_with_gap E (t_buf l) (q_len (ent s0 q)) remove_pos trim_avail s0) (\<lambda>s.
      bnd (run_target E (exec_tmout s) s) (\<lambda>(fault, s1).
      let s = s1\<lparr>trim_execs := trim_execs s1 + 1\<rparr>; l = l\<lparr>trim_fault := fault\<rparr> in
      if stop_soon s \<or> fault = FAULT_ERROR then Inr (True, remove_pos, l, s)
      else
        bnd (if map_cksum s = exec_cksum (ent s q) then
               bnd (trim_accept q remove_pos trim_avail l s) (\<lambda>(l', s'). Inr (remove_pos, l', s'))
             else Inr (remove_pos + remove_len, l, s)) (\<lambda>(pos, l, s).
        bnd (every (trim_exec l) s) (\<lambda>now.
        bnd (if now then show_stats E s else Inr s) (\<lambda>s.
        Inr (False, pos, l\<lparr>trim_exec := trim_exec l + 1\<rparr>, s\<lparr>stage_cur := stage_cur s + 1\<rparr>)))))))"

fun trim_inner :: "env \<Rightarrow> nat \<Rightarrow> nat \<Rightarrow> u32 \<Rightarrow> u32 \<Rightarrow> trim_loc \<Rightarrow> 'a stage_st_scheme \<Rightarrow>
    (bool \<times> trim_loc \<times> 'a stage_st_scheme) res" where
  "trim_inner E n q remove_len remove_pos l s =
     (if remove_pos < q_len (ent s q) then
        (case n of
           0 \<Rightarrow> Inl Diverges
         | Suc m \<Rightarrow>
             bnd (trim_step E q remove_len remove_pos l s) (\<lambda>(abort, pos, l', s').
               if abort then Inr (True, l', s') else trim_inner E m q remove_len pos l' s'))
      else Inr (False, l, s))"

declare trim_inner.simps [simp del]

fun trim_outer :: "env \<Rightarrow> nat \<Rightarrow> nat \<Rightarrow> u32 \<Rightarrow> trim_loc \<Rightarrow> 'a stage_st_scheme \<Rightarrow>
    (bool \<times> trim_loc \<times> 'a stage_st_scheme) res" where
  "trim_outer E n q remove_len l s =
     (if remove_len \<ge> max (len_p2 l div TRIM_END_STEPS) TRIM_MIN_BYTES then
        (case n of
           0 \<Rightarrow> Inl Diverges
         | Suc m \<Rightarrow>
             let s1 = s\<lparr>stage_cur := 0, stage_max := q_len (ent s q) div remove_len\<rparr> in
             bnd (trim_inner E (unat (q_len (ent s1 q))) q remove_len remove_len l s1) (\<lambda>(abort, l', s').
               if abort then Inr (True, l', s') else trim_outer E m q (drop_bit 1 remove_len) l' s'))
      else Inr (False, l, s))"

declare trim_outer.simps [simp del]

text \<open>The trimmed input replaces the file, and the entry is scored again on the clean trace.\<close>

definition trim_write :: "env \<Rightarrow> nat \<Rightarrow> trim_loc \<Rightarrow> 'a stage_st_scheme \<Rightarrow> 'a stage_st_scheme res" where
  "trim_write E q l s =
     (if needs_write l then
        (let fn = fname (ent s q);
             s1 = (case unlink_file fn s of None \<Rightarrow> s | Some s' \<Rightarrow> s')
         in bnd (create_excl E fn (take (unat (q_len (ent s1 q))) (t_buf l)) s1) (\<lambda>s2.
              Inr (update_bitmap_score q
                     (s2\<lparr>trace_bits := clean_trace l, hybrid_bits := clean_hybrid l\<rparr>))))
      else Inr s)"

definition trim_case :: "env \<Rightarrow> nat \<Rightarrow> bytes \<Rightarrow> 'a stage_st_scheme \<Rightarrow>
    (fault \<times> bytes \<times> 'a stage_st_scheme) res" where
  "trim_case E q buf s =
     (if q_len (ent s q) < 5 then Inr (FAULT_NONE, buf, s)
      else
        let s1 = s\<lparr>bytes_trim_in := bytes_trim_in s + ucast (q_len (ent s q))\<rparr> in
        case next_p2 (q_len (ent s1 q)) of
          None \<Rightarrow> Inl Diverges
        | Some p \<Rightarrow>
            let remove_len = max (p div TRIM_START_STEPS) TRIM_MIN_BYTES;
                l0 = \<lparr>t_buf = buf, needs_write = False, clean_trace = [], clean_hybrid = [],
                      trim_exec = 0, len_p2 = p, trim_fault = FAULT_NONE\<rparr>
            in bnd (trim_outer E 32 q remove_len l0 s1) (\<lambda>(abort, l, s2).
               bnd (if abort then Inr s2 else trim_write E q l s2) (\<lambda>s3.
                 Inr (trim_fault l, t_buf l,
                      s3\<lparr>bytes_trim_out := bytes_trim_out s3 + ucast (q_len (ent s3 q))\<rparr>))))"

end
