(* ===== verification/Fuzz.thy ===== *)
theory Fuzz
  imports Havoc Save Trim
begin

section \<open>fuzz_one\<close>

text \<open>
  \<open>fuzz_one\<close> of \<open>src/afl/hybrid_metric/afl-fuzz.c\<close>: the decision to skip the entry, the repeated
  calibration, trimming, the score, the deterministic stages, havoc, and splicing with other
  entries. Built without \<open>IGNORE_FINDS\<close>. A file that is shorter than its entry says is
  \<open>OutOfBounds\<close> (the mapping of \<open>mmap\<close> ends before the buffer does).
\<close>

definition SKIP_TO_NEW_PROB :: u32 where "SKIP_TO_NEW_PROB = 99"
definition SKIP_NFAV_OLD_PROB :: u32 where "SKIP_NFAV_OLD_PROB = 95"
definition SKIP_NFAV_NEW_PROB :: u32 where "SKIP_NFAV_NEW_PROB = 75"
definition CAL_CHANCES :: u8 where "CAL_CHANCES = 3"
definition SPLICE_CYCLES :: nat where "SPLICE_CYCLES = 15"

subsection \<open>Skipping\<close>

definition chance :: "env \<Rightarrow> u32 \<Rightarrow> 'a world_scheme \<Rightarrow> (bool \<times> 'a world_scheme) res" where
  "chance E p s = bnd (UR E 100 s) (\<lambda>(r, s'). Inr (r < p, s'))"

definition skip_entry :: "env \<Rightarrow> nat \<Rightarrow> 'a stage_st_scheme \<Rightarrow> (bool \<times> 'a stage_st_scheme) res" where
  "skip_entry E q s =
     (if pending_favored s \<noteq> 0 then
        (if was_fuzzed (ent s q) \<or> \<not> favored (ent s q) then chance E SKIP_TO_NEW_PROB s else Inr (False, s))
      else if dumb_mode s = 0 \<and> \<not> favored (ent s q) \<and> queued_paths s > 10 then
        (if queue_cycle s > 1 \<and> \<not> was_fuzzed (ent s q) then chance E SKIP_NFAV_NEW_PROB s
         else chance E SKIP_NFAV_OLD_PROB s)
      else Inr (False, s))"

subsection \<open>Splicing\<close>

text \<open>\<open>do { tid = UR(queued_paths); } while (tid == current_entry)\<close> ends only with luck.\<close>

partial_function (option) pick_tid :: "env \<Rightarrow> 'a stage_st_scheme \<Rightarrow> (u32 \<times> 'a stage_st_scheme) res option" where
  "pick_tid E s =
     (case UR E (queued_paths s) s of
        Inl e \<Rightarrow> Some (Inl e)
      | Inr (tid, s') \<Rightarrow> if tid = current_entry s' then pick_tid E s' else Some (Inr (tid, s')))"

text \<open>\<open>next_100\<close> steps, then single ones.\<close>

fun seek_entry :: "'a queue_st_scheme \<Rightarrow> nat \<Rightarrow> nat option \<Rightarrow> nat option res" where
  "seek_entry s tid tgt =
     (if tid = 0 then Inr tgt
      else case tgt of
        None \<Rightarrow> Inl NullDeref
      | Some p \<Rightarrow> if tid \<ge> 100 then seek_entry s (tid - 100) (next_100 (ent s p))
                  else seek_entry s (tid - 1) (q_next (ent s p)))"

declare seek_entry.simps [simp del]

text \<open>Entries that are too short, and the current one, are passed over.\<close>

fun skip_short :: "nat \<Rightarrow> nat \<Rightarrow> nat option \<Rightarrow> 'a stage_st_scheme \<Rightarrow> (nat option \<times> 'a stage_st_scheme) res" where
  "skip_short n q None s = Inr (None, s)"
| "skip_short n q (Some p) s =
     (if q_len (ent s p) < 2 \<or> p = q then
        (case n of
           0 \<Rightarrow> Inl Diverges
         | Suc m \<Rightarrow> skip_short m q (q_next (ent s p)) (s\<lparr>splicing_with := splicing_with s + 1\<rparr>))
      else Inr (Some p, s))"

definition read_target :: "nat \<Rightarrow> 'a queue_st_scheme \<Rightarrow> bytes res" where
  "read_target p s =
     (case read_file (fname (ent s p)) s of
        None \<Rightarrow> Inl (Fatal (''Unable to open '' @ fname (ent s p)))
      | Some d \<Rightarrow> if length d < unat (q_len (ent s p)) then Inl (Fatal ''Short read'')
                  else Inr (take (unat (q_len (ent s p))) d))"

text \<open>One attempt: the spliced buffer, or none when the attempt has to be retried.\<close>

definition splice_attempt :: "env \<Rightarrow> nat \<Rightarrow> bytes \<Rightarrow> 'a stage_st_scheme \<Rightarrow>
    (bytes option \<times> 'a stage_st_scheme) res" where
  "splice_attempt E q in_buf s0 =
     bnd (case pick_tid E s0 of None \<Rightarrow> Inl Diverges | Some r \<Rightarrow> r) (\<lambda>(tid, s).
     let s1 = s\<lparr>splicing_with := tid\<rparr> in
     bnd (seek_entry s1 (unat tid) (queue s1)) (\<lambda>tgt.
     bnd (skip_short (length (entries s1)) q tgt s1) (\<lambda>(tgt, s2).
     case tgt of
       None \<Rightarrow> Inr (None, s2)
     | Some p \<Rightarrow>
         bnd (read_target p s2) (\<lambda>new_buf.
         case locate_diffs in_buf new_buf (min (length in_buf) (length new_buf)) of
           (Some f_diff, Some l_diff) \<Rightarrow>
             if l_diff < 2 \<or> f_diff = l_diff then Inr (None, s2)
             else
               bnd (UR_nat E (l_diff - f_diff) s2) (\<lambda>(r, s3).
                 Inr (Some (put 0 (take (f_diff + r) in_buf) new_buf), s3))
         | _ \<Rightarrow> Inr (None, s2)))))"

text \<open>\<open>retry_splicing\<close>: at most \<open>SPLICE_CYCLES\<close> attempts for the whole entry.\<close>

fun splicing :: "env \<Rightarrow> nat \<Rightarrow> bytes \<Rightarrow> nat \<Rightarrow> 'a fuzz_st_scheme \<Rightarrow>
    ((bytes \<times> nat) option \<times> 'a fuzz_st_scheme) res" where
  "splicing E q in_buf left s =
     (if use_splicing s \<and> left > 0 \<and> queued_paths s > 1 \<and> q_len (ent s q) > 1 then
        bnd (splice_attempt E q in_buf s) (\<lambda>(b, s').
          case b of Some buf \<Rightarrow> Inr (Some (buf, left - 1), s')
                  | None \<Rightarrow> splicing E q in_buf (left - 1) s')
      else Inr (None, s))"

declare splicing.simps [simp del]

text \<open>\<open>havoc_stage\<close>, then splicing, then \<open>havoc_stage\<close> on the spliced buffer, and so on.\<close>

fun havoc_rounds :: "env \<Rightarrow> 'a fuzz_st_ext runner \<Rightarrow> nat \<Rightarrow> bool \<Rightarrow> u32 \<Rightarrow> bytes \<Rightarrow> nat \<Rightarrow> bytes \<Rightarrow> nat \<Rightarrow>
    'a fuzz_st_scheme \<Rightarrow> (bool \<times> 'a fuzz_st_scheme) res" where
  "havoc_rounds E run q doing_det perf orig_in 0 in_buf left s = Inl Diverges"
| "havoc_rounds E run q doing_det perf orig_in (Suc n) in_buf left s =
     cont (havoc_stage E run (left < SPLICE_CYCLES) doing_det perf (havoc_div s) in_buf s) (\<lambda>s1.
     bnd (splicing E q orig_in left s1) (\<lambda>(b, s2).
       case b of
         None \<Rightarrow> Inr (False, s2)
       | Some (buf, left') \<Rightarrow> havoc_rounds E run q doing_det perf orig_in n buf left' s2))"

subsection \<open>The whole routine\<close>

text \<open>\<open>mmap\<close> of the test case.\<close>

definition map_entry :: "nat \<Rightarrow> 'a queue_st_scheme \<Rightarrow> bytes res" where
  "map_entry q s =
     (case read_file (fname (ent s q)) s of
        None \<Rightarrow> Inl (Fatal (''Unable to open '' @ fname (ent s q)))
      | Some d \<Rightarrow>
          if q_len (ent s q) = 0 then Inl (Fatal (''Unable to mmap '' @ fname (ent s q)))
          else if length d < unat (q_len (ent s q)) then Inl OutOfBounds
          else Inr (take (unat (q_len (ent s q))) d))"

text \<open>The answer \<open>True\<close> is \<open>goto abandon_entry\<close>.\<close>

definition recalibrate :: "env \<Rightarrow> nat \<Rightarrow> bytes \<Rightarrow> 'a stage_st_scheme \<Rightarrow> (bool \<times> 'a stage_st_scheme) res" where
  "recalibrate E q in_buf s =
     (if cal_failed (ent s q) = 0 then Inr (False, s)
      else
        bnd (if cal_failed (ent s q) < CAL_CHANCES then
               calibrate_case E q in_buf (ucast (queue_cycle s - 1)) False s
             else Inr (FAULT_TMOUT, s)) (\<lambda>(res, s1).
          if res = FAULT_ERROR then Inl (Fatal ''Unable to execute target application'')
          else if stop_soon s1 \<or> res \<noteq> crash_mode s1 then
            Inr (True, s1\<lparr>cur_skipped_paths := cur_skipped_paths s1 + 1\<rparr>)
          else Inr (False, s1)))"

definition trim_entry :: "env \<Rightarrow> nat \<Rightarrow> bytes \<Rightarrow> 'a stage_st_scheme \<Rightarrow>
    (bool \<times> bytes \<times> 'a stage_st_scheme) res" where
  "trim_entry E q in_buf s =
     (if dumb_mode s = 0 \<and> \<not> trim_done (ent s q) then
        bnd (trim_case E q in_buf s) (\<lambda>(res, buf, s1).
          if res = FAULT_ERROR then Inl (Fatal ''Unable to execute target application'')
          else if stop_soon s1 then Inr (True, buf, s1\<lparr>cur_skipped_paths := cur_skipped_paths s1 + 1\<rparr>)
          else Inr (False, take (unat (q_len (ent s1 q))) buf, upd q (trim_done_update (\<lambda>_. True)) s1))
      else Inr (False, in_buf, s))"

definition skip_det :: "nat \<Rightarrow> 'a fuzz_st_scheme \<Rightarrow> bool" where
  "skip_det q s \<longleftrightarrow>
     skip_deterministic s \<or> was_fuzzed (ent s q) \<or> passed_det (ent s q) \<or>
     (master_max s \<noteq> 0 \<and> exec_cksum (ent s q) mod master_max s \<noteq> master_id s - 1)"

definition fuzz_stages :: "env \<Rightarrow> nat \<Rightarrow> bytes \<Rightarrow> 'a fuzz_st_scheme \<Rightarrow> (bool \<times> 'a fuzz_st_scheme) res" where
  "fuzz_stages E q in_buf s0 =
     bnd (calculate_score q s0) (\<lambda>(perf, s).
     let run = common_fuzz_stuff E in
     if skip_det q s then havoc_rounds E run q False perf in_buf (Suc SPLICE_CYCLES) in_buf SPLICE_CYCLES s
     else
       bnd (deterministic E q (no_arith s) run in_buf (in_buf, s)) (\<lambda>(stop, out, s1).
         if stop then Inr (True, s1)
         else
           bnd (if passed_det (ent s1 q) then Inr s1 else mark_as_det_done E q s1) (\<lambda>s2.
             havoc_rounds E run q True perf in_buf (Suc SPLICE_CYCLES) in_buf SPLICE_CYCLES s2)))"

definition abandon_entry :: "nat \<Rightarrow> 'a stage_st_scheme \<Rightarrow> 'a stage_st_scheme" where
  "abandon_entry q s0 =
     (let s = s0\<lparr>splicing_with := -1\<rparr> in
      if \<not> stop_soon s \<and> cal_failed (ent s q) = 0 \<and> \<not> was_fuzzed (ent s q) then
        (let s1 = (upd q (was_fuzzed_update (\<lambda>_. True)) s)\<lparr>pending_not_fuzzed := pending_not_fuzzed s - 1\<rparr>
         in if favored (ent s1 q) then s1\<lparr>pending_favored := pending_favored s1 - 1\<rparr> else s1)
      else s)"

text \<open>The return value: \<open>True\<close> when the entry was skipped or abandoned.\<close>

definition fuzz_one :: "env \<Rightarrow> 'a fuzz_st_scheme \<Rightarrow> (bool \<times> 'a fuzz_st_scheme) res" where
  "fuzz_one E s0 =
     (case queue_cur s0 of
        None \<Rightarrow> Inl NullDeref
      | Some q \<Rightarrow>
          bnd (skip_entry E q s0) (\<lambda>(skip, s).
          if skip then Inr (True, s)
          else
            bnd (map_entry q s) (\<lambda>in_buf.
            let s1 = s\<lparr>subseq_tmouts := 0, cur_depth := ucast (depth (ent s q))\<rparr> in
            bnd (cont (recalibrate E q in_buf s1) (\<lambda>s2.
                 bnd (trim_entry E q in_buf s2) (\<lambda>(stop, buf, s3).
                   if stop then Inr (True, s3) else fuzz_stages E q buf s3)))
              (\<lambda>(stop, s4). Inr (stop, abandon_entry q s4)))))"

end
