(* ===== verification/Mainloop.thy ===== *)
theory Mainloop
  imports Fuzz "HOL-Library.Char_ord" "HOL-Library.List_Lexorder"
begin

section \<open>From the input directory to the main loop\<close>

text \<open>
  Start-up and the main loop of \<open>src/afl/hybrid_metric/afl-fuzz.c\<close>: \<open>read_testcases\<close>,
  \<open>pivot_inputs\<close>, \<open>perform_dry_run\<close>, the settings of \<open>show_init_stats\<close>, \<open>find_start_position\<close>,
  \<open>find_timeout\<close>, \<open>sync_fuzzers\<close> and the loop of \<open>main\<close>. A name in a directory listing without
  a file of its own is a subdirectory. The clean-up after an in-place resume (\<open>nuke_resume_dir\<close>)
  and everything that is only printed are left out.
\<close>

subsection \<open>State\<close>

record main_st = fuzz_st +
  in_dir :: string
  sync_dir :: string
  sync_id :: "string option"
  in_place_resume :: bool
  shuffle_queue :: bool
  timeout_given :: u8
  hang_tmout_set :: bool
  skip_crashes :: bool
  import_first :: bool
  exit_1 :: bool
  queued_at_start :: u32
  queued_imported :: u32
  useless_at_start :: u32
  seek_to :: u32
  prev_queued :: u32
  sync_interval_cnt :: u32

subsection \<open>Strings\<close>

text \<open>\<open>strstr\<close>: the text from the first occurrence on.\<close>

fun strstr :: "string \<Rightarrow> string \<Rightarrow> string option" where
  "strstr hay needle =
     (if take (length needle) hay = needle then Some hay
      else case hay of [] \<Rightarrow> None | c # cs \<Rightarrow> strstr cs needle)"

declare strstr.simps [simp del]

text \<open>\<open>sscanf(s, "%06u", &v) == 1\<close>: at most six characters after white space.\<close>

definition scan_u6 :: "string \<Rightarrow> u32 option" where
  "scan_u6 s =
     (let l = take 6 (skip isspace (bytes_of s));
          neg = (l \<noteq> [] \<and> hd l = 45);
          ds = takeWhile isdigit (if l \<noteq> [] \<and> (hd l = 45 \<or> hd l = 43) then tl l else l)
      in if ds = [] then None
         else Some (of_int (if neg then - digits_val ds else digits_val ds)))"

definition scan_id :: "string \<Rightarrow> u32 option" where
  "scan_id s = (if take 3 s = ''id:'' then scan_u6 (drop 3 s) else None)"

definition base_name :: "string \<Rightarrow> string" where
  "base_name fn = (case after_last CHR ''/'' fn of None \<Rightarrow> fn | Some b \<Rightarrow> b)"

subsection \<open>read_testcases\<close>

definition read_testcase :: "env \<Rightarrow> string \<Rightarrow> string \<Rightarrow> 'a queue_st_scheme \<Rightarrow> 'a queue_st_scheme res" where
  "read_testcase E dir name s =
     (let fn = dir @ ''/'' @ name;
          dfn = dir @ ''/.state/deterministic_done/'' @ name
      in case fs s fn of
           Some (Regular d) \<Rightarrow>
             if d = [] \<or> strstr fn ''/README.txt'' \<noteq> None then Inr s
             else if length d > MAX_FILE then Inl (Fatal (''Test case is too big: '' @ fn))
             else add_to_queue E fn (of_nat (length d)) (fs s dfn \<noteq> None) s
         | _ \<Rightarrow> Inr s)"

definition read_testcases :: "env \<Rightarrow> 'a main_st_scheme \<Rightarrow> 'a main_st_scheme res" where
  "read_testcases E s0 =
     (let sub = in_dir s0 @ ''/queue'';
          s = (if readdir E sub \<noteq> None \<or> fs s0 sub \<noteq> None then s0\<lparr>in_dir := sub\<rparr> else s0)
      in case readdir E (in_dir s) of
           None \<Rightarrow> Inl (Fatal (''Unable to open '' @ in_dir s))
         | Some names \<Rightarrow>
             let nl = sort names in
             bnd (if shuffle_queue s \<and> length nl > 1 then shuffle_ptrs E nl (of_nat (length nl)) s
                  else Inr (nl, s)) (\<lambda>(nl, s).
             bnd (fold_res (read_testcase E (in_dir s)) nl s) (\<lambda>s.
               if queued_paths s = 0 then Inl (Fatal (''No usable test cases in '' @ in_dir s))
               else Inr (s\<lparr>last_path_time := 0, queued_at_start := queued_paths s\<rparr>))))"

subsection \<open>pivot_inputs\<close>

definition link_or_copy :: "env \<Rightarrow> string \<Rightarrow> string \<Rightarrow> 'a world_scheme \<Rightarrow> 'a world_scheme res" where
  "link_or_copy E old_path new_path s =
     (case read_file old_path s of
        None \<Rightarrow> Inl (Fatal (''Unable to open '' @ old_path))
      | Some d \<Rightarrow> create_excl E new_path d s)"

text \<open>\<open>while (src_id-- && s) s = s->next\<close>.\<close>

fun seek_next :: "'a queue_st_scheme \<Rightarrow> nat \<Rightarrow> nat option \<Rightarrow> nat option" where
  "seek_next s (Suc n) (Some p) = seek_next s n (q_next (ent s p))"
| "seek_next s n r = r"

text \<open>The parent named by \<open>src:\<close> gives the depth.\<close>

definition parent_depth :: "nat \<Rightarrow> string \<Rightarrow> 'a queue_st_scheme \<Rightarrow> 'a queue_st_scheme" where
  "parent_depth q rsl s =
     (case dropWhile (\<lambda>c. c \<noteq> CHR '':'') (drop 3 rsl) of
        [] \<Rightarrow> s
      | _ # src_str \<Rightarrow>
          (case scan_u6 src_str of
             None \<Rightarrow> s
           | Some src_id \<Rightarrow>
               let s1 = (case seek_next s (unat src_id) (queue s) of
                           Some p \<Rightarrow> upd q (depth_update (\<lambda>_. depth (ent s p) + 1)) s
                         | None \<Rightarrow> s)
               in if ucast (max_depth s1) < depth (ent s1 q)
                  then s1\<lparr>max_depth := ucast (depth (ent s1 q))\<rparr> else s1))"

definition pivot_input :: "env \<Rightarrow> nat \<Rightarrow> 'a main_st_scheme \<Rightarrow> 'a main_st_scheme res" where
  "pivot_input E q s =
     (let rsl = base_name (fname (ent s q));
          (nfn, s1) =
            (if scan_id rsl = Some (of_nat q) then
               (out_dir s @ ''/queue/'' @ rsl, parent_depth q rsl (s\<lparr>resuming_fuzz := True\<rparr>))
             else
               (let use_name = (case strstr rsl '',orig:'' of Some u \<Rightarrow> drop 6 u | None \<Rightarrow> rsl)
                in (out_dir s @ ''/queue/id:'' @ dec_pad 6 q @ '',orig:'' @ use_name, s)))
      in bnd (link_or_copy E (fname (ent s1 q)) nfn s1) (\<lambda>s2.
         let s3 = upd q (fname_update (\<lambda>_. nfn)) s2 in
         if passed_det (ent s3 q) then mark_as_det_done E q s3 else Inr s3))"

text \<open>The loop variable \<open>id\<close> is the position in the list, which for a well-formed queue is the entry.\<close>

definition pivot_inputs :: "env \<Rightarrow> 'a main_st_scheme \<Rightarrow> 'a main_st_scheme res" where
  "pivot_inputs E s = walk_queue (pivot_input E) s"

subsection \<open>perform_dry_run\<close>

definition tolerate :: "nat \<Rightarrow> u32 \<Rightarrow> 'a queue_st_scheme \<Rightarrow> (u32 \<times> 'a queue_st_scheme) res" where
  "tolerate q failures s = Inr (failures + 1, upd q (cal_failed_update (\<lambda>_. CAL_CHANCES)) s)"

definition dry_verdict :: "nat \<Rightarrow> fault \<Rightarrow> u32 \<Rightarrow> 'a main_st_scheme \<Rightarrow> (u32 \<times> 'a main_st_scheme) res" where
  "dry_verdict q res failures s =
     (case res of
        FAULT_NONE \<Rightarrow> if crash_mode s \<noteq> FAULT_NONE then Inl (Fatal ''Test case does *NOT* crash'')
                       else Inr (failures, s)
      | FAULT_TMOUT \<Rightarrow> if timeout_given s > 1 then tolerate q failures s
                        else Inl (Fatal ''Test case results in a timeout'')
      | FAULT_CRASH \<Rightarrow> if crash_mode s \<noteq> FAULT_NONE then Inr (failures, s)
                        else if skip_crashes s then tolerate q failures s
                        else Inl (Fatal ''Test case results in a crash'')
      | FAULT_ERROR \<Rightarrow> Inl (Fatal ''Unable to execute target application'')
      | FAULT_NOINST \<Rightarrow> Inl (Fatal ''No instrumentation detected'')
      | FAULT_NOBITS \<Rightarrow> Inr (failures, s\<lparr>useless_at_start := useless_at_start s + 1\<rparr>))"

fun dry_run_loop :: "env \<Rightarrow> nat \<Rightarrow> nat option \<Rightarrow> u32 \<Rightarrow> 'a main_st_scheme \<Rightarrow>
    (bool \<times> u32 \<times> 'a main_st_scheme) res" where
  "dry_run_loop E n None failures s = Inr (False, failures, s)"
| "dry_run_loop E 0 (Some q) failures s = Inl Diverges"
| "dry_run_loop E (Suc n) (Some q) failures s =
     bnd (read_target q s) (\<lambda>use_mem.
     bnd (calibrate_case E q use_mem 0 True s) (\<lambda>(res, s1).
       if stop_soon s1 then Inr (True, failures, s1)
       else bnd (dry_verdict q res failures s1) (\<lambda>(failures', s2).
              dry_run_loop E n (q_next (ent s2 q)) failures' s2)))"

definition perform_dry_run :: "env \<Rightarrow> 'a main_st_scheme \<Rightarrow> 'a main_st_scheme res" where
  "perform_dry_run E s =
     bnd (dry_run_loop E (length (entries s)) (queue s) 0 s) (\<lambda>(stopped, failures, s1).
       if \<not> stopped \<and> failures \<noteq> 0 \<and> failures = queued_paths s1
       then Inl (Fatal ''All test cases time out, giving up!'') else Inr s1)"

subsection \<open>Settings derived from the dry run\<close>

definition EXEC_TIMEOUT :: u32 where "EXEC_TIMEOUT = 1000"
definition EXEC_TM_ROUND :: u32 where "EXEC_TM_ROUND = 20"

definition init_havoc_div :: "u64 \<Rightarrow> u32 \<Rightarrow> u32" where
  "init_havoc_div avg_us d = (if avg_us > 50000 then 10 else if avg_us > 20000 then 5
     else if avg_us > 10000 then 2 else d)"

definition auto_timeout :: "u64 \<Rightarrow> u64 \<Rightarrow> u32" where
  "auto_timeout avg_us max_us =
     (let t0 = ucast (avg_us * (if avg_us > 50000 then 2 else if avg_us > 10000 then 3 else 5) div 1000) :: u32;
          t1 = ucast (max (ucast t0) (max_us div 1000)) :: u32;
          t2 = (t1 + EXEC_TM_ROUND) div EXEC_TM_ROUND * EXEC_TM_ROUND
      in min t2 EXEC_TIMEOUT)"

text \<open>\<open>max_us\<close>, the maximum over the walked queue, and the assignments of \<open>show_init_stats\<close>.\<close>

fun max_exec_us :: "nat \<Rightarrow> nat option \<Rightarrow> u64 \<Rightarrow> 'a queue_st_scheme \<Rightarrow> u64 res" where
  "max_exec_us n None m s = Inr m"
| "max_exec_us 0 (Some q) m s = Inl Diverges"
| "max_exec_us (Suc n) (Some q) m s = max_exec_us n (q_next (ent s q)) (max m (exec_us (ent s q))) s"

definition show_init_stats :: "'a main_st_scheme \<Rightarrow> 'a main_st_scheme res" where
  "show_init_stats s =
     (let avg_us = (if total_cal_cycles s = 0 then 0 else total_cal_us s div total_cal_cycles s) in
      bnd (max_exec_us (length (entries s)) (queue s) 0 s) (\<lambda>max_us.
      let s1 = s\<lparr>havoc_div := init_havoc_div avg_us (havoc_div s)\<rparr>;
          s2 = (if timeout_given s1 = 0
                then s1\<lparr>exec_tmout := auto_timeout avg_us max_us, timeout_given := 1\<rparr> else s1)
      in Inr (if dumb_mode s2 \<noteq> 0 \<and> \<not> hang_tmout_set s2
              then s2\<lparr>hang_tmout := min EXEC_TIMEOUT (exec_tmout s2 * 2 + 100)\<rparr> else s2)))"

text \<open>Both read the statistics file of the resumed session.\<close>

definition stats_value :: "string \<Rightarrow> 'a main_st_scheme \<Rightarrow> s32 option" where
  "stats_value key s =
     (let fn = (if in_place_resume s then out_dir s @ ''/fuzzer_stats'' else in_dir s @ ''/../fuzzer_stats'')
      in case read_file fn s of
           None \<Rightarrow> None
         | Some d \<Rightarrow> map_option (\<lambda>off. atoi (bytes_of (drop (length key) off)))
                       (strstr (map (\<lambda>b. char_of (unat b)) (c_string (take 4095 d))) key))"

definition find_start_position :: "'a main_st_scheme \<Rightarrow> u32" where
  "find_start_position s =
     (if \<not> resuming_fuzz s then 0
      else case stats_value ''cur_path          : '' s of
             None \<Rightarrow> 0
           | Some ret \<Rightarrow> if ret \<ge> queued_paths s then 0 else ret)"

definition find_timeout :: "'a main_st_scheme \<Rightarrow> 'a main_st_scheme" where
  "find_timeout s =
     (if \<not> resuming_fuzz s then s
      else case stats_value ''exec_timeout   : '' s of
             None \<Rightarrow> s
           | Some ret \<Rightarrow> if ret \<le> 4 then s else s\<lparr>exec_tmout := ret, timeout_given := 3\<rparr>)"

subsection \<open>sync_fuzzers\<close>

text \<open>One file of another fuzzer's queue; \<open>True\<close> is the early return when the user stops.\<close>

definition sync_run :: "env \<Rightarrow> string \<Rightarrow> bytes \<Rightarrow> 'a main_st_scheme \<Rightarrow> (bool \<times> 'a main_st_scheme) res" where
  "sync_run E party mem s0 =
     bnd (write_to_testcase E mem s0) (\<lambda>s.
     bnd (run_target E (exec_tmout s) s) (\<lambda>(fault, s1).
       if stop_soon s1 then Inr (True, s1)
       else
         bnd (save_if_interesting E mem fault (s1\<lparr>syncing_party := Some party\<rparr>)) (\<lambda>(kept, s2).
         let s3 = s2\<lparr>queued_imported := queued_imported s2 + (if kept then 1 else 0), syncing_party := None\<rparr> in
         bnd (every (stage_cur s3) s3) (\<lambda>now.
         let s4 = s3\<lparr>stage_cur := stage_cur s3 + 1\<rparr> in
         bnd (if now then show_stats E s4 else Inr s4) (\<lambda>s5. Inr (False, s5))))))"

text \<open>The first component is \<open>next_min_accept\<close>.\<close>

definition sync_file :: "env \<Rightarrow> string \<Rightarrow> string \<Rightarrow> u32 \<Rightarrow> string \<Rightarrow> u32 \<times> 'a main_st_scheme \<Rightarrow>
    (bool \<times> u32 \<times> 'a main_st_scheme) res" where
  "sync_file E party qd_path min_accept name w =
     (case w of (next, s) \<Rightarrow>
        if take 1 name = ''.'' then Inr (False, next, s)
        else case scan_id name of
          None \<Rightarrow> Inr (False, next, s)
        | Some cid \<Rightarrow>
            let s1 = s\<lparr>syncing_case := cid\<rparr> in
            if cid < min_accept then Inr (False, next, s1)
            else
              let next' = (if cid \<ge> next then cid + 1 else next) in
              case read_file (qd_path @ ''/'' @ name) s1 of
                None \<Rightarrow> Inr (False, next', s1)
              | Some mem \<Rightarrow>
                  if mem = [] \<or> length mem > MAX_FILE then Inr (False, next', s1)
                  else bnd (sync_run E party mem s1) (\<lambda>(stop, s2). Inr (stop, next', s2)))"

definition sync_party :: "env \<Rightarrow> string \<Rightarrow> 'a main_st_scheme \<Rightarrow> (bool \<times> 'a main_st_scheme) res" where
  "sync_party E party s =
     (let qd_path = sync_dir s @ ''/'' @ party @ ''/queue'';
          synced = out_dir s @ ''/.synced/'' @ party
      in if take 1 party = ''.'' \<or> sync_id s = Some party then Inr (False, s)
         else case readdir E qd_path of
           None \<Rightarrow> Inr (False, s)
         | Some names \<Rightarrow>
             if \<not> creatable E synced then Inl (Fatal (''Unable to create '' @ synced))
             else
               let old = (case read_file synced s of None \<Rightarrow> [] | Some d \<Rightarrow> d);
                   min_accept = ld32 old;
                   s1 = s\<lparr>fs := (fs s)(synced \<mapsto> Regular old), stage_cur := 0, stage_max := 0\<rparr>
               in bnd (for_each names (sync_file E party qd_path min_accept) (min_accept, s1))
                    (\<lambda>(stop, next, s2).
                      if stop then Inr (True, s2)
                      else Inr (False, s2\<lparr>fs := (fs s2)(synced \<mapsto> Regular (st32 next @ drop 4 old))\<rparr>)))"

definition sync_fuzzers :: "env \<Rightarrow> 'a main_st_scheme \<Rightarrow> 'a main_st_scheme res" where
  "sync_fuzzers E s =
     (case readdir E (sync_dir s) of
        None \<Rightarrow> Inl (Fatal (''Unable to open '' @ sync_dir s))
      | Some parties \<Rightarrow>
          bnd (for_each parties (sync_party E) (s\<lparr>stage_max := 0, stage_cur := 0, cur_depth := 0\<rparr>))
            (\<lambda>(stop, s'). Inr s'))"

subsection \<open>The signal handlers\<close>

text \<open>Killing the child is the target's business; what the handlers leave in the globals.\<close>

definition handle_stop_sig :: "'a exec_st_scheme \<Rightarrow> 'a exec_st_scheme" where
  "handle_stop_sig s = s\<lparr>stop_soon := True\<rparr>"

definition handle_skipreq :: "'a exec_st_scheme \<Rightarrow> 'a exec_st_scheme" where
  "handle_skipreq s = s\<lparr>skip_requested := True\<rparr>"

subsection \<open>The main loop\<close>

definition SYNC_INTERVAL :: u32 where "SYNC_INTERVAL = 5"

text \<open>\<open>while (seek_to) { current_entry++; seek_to--; queue_cur = queue_cur->next; }\<close>\<close>

fun seek_start :: "nat \<Rightarrow> 'a main_st_scheme \<Rightarrow> 'a main_st_scheme res" where
  "seek_start 0 s = Inr s"
| "seek_start (Suc n) s =
     (case queue_cur s of
        None \<Rightarrow> Inl NullDeref
      | Some q \<Rightarrow> seek_start n (s\<lparr>current_entry := current_entry s + 1, seek_to := seek_to s - 1,
                                 queue_cur := q_next (ent s q)\<rparr>))"

text \<open>A new cycle through the queue.\<close>

definition cycle_finds :: "'a main_st_scheme \<Rightarrow> 'a main_st_scheme" where
  "cycle_finds s =
     (let s1 = (if queued_paths s = prev_queued s then
                  (if use_splicing s then s\<lparr>cycles_wo_finds := cycles_wo_finds s + 1\<rparr>
                   else s\<lparr>use_splicing := True\<rparr>)
                else s\<lparr>cycles_wo_finds := 0\<rparr>)
      in s1\<lparr>prev_queued := queued_paths s1\<rparr>)"

definition new_cycle :: "env \<Rightarrow> 'a main_st_scheme \<Rightarrow> 'a main_st_scheme res" where
  "new_cycle E s0 =
     (let s = s0\<lparr>queue_cycle := queue_cycle s0 + 1, current_entry := 0, cur_skipped_paths := 0,
                queue_cur := queue s0\<rparr>
      in bnd (if TF_switch s then cull_queue E (s\<lparr>TF_top_null := True\<rparr>) else Inr s) (\<lambda>s.
         bnd (seek_start (unat (seek_to s)) s) (\<lambda>s.
         bnd (show_stats E s) (\<lambda>s.
         let s1 = cycle_finds s in
         if sync_id s1 \<noteq> None \<and> queue_cycle s1 = 1 \<and> import_first s1 then sync_fuzzers E s1 else Inr s1))))"

definition maybe_sync :: "env \<Rightarrow> bool \<Rightarrow> 'a main_st_scheme \<Rightarrow> 'a main_st_scheme res" where
  "maybe_sync E skipped_fuzz s =
     (if \<not> stop_soon s \<and> sync_id s \<noteq> None \<and> \<not> skipped_fuzz then
        (let s1 = s\<lparr>sync_interval_cnt := sync_interval_cnt s + 1\<rparr> in
         if sync_interval_cnt s mod SYNC_INTERVAL = 0 then sync_fuzzers E s1 else Inr s1)
      else Inr s)"

text \<open>One turn: the answer \<open>True\<close> leaves the loop.\<close>

definition main_turn :: "env \<Rightarrow> 'a main_st_scheme \<Rightarrow> (bool \<times> 'a main_st_scheme) res" where
  "main_turn E s0 =
     bnd (cull_queue E s0) (\<lambda>s.
     bnd (if queue_cur s = None then new_cycle E s else Inr s) (\<lambda>s.
     bnd (fuzz_one E s) (\<lambda>(skipped_fuzz, s).
     bnd (maybe_sync E skipped_fuzz s) (\<lambda>s.
     let s = (if \<not> stop_soon s \<and> exit_1 s then s\<lparr>stop_soon := True\<rparr> else s) in
     if stop_soon s then Inr (True, s)
     else case queue_cur s of
       None \<Rightarrow> Inl NullDeref
     | Some q \<Rightarrow> Inr (False, s\<lparr>queue_cur := q_next (ent s q), current_entry := current_entry s + 1\<rparr>)))))"

text \<open>
  The loop goes on until the user stops it, so the model takes turns: \<open>main_turns n\<close> takes at most
  \<open>n\<close>, and the step relation \<open>main_step\<close> is one turn that stays in the loop.
\<close>

fun main_turns :: "env \<Rightarrow> nat \<Rightarrow> 'a main_st_scheme \<Rightarrow> (bool \<times> 'a main_st_scheme) res" where
  "main_turns E 0 s = Inr (False, s)"
| "main_turns E (Suc n) s = cont (main_turn E s) (main_turns E n)"

inductive main_reach :: "env \<Rightarrow> 'a main_st_scheme \<Rightarrow> 'a main_st_scheme \<Rightarrow> bool" for E s0 where
  main_start: "main_reach E s0 s0"
| main_next: "main_reach E s0 s \<Longrightarrow> main_turn E s = Inr (False, t) \<Longrightarrow> main_reach E s0 t"

definition stop_fuzzing :: "env \<Rightarrow> 'a main_st_scheme \<Rightarrow> 'a main_st_scheme res" where
  "stop_fuzzing E s =
     bnd (if queue_cur s \<noteq> None then show_stats E s else Inr s) (\<lambda>s.
     bnd (write_bitmap E s) (save_auto E))"

definition prepare :: "env \<Rightarrow> 'a main_st_scheme \<Rightarrow> string option \<Rightarrow> 'a main_st_scheme res" where
  "prepare E s extras_dir =
     bnd (read_testcases E s) (\<lambda>s.
     bnd (load_auto E (in_dir s) s) (\<lambda>s.
     bnd (pivot_inputs E s) (\<lambda>s.
     bnd (case extras_dir of None \<Rightarrow> Inr s | Some d \<Rightarrow> load_extras E d s) (\<lambda>s.
     let (now, s1) = get_cur_time E (if timeout_given s = 0 then find_timeout s else s) in
     bnd (perform_dry_run E (s1\<lparr>start_time := now\<rparr>)) (\<lambda>s.
     bnd (cull_queue E s) (\<lambda>s.
     bnd (show_init_stats s) (\<lambda>s. save_auto E (s\<lparr>seek_to := find_start_position s\<rparr>))))))))"

end
