(* ===== verification/Frames.thy ===== *)
theory Frames
  imports Save Favor
begin

section \<open>What running and saving leave alone\<close>

text \<open>
  Running the target, calibrating and saving an input do not touch the position in the current
  stage, the dictionaries, the history of the buffers tried, nor anything beyond the record
  \<open>stage_st\<close>; the queue only grows, and stays well formed as long as the counters do not wrap.
  \<open>cal_view\<close> is what calibration leaves alone all the time, \<open>stage_view\<close> adds the two variables it
  restores, \<open>links\<close> is what makes up the list, and \<open>sizes\<close> are the lengths of the entries.
\<close>

text \<open>A 32-bit counter that has not overflowed.\<close>

lemma sint_small: "k < 2 ^ 31 \<Longrightarrow> sint (of_nat k :: u32) = int k"
proof -
  assume "k < 2 ^ 31"
  then have "int k < 2 ^ 31" by simp
  then have "signed_take_bit 31 (int k) = int k" by (intro signed_take_bit_int_eq_self) auto
  then show ?thesis by (simp add: signed_of_nat)
qed

definition cal_view where
  "cal_view s = (stage_cur_byte s, stage_cur_val s, stage_val_type s, stage_short s, stage_finds s,
     stage_cycles s, extras s, a_extras s, dumb_mode s, TF_switch s, splicing_with s, syncing_party s,
     current_entry s, queue_cycle s, blocks_eff_total s, blocks_eff_select s, tried s, stage_st.more s)"

definition stage_view where
  "stage_view s = (stage_cur s, stage_max s, cal_view s)"

definition links :: "'a queue_st_scheme \<Rightarrow>
    (nat option \<times> nat option) list \<times> nat option \<times> nat option \<times> nat option \<times> u32" where
  "links s = (map (\<lambda>e. (q_next e, next_100 e)) (entries s), queue s, queue_top s, q_prev100 s, queued_paths s)"

lemma links_upd [simp]:
  assumes "\<And>e. q_next (f e) = q_next e" and "\<And>e. next_100 (f e) = next_100 e"
  shows "links (upd p f s) = links s"
proof -
  have "map (\<lambda>e. (q_next e, next_100 e)) ((entries s)[p := f (entries s ! p)]) =
      map (\<lambda>e. (q_next e, next_100 e)) (entries s)"
  proof (rule nth_equalityI)
    fix i assume "i < length (map (\<lambda>e. (q_next e, next_100 e)) ((entries s)[p := f (entries s ! p)]))"
    then show "map (\<lambda>e. (q_next e, next_100 e)) ((entries s)[p := f (entries s ! p)]) ! i =
        map (\<lambda>e. (q_next e, next_100 e)) (entries s) ! i"
      by (cases "i = p") (simp_all add: assms)
  qed simp
  then show ?thesis by (simp add: links_def upd_def)
qed

text \<open>The lengths of the entries.\<close>

definition sizes :: "'a queue_st_scheme \<Rightarrow> u32 list" where
  "sizes s = map q_len (entries s)"

lemma sizes_upd [simp]:
  assumes "\<And>e. q_len (f e) = q_len e"
  shows "sizes (upd p f s) = sizes s"
proof (rule nth_equalityI)
  fix i assume "i < length (sizes (upd p f s))"
  then show "sizes (upd p f s) ! i = sizes s ! i"
    by (cases "i = p") (simp_all add: sizes_def upd_def assms)
qed (simp add: sizes_def)

lemma views_upd [simp]: "cal_view (upd p f s) = cal_view s" "stage_view (upd p f s) = stage_view s"
  by (simp_all add: upd_def cal_view_def stage_view_def)

text \<open>Assignments to the other globals, one by one.\<close>

lemma cal_view_simps [simp]:
  "cal_view (s\<lparr>rand_cnt := x0\<rparr>) = cal_view s"
  "cal_view (s\<lparr>rng_seed := x1\<rparr>) = cal_view s"
  "cal_view (s\<lparr>rng_pos := x2\<rparr>) = cal_view s"
  "cal_view (s\<lparr>urandom_pos := x3\<rparr>) = cal_view s"
  "cal_view (s\<lparr>ticks := x4\<rparr>) = cal_view s"
  "cal_view (s\<lparr>fs := x5\<rparr>) = cal_view s"
  "cal_view (s\<lparr>out_dir := x6\<rparr>) = cal_view s"
  "cal_view (s\<lparr>trace_bits := x7\<rparr>) = cal_view s"
  "cal_view (s\<lparr>hybrid_bits := x8\<rparr>) = cal_view s"
  "cal_view (s\<lparr>max_hybrid := x9\<rparr>) = cal_view s"
  "cal_view (s\<lparr>top_rated := x10\<rparr>) = cal_view s"
  "cal_view (s\<lparr>top_rated_orig := x11\<rparr>) = cal_view s"
  "cal_view (s\<lparr>score_changed := x12\<rparr>) = cal_view s"
  "cal_view (s\<lparr>TF_top_null := x13\<rparr>) = cal_view s"
  "cal_view (s\<lparr>pending_not_fuzzed := x14\<rparr>) = cal_view s"
  "cal_view (s\<lparr>queued_favored := x15\<rparr>) = cal_view s"
  "cal_view (s\<lparr>pending_favored := x16\<rparr>) = cal_view s"
  "cal_view (s\<lparr>cur_depth := x17\<rparr>) = cal_view s"
  "cal_view (s\<lparr>max_depth := x18\<rparr>) = cal_view s"
  "cal_view (s\<lparr>cycles_wo_finds := x19\<rparr>) = cal_view s"
  "cal_view (s\<lparr>last_path_time := x20\<rparr>) = cal_view s"
  "cal_view (s\<lparr>entries := x21\<rparr>) = cal_view s"
  "cal_view (s\<lparr>queue := x22\<rparr>) = cal_view s"
  "cal_view (s\<lparr>queue_top := x23\<rparr>) = cal_view s"
  "cal_view (s\<lparr>q_prev100 := x24\<rparr>) = cal_view s"
  "cal_view (s\<lparr>queued_paths := x25\<rparr>) = cal_view s"
  "cal_view (s\<lparr>auto_changed := x26\<rparr>) = cal_view s"
  "cal_view (s\<lparr>virgin_bits := x27\<rparr>) = cal_view s"
  "cal_view (s\<lparr>virgin_tmout := x28\<rparr>) = cal_view s"
  "cal_view (s\<lparr>virgin_crash := x29\<rparr>) = cal_view s"
  "cal_view (s\<lparr>virgin_hybrid := x30\<rparr>) = cal_view s"
  "cal_view (s\<lparr>var_bytes := x31\<rparr>) = cal_view s"
  "cal_view (s\<lparr>bitmap_changed := x32\<rparr>) = cal_view s"
  "cal_view (s\<lparr>out_file := x33\<rparr>) = cal_view s"
  "cal_view (s\<lparr>testcase := x34\<rparr>) = cal_view s"
  "cal_view (s\<lparr>exec_tmout := x35\<rparr>) = cal_view s"
  "cal_view (s\<lparr>hang_tmout := x36\<rparr>) = cal_view s"
  "cal_view (s\<lparr>crash_mode := x37\<rparr>) = cal_view s"
  "cal_view (s\<lparr>no_forkserver := x38\<rparr>) = cal_view s"
  "cal_view (s\<lparr>uses_asan := x39\<rparr>) = cal_view s"
  "cal_view (s\<lparr>fast_cal := x40\<rparr>) = cal_view s"
  "cal_view (s\<lparr>resuming_fuzz := x41\<rparr>) = cal_view s"
  "cal_view (s\<lparr>stop_soon := x42\<rparr>) = cal_view s"
  "cal_view (s\<lparr>skip_requested := x43\<rparr>) = cal_view s"
  "cal_view (s\<lparr>child_timed_out := x44\<rparr>) = cal_view s"
  "cal_view (s\<lparr>kill_signal := x45\<rparr>) = cal_view s"
  "cal_view (s\<lparr>prev_timed_out := x46\<rparr>) = cal_view s"
  "cal_view (s\<lparr>runs := x47\<rparr>) = cal_view s"
  "cal_view (s\<lparr>total_execs := x48\<rparr>) = cal_view s"
  "cal_view (s\<lparr>total_crashes := x49\<rparr>) = cal_view s"
  "cal_view (s\<lparr>unique_crashes := x50\<rparr>) = cal_view s"
  "cal_view (s\<lparr>total_tmouts := x51\<rparr>) = cal_view s"
  "cal_view (s\<lparr>unique_tmouts := x52\<rparr>) = cal_view s"
  "cal_view (s\<lparr>unique_hangs := x53\<rparr>) = cal_view s"
  "cal_view (s\<lparr>last_crash_time := x54\<rparr>) = cal_view s"
  "cal_view (s\<lparr>last_hang_time := x55\<rparr>) = cal_view s"
  "cal_view (s\<lparr>last_crash_execs := x56\<rparr>) = cal_view s"
  "cal_view (s\<lparr>total_cal_us := x57\<rparr>) = cal_view s"
  "cal_view (s\<lparr>total_cal_cycles := x58\<rparr>) = cal_view s"
  "cal_view (s\<lparr>total_bitmap_size := x59\<rparr>) = cal_view s"
  "cal_view (s\<lparr>total_bitmap_entries := x60\<rparr>) = cal_view s"
  "cal_view (s\<lparr>queued_with_cov := x61\<rparr>) = cal_view s"
  "cal_view (s\<lparr>queued_with_hybrid := x62\<rparr>) = cal_view s"
  "cal_view (s\<lparr>queued_with_incorrect := x63\<rparr>) = cal_view s"
  "cal_view (s\<lparr>queued_variable := x64\<rparr>) = cal_view s"
  "cal_view (s\<lparr>queued_discovered := x65\<rparr>) = cal_view s"
  "cal_view (s\<lparr>var_byte_count := x66\<rparr>) = cal_view s"
  "cal_view (s\<lparr>subseq_tmouts := x67\<rparr>) = cal_view s"
  "cal_view (s\<lparr>cur_skipped_paths := x68\<rparr>) = cal_view s"
  "cal_view (s\<lparr>trim_execs := x69\<rparr>) = cal_view s"
  "cal_view (s\<lparr>bytes_trim_in := x70\<rparr>) = cal_view s"
  "cal_view (s\<lparr>bytes_trim_out := x71\<rparr>) = cal_view s"
  "cal_view (s\<lparr>start_time := x72\<rparr>) = cal_view s"
  "cal_view (s\<lparr>last_ms := x73\<rparr>) = cal_view s"
  "cal_view (s\<lparr>last_stats_ms := x74\<rparr>) = cal_view s"
  "cal_view (s\<lparr>stats_update_freq := x75\<rparr>) = cal_view s"
  "cal_view (s\<lparr>run_over10m := x76\<rparr>) = cal_view s"
  "cal_view (s\<lparr>syncing_case := x77\<rparr>) = cal_view s"
  "cal_view (s\<lparr>stage_cur := x78\<rparr>) = cal_view s"
  "cal_view (s\<lparr>stage_max := x79\<rparr>) = cal_view s"
  
  by (simp_all add: cal_view_def)

lemma stage_view_simps [simp]:
  "stage_view (s\<lparr>rand_cnt := x0\<rparr>) = stage_view s"
  "stage_view (s\<lparr>rng_seed := x1\<rparr>) = stage_view s"
  "stage_view (s\<lparr>rng_pos := x2\<rparr>) = stage_view s"
  "stage_view (s\<lparr>urandom_pos := x3\<rparr>) = stage_view s"
  "stage_view (s\<lparr>ticks := x4\<rparr>) = stage_view s"
  "stage_view (s\<lparr>fs := x5\<rparr>) = stage_view s"
  "stage_view (s\<lparr>out_dir := x6\<rparr>) = stage_view s"
  "stage_view (s\<lparr>trace_bits := x7\<rparr>) = stage_view s"
  "stage_view (s\<lparr>hybrid_bits := x8\<rparr>) = stage_view s"
  "stage_view (s\<lparr>max_hybrid := x9\<rparr>) = stage_view s"
  "stage_view (s\<lparr>top_rated := x10\<rparr>) = stage_view s"
  "stage_view (s\<lparr>top_rated_orig := x11\<rparr>) = stage_view s"
  "stage_view (s\<lparr>score_changed := x12\<rparr>) = stage_view s"
  "stage_view (s\<lparr>TF_top_null := x13\<rparr>) = stage_view s"
  "stage_view (s\<lparr>pending_not_fuzzed := x14\<rparr>) = stage_view s"
  "stage_view (s\<lparr>queued_favored := x15\<rparr>) = stage_view s"
  "stage_view (s\<lparr>pending_favored := x16\<rparr>) = stage_view s"
  "stage_view (s\<lparr>cur_depth := x17\<rparr>) = stage_view s"
  "stage_view (s\<lparr>max_depth := x18\<rparr>) = stage_view s"
  "stage_view (s\<lparr>cycles_wo_finds := x19\<rparr>) = stage_view s"
  "stage_view (s\<lparr>last_path_time := x20\<rparr>) = stage_view s"
  "stage_view (s\<lparr>entries := x21\<rparr>) = stage_view s"
  "stage_view (s\<lparr>queue := x22\<rparr>) = stage_view s"
  "stage_view (s\<lparr>queue_top := x23\<rparr>) = stage_view s"
  "stage_view (s\<lparr>q_prev100 := x24\<rparr>) = stage_view s"
  "stage_view (s\<lparr>queued_paths := x25\<rparr>) = stage_view s"
  "stage_view (s\<lparr>auto_changed := x26\<rparr>) = stage_view s"
  "stage_view (s\<lparr>virgin_bits := x27\<rparr>) = stage_view s"
  "stage_view (s\<lparr>virgin_tmout := x28\<rparr>) = stage_view s"
  "stage_view (s\<lparr>virgin_crash := x29\<rparr>) = stage_view s"
  "stage_view (s\<lparr>virgin_hybrid := x30\<rparr>) = stage_view s"
  "stage_view (s\<lparr>var_bytes := x31\<rparr>) = stage_view s"
  "stage_view (s\<lparr>bitmap_changed := x32\<rparr>) = stage_view s"
  "stage_view (s\<lparr>out_file := x33\<rparr>) = stage_view s"
  "stage_view (s\<lparr>testcase := x34\<rparr>) = stage_view s"
  "stage_view (s\<lparr>exec_tmout := x35\<rparr>) = stage_view s"
  "stage_view (s\<lparr>hang_tmout := x36\<rparr>) = stage_view s"
  "stage_view (s\<lparr>crash_mode := x37\<rparr>) = stage_view s"
  "stage_view (s\<lparr>no_forkserver := x38\<rparr>) = stage_view s"
  "stage_view (s\<lparr>uses_asan := x39\<rparr>) = stage_view s"
  "stage_view (s\<lparr>fast_cal := x40\<rparr>) = stage_view s"
  "stage_view (s\<lparr>resuming_fuzz := x41\<rparr>) = stage_view s"
  "stage_view (s\<lparr>stop_soon := x42\<rparr>) = stage_view s"
  "stage_view (s\<lparr>skip_requested := x43\<rparr>) = stage_view s"
  "stage_view (s\<lparr>child_timed_out := x44\<rparr>) = stage_view s"
  "stage_view (s\<lparr>kill_signal := x45\<rparr>) = stage_view s"
  "stage_view (s\<lparr>prev_timed_out := x46\<rparr>) = stage_view s"
  "stage_view (s\<lparr>runs := x47\<rparr>) = stage_view s"
  "stage_view (s\<lparr>total_execs := x48\<rparr>) = stage_view s"
  "stage_view (s\<lparr>total_crashes := x49\<rparr>) = stage_view s"
  "stage_view (s\<lparr>unique_crashes := x50\<rparr>) = stage_view s"
  "stage_view (s\<lparr>total_tmouts := x51\<rparr>) = stage_view s"
  "stage_view (s\<lparr>unique_tmouts := x52\<rparr>) = stage_view s"
  "stage_view (s\<lparr>unique_hangs := x53\<rparr>) = stage_view s"
  "stage_view (s\<lparr>last_crash_time := x54\<rparr>) = stage_view s"
  "stage_view (s\<lparr>last_hang_time := x55\<rparr>) = stage_view s"
  "stage_view (s\<lparr>last_crash_execs := x56\<rparr>) = stage_view s"
  "stage_view (s\<lparr>total_cal_us := x57\<rparr>) = stage_view s"
  "stage_view (s\<lparr>total_cal_cycles := x58\<rparr>) = stage_view s"
  "stage_view (s\<lparr>total_bitmap_size := x59\<rparr>) = stage_view s"
  "stage_view (s\<lparr>total_bitmap_entries := x60\<rparr>) = stage_view s"
  "stage_view (s\<lparr>queued_with_cov := x61\<rparr>) = stage_view s"
  "stage_view (s\<lparr>queued_with_hybrid := x62\<rparr>) = stage_view s"
  "stage_view (s\<lparr>queued_with_incorrect := x63\<rparr>) = stage_view s"
  "stage_view (s\<lparr>queued_variable := x64\<rparr>) = stage_view s"
  "stage_view (s\<lparr>queued_discovered := x65\<rparr>) = stage_view s"
  "stage_view (s\<lparr>var_byte_count := x66\<rparr>) = stage_view s"
  "stage_view (s\<lparr>subseq_tmouts := x67\<rparr>) = stage_view s"
  "stage_view (s\<lparr>cur_skipped_paths := x68\<rparr>) = stage_view s"
  "stage_view (s\<lparr>trim_execs := x69\<rparr>) = stage_view s"
  "stage_view (s\<lparr>bytes_trim_in := x70\<rparr>) = stage_view s"
  "stage_view (s\<lparr>bytes_trim_out := x71\<rparr>) = stage_view s"
  "stage_view (s\<lparr>start_time := x72\<rparr>) = stage_view s"
  "stage_view (s\<lparr>last_ms := x73\<rparr>) = stage_view s"
  "stage_view (s\<lparr>last_stats_ms := x74\<rparr>) = stage_view s"
  "stage_view (s\<lparr>stats_update_freq := x75\<rparr>) = stage_view s"
  "stage_view (s\<lparr>run_over10m := x76\<rparr>) = stage_view s"
  "stage_view (s\<lparr>syncing_case := x77\<rparr>) = stage_view s"
  by (simp_all add: stage_view_def)

lemma links_simps [simp]:
  "links (a\<lparr>rand_cnt := x0\<rparr>) = links a"
  "links (a\<lparr>rng_seed := x1\<rparr>) = links a"
  "links (a\<lparr>rng_pos := x2\<rparr>) = links a"
  "links (a\<lparr>urandom_pos := x3\<rparr>) = links a"
  "links (a\<lparr>ticks := x4\<rparr>) = links a" "links (a\<lparr>fs := x5\<rparr>) = links a"
  "links (a\<lparr>out_dir := x6\<rparr>) = links a"
  "links (a\<lparr>trace_bits := x7\<rparr>) = links a"
  "links (a\<lparr>hybrid_bits := x8\<rparr>) = links a"
  "links (a\<lparr>max_hybrid := x9\<rparr>) = links a"
  "links (a\<lparr>top_rated := x10\<rparr>) = links a"
  "links (a\<lparr>top_rated_orig := x11\<rparr>) = links a"
  "links (a\<lparr>score_changed := x12\<rparr>) = links a"
  "links (a\<lparr>TF_top_null := x13\<rparr>) = links a"
  "links (a\<lparr>pending_not_fuzzed := x14\<rparr>) = links a"
  "links (a\<lparr>queued_favored := x15\<rparr>) = links a"
  "links (a\<lparr>pending_favored := x16\<rparr>) = links a"
  "links (a\<lparr>cur_depth := x17\<rparr>) = links a"
  "links (a\<lparr>max_depth := x18\<rparr>) = links a"
  "links (a\<lparr>cycles_wo_finds := x19\<rparr>) = links a"
  "links (a\<lparr>last_path_time := x20\<rparr>) = links a"
  "links (a\<lparr>dumb_mode := x21\<rparr>) = links a"
  "links (a\<lparr>TF_switch := x22\<rparr>) = links a"
  "links (b\<lparr>auto_changed := x23\<rparr>) = links b"
  "links (b\<lparr>extras := x24\<rparr>) = links b"
  "links (b\<lparr>a_extras := x25\<rparr>) = links b"
  "links (c\<lparr>virgin_bits := x26\<rparr>) = links c"
  "links (c\<lparr>virgin_tmout := x27\<rparr>) = links c"
  "links (c\<lparr>virgin_crash := x28\<rparr>) = links c"
  "links (c\<lparr>virgin_hybrid := x29\<rparr>) = links c"
  "links (c\<lparr>var_bytes := x30\<rparr>) = links c"
  "links (c\<lparr>bitmap_changed := x31\<rparr>) = links c"
  "links (c\<lparr>out_file := x32\<rparr>) = links c"
  "links (c\<lparr>testcase := x33\<rparr>) = links c"
  "links (c\<lparr>exec_tmout := x34\<rparr>) = links c"
  "links (c\<lparr>hang_tmout := x35\<rparr>) = links c"
  "links (c\<lparr>crash_mode := x36\<rparr>) = links c"
  "links (c\<lparr>no_forkserver := x37\<rparr>) = links c"
  "links (c\<lparr>uses_asan := x38\<rparr>) = links c"
  "links (c\<lparr>fast_cal := x39\<rparr>) = links c"
  "links (c\<lparr>resuming_fuzz := x40\<rparr>) = links c"
  "links (c\<lparr>stop_soon := x41\<rparr>) = links c"
  "links (c\<lparr>skip_requested := x42\<rparr>) = links c"
  "links (c\<lparr>child_timed_out := x43\<rparr>) = links c"
  "links (c\<lparr>kill_signal := x44\<rparr>) = links c"
  "links (c\<lparr>prev_timed_out := x45\<rparr>) = links c"
  "links (c\<lparr>runs := x46\<rparr>) = links c"
  "links (d\<lparr>total_execs := x47\<rparr>) = links d"
  "links (d\<lparr>total_crashes := x48\<rparr>) = links d"
  "links (d\<lparr>unique_crashes := x49\<rparr>) = links d"
  "links (d\<lparr>total_tmouts := x50\<rparr>) = links d"
  "links (d\<lparr>unique_tmouts := x51\<rparr>) = links d"
  "links (d\<lparr>unique_hangs := x52\<rparr>) = links d"
  "links (d\<lparr>last_crash_time := x53\<rparr>) = links d"
  "links (d\<lparr>last_hang_time := x54\<rparr>) = links d"
  "links (d\<lparr>last_crash_execs := x55\<rparr>) = links d"
  "links (d\<lparr>total_cal_us := x56\<rparr>) = links d"
  "links (d\<lparr>total_cal_cycles := x57\<rparr>) = links d"
  "links (d\<lparr>total_bitmap_size := x58\<rparr>) = links d"
  "links (d\<lparr>total_bitmap_entries := x59\<rparr>) = links d"
  "links (d\<lparr>queued_with_cov := x60\<rparr>) = links d"
  "links (d\<lparr>queued_with_hybrid := x61\<rparr>) = links d"
  "links (d\<lparr>queued_with_incorrect := x62\<rparr>) = links d"
  "links (d\<lparr>queued_variable := x63\<rparr>) = links d"
  "links (d\<lparr>queued_discovered := x64\<rparr>) = links d"
  "links (d\<lparr>var_byte_count := x65\<rparr>) = links d"
  "links (d\<lparr>subseq_tmouts := x66\<rparr>) = links d"
  "links (d\<lparr>cur_skipped_paths := x67\<rparr>) = links d"
  "links (d\<lparr>trim_execs := x68\<rparr>) = links d"
  "links (d\<lparr>bytes_trim_in := x69\<rparr>) = links d"
  "links (d\<lparr>bytes_trim_out := x70\<rparr>) = links d"
  "links (e\<lparr>start_time := x71\<rparr>) = links e"
  "links (e\<lparr>last_ms := x72\<rparr>) = links e"
  "links (e\<lparr>last_stats_ms := x73\<rparr>) = links e"
  "links (e\<lparr>stats_update_freq := x74\<rparr>) = links e"
  "links (e\<lparr>run_over10m := x75\<rparr>) = links e"
  "links (s\<lparr>stage_short := x76\<rparr>) = links s"
  "links (s\<lparr>stage_cur := x77\<rparr>) = links s"
  "links (s\<lparr>stage_max := x78\<rparr>) = links s"
  "links (s\<lparr>stage_cur_byte := x79\<rparr>) = links s"
  "links (s\<lparr>stage_cur_val := x80\<rparr>) = links s"
  "links (s\<lparr>stage_val_type := x81\<rparr>) = links s"
  "links (s\<lparr>stage_finds := x82\<rparr>) = links s"
  "links (s\<lparr>stage_cycles := x83\<rparr>) = links s"
  "links (s\<lparr>syncing_party := x84\<rparr>) = links s"
  "links (s\<lparr>syncing_case := x85\<rparr>) = links s"
  "links (s\<lparr>splicing_with := x86\<rparr>) = links s"
  "links (s\<lparr>current_entry := x87\<rparr>) = links s"
  "links (s\<lparr>queue_cycle := x88\<rparr>) = links s"
  "links (s\<lparr>blocks_eff_total := x89\<rparr>) = links s"
  "links (s\<lparr>blocks_eff_select := x90\<rparr>) = links s"
  "links (s\<lparr>tried := x91\<rparr>) = links s"
  by (simp_all add: links_def)

lemma sizes_simps [simp]:
  "sizes (a\<lparr>rand_cnt := x0\<rparr>) = sizes a"
  "sizes (a\<lparr>rng_seed := x1\<rparr>) = sizes a"
  "sizes (a\<lparr>rng_pos := x2\<rparr>) = sizes a"
  "sizes (a\<lparr>urandom_pos := x3\<rparr>) = sizes a"
  "sizes (a\<lparr>ticks := x4\<rparr>) = sizes a" "sizes (a\<lparr>fs := x5\<rparr>) = sizes a"
  "sizes (a\<lparr>out_dir := x6\<rparr>) = sizes a"
  "sizes (a\<lparr>trace_bits := x7\<rparr>) = sizes a"
  "sizes (a\<lparr>hybrid_bits := x8\<rparr>) = sizes a"
  "sizes (a\<lparr>max_hybrid := x9\<rparr>) = sizes a"
  "sizes (a\<lparr>top_rated := x10\<rparr>) = sizes a"
  "sizes (a\<lparr>top_rated_orig := x11\<rparr>) = sizes a"
  "sizes (a\<lparr>score_changed := x12\<rparr>) = sizes a"
  "sizes (a\<lparr>TF_top_null := x13\<rparr>) = sizes a"
  "sizes (a\<lparr>pending_not_fuzzed := x14\<rparr>) = sizes a"
  "sizes (a\<lparr>queued_favored := x15\<rparr>) = sizes a"
  "sizes (a\<lparr>pending_favored := x16\<rparr>) = sizes a"
  "sizes (a\<lparr>cur_depth := x17\<rparr>) = sizes a"
  "sizes (a\<lparr>max_depth := x18\<rparr>) = sizes a"
  "sizes (a\<lparr>cycles_wo_finds := x19\<rparr>) = sizes a"
  "sizes (a\<lparr>last_path_time := x20\<rparr>) = sizes a"
  "sizes (a\<lparr>dumb_mode := x21\<rparr>) = sizes a"
  "sizes (a\<lparr>TF_switch := x22\<rparr>) = sizes a"
  "sizes (b\<lparr>auto_changed := x23\<rparr>) = sizes b"
  "sizes (b\<lparr>extras := x24\<rparr>) = sizes b"
  "sizes (b\<lparr>a_extras := x25\<rparr>) = sizes b"
  "sizes (c\<lparr>virgin_bits := x26\<rparr>) = sizes c"
  "sizes (c\<lparr>virgin_tmout := x27\<rparr>) = sizes c"
  "sizes (c\<lparr>virgin_crash := x28\<rparr>) = sizes c"
  "sizes (c\<lparr>virgin_hybrid := x29\<rparr>) = sizes c"
  "sizes (c\<lparr>var_bytes := x30\<rparr>) = sizes c"
  "sizes (c\<lparr>bitmap_changed := x31\<rparr>) = sizes c"
  "sizes (c\<lparr>out_file := x32\<rparr>) = sizes c"
  "sizes (c\<lparr>testcase := x33\<rparr>) = sizes c"
  "sizes (c\<lparr>exec_tmout := x34\<rparr>) = sizes c"
  "sizes (c\<lparr>hang_tmout := x35\<rparr>) = sizes c"
  "sizes (c\<lparr>crash_mode := x36\<rparr>) = sizes c"
  "sizes (c\<lparr>no_forkserver := x37\<rparr>) = sizes c"
  "sizes (c\<lparr>uses_asan := x38\<rparr>) = sizes c"
  "sizes (c\<lparr>fast_cal := x39\<rparr>) = sizes c"
  "sizes (c\<lparr>resuming_fuzz := x40\<rparr>) = sizes c"
  "sizes (c\<lparr>stop_soon := x41\<rparr>) = sizes c"
  "sizes (c\<lparr>skip_requested := x42\<rparr>) = sizes c"
  "sizes (c\<lparr>child_timed_out := x43\<rparr>) = sizes c"
  "sizes (c\<lparr>kill_signal := x44\<rparr>) = sizes c"
  "sizes (c\<lparr>prev_timed_out := x45\<rparr>) = sizes c"
  "sizes (c\<lparr>runs := x46\<rparr>) = sizes c"
  "sizes (d\<lparr>total_execs := x47\<rparr>) = sizes d"
  "sizes (d\<lparr>total_crashes := x48\<rparr>) = sizes d"
  "sizes (d\<lparr>unique_crashes := x49\<rparr>) = sizes d"
  "sizes (d\<lparr>total_tmouts := x50\<rparr>) = sizes d"
  "sizes (d\<lparr>unique_tmouts := x51\<rparr>) = sizes d"
  "sizes (d\<lparr>unique_hangs := x52\<rparr>) = sizes d"
  "sizes (d\<lparr>last_crash_time := x53\<rparr>) = sizes d"
  "sizes (d\<lparr>last_hang_time := x54\<rparr>) = sizes d"
  "sizes (d\<lparr>last_crash_execs := x55\<rparr>) = sizes d"
  "sizes (d\<lparr>total_cal_us := x56\<rparr>) = sizes d"
  "sizes (d\<lparr>total_cal_cycles := x57\<rparr>) = sizes d"
  "sizes (d\<lparr>total_bitmap_size := x58\<rparr>) = sizes d"
  "sizes (d\<lparr>total_bitmap_entries := x59\<rparr>) = sizes d"
  "sizes (d\<lparr>queued_with_cov := x60\<rparr>) = sizes d"
  "sizes (d\<lparr>queued_with_hybrid := x61\<rparr>) = sizes d"
  "sizes (d\<lparr>queued_with_incorrect := x62\<rparr>) = sizes d"
  "sizes (d\<lparr>queued_variable := x63\<rparr>) = sizes d"
  "sizes (d\<lparr>queued_discovered := x64\<rparr>) = sizes d"
  "sizes (d\<lparr>var_byte_count := x65\<rparr>) = sizes d"
  "sizes (d\<lparr>subseq_tmouts := x66\<rparr>) = sizes d"
  "sizes (d\<lparr>cur_skipped_paths := x67\<rparr>) = sizes d"
  "sizes (d\<lparr>trim_execs := x68\<rparr>) = sizes d"
  "sizes (d\<lparr>bytes_trim_in := x69\<rparr>) = sizes d"
  "sizes (d\<lparr>bytes_trim_out := x70\<rparr>) = sizes d"
  "sizes (e\<lparr>start_time := x71\<rparr>) = sizes e"
  "sizes (e\<lparr>last_ms := x72\<rparr>) = sizes e"
  "sizes (e\<lparr>last_stats_ms := x73\<rparr>) = sizes e"
  "sizes (e\<lparr>stats_update_freq := x74\<rparr>) = sizes e"
  "sizes (e\<lparr>run_over10m := x75\<rparr>) = sizes e"
  "sizes (s\<lparr>stage_short := x76\<rparr>) = sizes s"
  "sizes (s\<lparr>stage_cur := x77\<rparr>) = sizes s"
  "sizes (s\<lparr>stage_max := x78\<rparr>) = sizes s"
  "sizes (s\<lparr>stage_cur_byte := x79\<rparr>) = sizes s"
  "sizes (s\<lparr>stage_cur_val := x80\<rparr>) = sizes s"
  "sizes (s\<lparr>stage_val_type := x81\<rparr>) = sizes s"
  "sizes (s\<lparr>stage_finds := x82\<rparr>) = sizes s"
  "sizes (s\<lparr>stage_cycles := x83\<rparr>) = sizes s"
  "sizes (s\<lparr>syncing_party := x84\<rparr>) = sizes s"
  "sizes (s\<lparr>syncing_case := x85\<rparr>) = sizes s"
  "sizes (s\<lparr>splicing_with := x86\<rparr>) = sizes s"
  "sizes (s\<lparr>current_entry := x87\<rparr>) = sizes s"
  "sizes (s\<lparr>queue_cycle := x88\<rparr>) = sizes s"
  "sizes (s\<lparr>blocks_eff_total := x89\<rparr>) = sizes s"
  "sizes (s\<lparr>blocks_eff_select := x90\<rparr>) = sizes s"
  "sizes (s\<lparr>tried := x91\<rparr>) = sizes s"
  by (simp_all add: sizes_def)

lemma links_wf:
  assumes "links s = links t"
  shows "queue_wf s \<longleftrightarrow> queue_wf t" "length (entries s) = length (entries t)"
    "queued_paths s = queued_paths t" "queue s = queue t" "queue_top s = queue_top t"
proof -
  have m: "map (\<lambda>e. (q_next e, next_100 e)) (entries s) = map (\<lambda>e. (q_next e, next_100 e)) (entries t)"
    and e: "queue s = queue t" "queue_top s = queue_top t" "q_prev100 s = q_prev100 t" "queued_paths s = queued_paths t"
    using assms by (simp_all add: links_def)
  show l: "length (entries s) = length (entries t)" using m by (metis length_map)
  have "q_next (ent s p) = q_next (ent t p) \<and> next_100 (ent s p) = next_100 (ent t p)"
    if "p < length (entries s)" for p
  proof -
    have "map (\<lambda>e. (q_next e, next_100 e)) (entries s) ! p = map (\<lambda>e. (q_next e, next_100 e)) (entries t) ! p"
      using m by simp
    then show ?thesis using that l by (simp add: ent_def)
  qed
  moreover have "entries s = [] \<longleftrightarrow> entries t = []" using l by (metis length_0_conv)
  ultimately show "queue_wf s \<longleftrightarrow> queue_wf t" using e l by (auto simp: queue_wf_def list_wf_def)
  show "queued_paths s = queued_paths t" "queue s = queue t" "queue_top s = queue_top t" by fact+
qed

text \<open>The part of the list's shape that does not depend on the 32-bit counter.\<close>

definition list_top :: "'a queue_st_scheme \<Rightarrow> bool" where
  "list_top s \<longleftrightarrow> list_wf s \<and> queue_top s = (if entries s = [] then None else Some (length (entries s) - 1)) \<and>
     (\<forall>r. Some r \<in> set (map next_100 (entries s)) \<longrightarrow> r < length (entries s))"

lemma queue_wf_top:
  assumes "queue_wf s" shows "list_top s"
proof -
  have "r < length (entries s)" if "Some r \<in> set (map next_100 (entries s))" for r
  proof -
    obtain p where "p < length (entries s)" "next_100 (ent s p) = Some r"
      using \<open>Some r \<in> set (map next_100 (entries s))\<close> by (fastforce simp: in_set_conv_nth ent_def)
    then show ?thesis using assms by (auto simp: queue_wf_def split: if_splits)
  qed
  then show ?thesis using assms by (simp add: queue_wf_def list_top_def)
qed

lemma map_nth_iff: "map f xs = map g [0..<length xs] \<longleftrightarrow> (\<forall>p < length xs. f (xs ! p) = g p)"
  by (subst list_eq_iff_nth_eq) auto

lemma list_top_iff:
  "list_top s \<longleftrightarrow> queue s = (if entries s = [] then None else Some 0) \<and>
     queue_top s = (if entries s = [] then None else Some (length (entries s) - 1)) \<and>
     (\<forall>r. Some r \<in> set (map next_100 (entries s)) \<longrightarrow> r < length (entries s)) \<and>
     map q_next (entries s) = map (\<lambda>p. if Suc p < length (entries s) then Some (Suc p) else None) [0..<length (entries s)]"
  unfolding list_top_def list_wf_def ent_def map_nth_iff by blast

lemma links_top:
  assumes "links s = links t" shows "list_top s \<longleftrightarrow> list_top t"
proof -
  have "map f (map (\<lambda>e. (q_next e, next_100 e)) (entries s)) = map f (map (\<lambda>e. (q_next e, next_100 e)) (entries t))" for f :: "_ \<Rightarrow> nat option"
    using assms by (simp add: links_def)
  from this [of fst] this [of snd] have n: "map next_100 (entries s) = map next_100 (entries t)"
    and q: "map q_next (entries s) = map q_next (entries t)" by (simp_all add: o_def)
  have l: "length (entries s) = length (entries t)" using q by (rule map_eq_imp_length_eq)
  have e: "entries s = [] \<longleftrightarrow> entries t = []" using l by (metis length_0_conv)
  show ?thesis using assms n q l e by (simp only: list_top_iff links_def prod.inject)
qed

lemma map_q_next_100: "map q_next (entries (upd m (next_100_update f) s)) = map q_next (entries s)"
proof -
  have "map q_next (entries (upd m (next_100_update f) s)) = (map q_next (entries s))[m := q_next (entries s ! m)]"
    by (simp add: upd_def map_update)
  also have "\<dots> = map q_next (entries s)"
    by (cases "m < length (entries s)") (simp_all add: list_update_beyond list_update_same_conv)
  finally show ?thesis .
qed

lemma add_to_queue_next:
  assumes "add_to_queue E fn ln det s = Inr t"
  shows "map q_next (entries t) = (case queue_top s of
      Some k \<Rightarrow> (map q_next (entries s) @ [None])[k := Some (length (entries s))]
    | None \<Rightarrow> map q_next (entries s) @ [None])"
    and "queue t = (if queue_top s = None then Some (length (entries s)) else queue s)"
    and "queue_top t = Some (length (entries s))"
proof -
  have u: "map q_next (entries (upd k (q_next_update (\<lambda>_. Some n)) v)) = (map q_next (entries v))[k := Some n]"
    for k n and v :: "'a queue_st_scheme" by (simp add: upd_def map_update)
  show "map q_next (entries t) = (case queue_top s of
      Some k \<Rightarrow> (map q_next (entries s) @ [None])[k := Some (length (entries s))]
    | None \<Rightarrow> map q_next (entries s) @ [None])" "queue t = (if queue_top s = None then Some (length (entries s)) else queue s)"
    "queue_top t = Some (length (entries s))"
    using assms unfolding add_to_queue_def Let_def
    by (auto simp: bnd_Inr_iff get_cur_time_def map_q_next_100 u split: option.splits if_splits)
qed

lemma map_next_100_upd: "set (map next_100 (entries (upd m (next_100_update (\<lambda>_. r)) s))) \<subseteq> insert r (set (map next_100 (entries s)))"
proof -
  have "map next_100 (entries (upd m (next_100_update (\<lambda>_. r)) s)) = (map next_100 (entries s))[m := r]"
    by (simp add: upd_def map_update)
  then show ?thesis using set_update_subset_insert by metis
qed

lemma map_next_100_next: "map next_100 (entries (upd k (q_next_update f) s)) = map next_100 (entries s)"
proof -
  have "map next_100 (entries (upd k (q_next_update f) s)) = (map next_100 (entries s))[k := next_100 (entries s ! k)]"
    by (simp add: upd_def map_update)
  also have "\<dots> = map next_100 (entries s)"
    by (cases "k < length (entries s)") (simp_all add: list_update_beyond list_update_same_conv)
  finally show ?thesis .
qed

lemma add_to_queue_100:
  assumes "add_to_queue E fn ln det s = Inr t"
  shows "set (map next_100 (entries t)) \<subseteq> {None, Some (length (entries s))} \<union> set (map next_100 (entries s))"
proof -
  have u: "set (map next_100 (entries (upd m (next_100_update (\<lambda>_. Some (length (entries s)))) v))) \<subseteq>
      {None, Some (length (entries s))} \<union> set (map next_100 (entries s))"
    if "set (map next_100 (entries v)) \<subseteq> insert None (set (map next_100 (entries s)))" for m and v :: "'a queue_st_scheme"
    using map_next_100_upd [of m "Some (length (entries s))" v] that by blast
  show ?thesis
    using assms unfolding add_to_queue_def Let_def
    by (auto simp del: set_map simp: bnd_Inr_iff get_cur_time_def map_next_100_next split: option.splits if_splits
        dest!: subsetD [OF u, rotated])
qed

lemma add_to_queue_top:
  assumes a: "add_to_queue E fn ln det s = Inr t" and top: "list_top s"
  shows "list_top t"
proof -
  let ?n = "length (entries s)"
  have l: "length (entries t) = Suc ?n"
  proof -
    have "length (map q_next (entries t)) = Suc ?n"
      unfolding add_to_queue_next(1) [OF a] by (simp split: option.split)
    then show ?thesis by simp
  qed
  have m: "map q_next (entries s) = map (\<lambda>p. if Suc p < ?n then Some (Suc p) else None) [0..<?n]"
    using top by (simp add: list_top_iff)
  have "map q_next (entries t) = map (\<lambda>p. if Suc p < Suc ?n then Some (Suc p) else None) [0..<Suc ?n]"
  proof (cases "?n = 0")
    case True
    then show ?thesis using top add_to_queue_next(1) [OF a] by (simp add: list_top_iff)
  next
    case False
    then have q: "queue_top s = Some (?n - 1)" using top by (auto simp: list_top_def)
    show ?thesis
      unfolding add_to_queue_next(1) [OF a] q option.case m
      using False by (intro nth_equalityI) (auto simp: nth_append nth_list_update)
  qed
  moreover have "r < Suc ?n" if "Some r \<in> set (map next_100 (entries t))" for r
    using subsetD [OF add_to_queue_100 [OF a] that] top by (fastforce simp: list_top_iff)
  ultimately show ?thesis
    using add_to_queue_next(2,3) [OF a] top l by (auto simp: list_top_iff)
qed

text \<open>The two relations of the frame lemmas.\<close>

definition same :: "'a stage_st_scheme \<Rightarrow> 'a stage_st_scheme \<Rightarrow> bool" where
  "same s t \<longleftrightarrow> stage_view t = stage_view s \<and> links t = links s \<and> sizes t = sizes s"

definition same_cal :: "'a stage_st_scheme \<Rightarrow> 'a stage_st_scheme \<Rightarrow> bool" where
  "same_cal s t \<longleftrightarrow> cal_view t = cal_view s \<and> links t = links s \<and> sizes t = sizes s"

lemma same_refl [simp]: "same s s" "same_cal s s"
  by (simp_all add: same_def same_cal_def)

lemma same_trans [trans]: "same s t \<Longrightarrow> same t u \<Longrightarrow> same s u"
  by (simp add: same_def)

lemma same_cal_trans [trans]: "same_cal s t \<Longrightarrow> same_cal t u \<Longrightarrow> same_cal s u"
  by (simp add: same_cal_def)

lemma same_cal: "same s t \<Longrightarrow> same_cal s t"
  by (simp add: same_def same_cal_def stage_view_def)

subsection \<open>The world and the files\<close>

lemma get_cur_time_same: "get_cur_time E s = (now, t) \<Longrightarrow> same s t"
  by (auto simp: get_cur_time_def same_def)

lemma get_cur_time_us_same: "get_cur_time_us E s = (now, t) \<Longrightarrow> same s t"
  by (auto simp: get_cur_time_us_def same_def)

lemma create_excl_same: "create_excl E fn d s = Inr t \<Longrightarrow> same s t"
  by (auto simp: create_excl_def same_def split: if_splits)

lemma create_trunc_same: "create_trunc E fn d s = Inr t \<Longrightarrow> same s t"
  by (auto simp: create_trunc_def same_def split: if_splits)

subsection \<open>Running the target\<close>

lemma write_to_testcase_same: "write_to_testcase E mem s = Inr t \<Longrightarrow> same s t"
  by (auto simp: write_to_testcase_def same_def split: if_splits option.splits)

lemma run_report_same: "run_report st tb s = (f, t) \<Longrightarrow> same s t"
  by (auto simp: run_report_def Let_def same_def split: if_splits)

lemma run_finish_same: "run_finish r s = (f, t) \<Longrightarrow> same s t"
  unfolding run_finish_def Let_def by (drule run_report_same) (simp add: same_def)

lemma run_target_same: "run_target E tm s = Inr (f, t) \<Longrightarrow> same s t"
  unfolding run_target_def Let_def
  by (auto simp: run_begin_def same_def split: if_splits fsrv_io.splits
      dest!: run_finish_same [unfolded same_def])

subsection \<open>The screen\<close>

lemma save_auto_same: "save_auto E s = Inr t \<Longrightarrow> same s t"
proof (cases "auto_changed s")
  case True
  assume "save_auto E s = Inr t"
  with True have f: "fold_res (save_auto_one E) [0..<min USE_AUTO_EXTRAS (length (a_extras s))]
      (s\<lparr>auto_changed := False\<rparr>) = Inr t" by (simp add: save_auto_def)
  show ?thesis
    by (rule fold_res_invariant [OF f, where I = "same s"])
      (auto simp: save_auto_one_def same_def dest!: create_trunc_same [unfolded same_def])
qed (simp add: save_auto_def)

lemma write_bitmap_same: "write_bitmap E s = Inr t \<Longrightarrow> same s t"
  by (auto simp: write_bitmap_def same_def split: if_splits dest!: create_trunc_same [unfolded same_def])

lemma stats_same: "stats_save E now s = Inr t \<Longrightarrow> same s t" "same s (stats_stop E s)"
  by (auto simp: stats_save_def stats_stop_def bnd_Inr_iff same_def split: if_splits
      dest!: write_bitmap_same [unfolded same_def] save_auto_same [unfolded same_def])

lemma show_stats_same:
  assumes "show_stats E s = Inr t" shows "same s t"
proof -
  obtain now s1 where g: "get_cur_time E s = (now, s1)" by fastforce
  show ?thesis
    using assms get_cur_time_same [OF g] unfolding show_stats_def g Let_def
    by (auto simp: bnd_Inr_iff same_def stats_same(2) [unfolded same_def] split: if_splits dest!: stats_same(1) [unfolded same_def])
qed

subsection \<open>Calibration\<close>

lemma mark_as_variable_same: "mark_as_variable E q s = Inr t \<Longrightarrow> same s t"
  unfolding mark_as_variable_def Let_def
  by (auto simp: same_def bnd_Inr_iff split: option.splits if_splits
      dest!: create_excl_same [unfolded same_def])

lemma scored_same:
  assumes "scored s t" shows "same s t"
proof -
  have e: "unrated s = unrated t" using assms by (simp add: scored_def)
  have "stage_view (unrated s) = stage_view s" "links (unrated s) = links s" "sizes (unrated s) = sizes s"
    "stage_view (unrated t) = stage_view t" "links (unrated t) = links t" "sizes (unrated t) = sizes t"
    by (simp_all add: unrated_def stage_view_def cal_view_def links_def sizes_def unref_def o_def)
  then show ?thesis using e by (simp add: same_def)
qed

lemma cal_mark_var_same: "same_cal s (cal_mark_var first s)"
proof -
  have "same_cal s (fold (\<lambda>i s. if differs (var_bytes s) first (trace_bits s) i then
                   s\<lparr>var_bytes := (var_bytes s)[i := 1], stage_max := CAL_CYCLES_LONG\<rparr>
                 else s) xs u)" if "same_cal s u" for xs u
    using that by (induction xs arbitrary: u) (auto simp: same_cal_def)
  then show ?thesis unfolding cal_mark_var_def by simp
qed

lemma has_new_same:
  "has_new_bits_main s = (r, t) \<Longrightarrow> same s t" "has_new_bits_tmout s = (r, t) \<Longrightarrow> same s t"
  "has_new_bits_crash s = (r, t) \<Longrightarrow> same s t" "has_new_metric_main s = (r, t) \<Longrightarrow> same s t"
  by (auto simp: has_new_bits_main_def has_new_bits_tmout_def has_new_bits_crash_def
      has_new_metric_main_def same_def split_beta)

lemma cal_new_cksum_same:
  assumes "cal_new_cksum q ck l s = (l', t)" shows "same_cal s t"
proof -
  obtain hnb s1 where a: "has_new_bits_main s = (hnb, s1)" by fastforce
  obtain hnm s2 where b: "has_new_metric_main s1 = (hnm, s2)" by fastforce
  have "same_cal s s2" using has_new_same(1) [OF a] has_new_same(4) [OF b] same_trans same_cal by blast
  then show ?thesis
    using assms unfolding cal_new_cksum_def Let_def
    by (auto simp: a b same_cal_def cal_mark_var_same [unfolded same_cal_def] split: if_splits)
qed

lemma cal_cycle_same:
  "post (\<lambda>(ab, f, l', t). same_cal s t) (cal_cycle E q mem tm fr l s)"
  unfolding cal_cycle_def
proof (rule post_bnd [where Q = "same_cal s"], goal_cases)
  case 1
  show ?case
    by (auto intro!: postI simp: bnd_Inr_iff split: if_splits intro: same_cal [OF show_stats_same])
next
  case (2 s1)
  show ?case
  proof (rule post_bnd [where Q = "same_cal s"], goal_cases)
    case 1
    show ?case
      using 2 write_to_testcase_same same_cal same_cal_trans by (force intro!: postI split: if_splits)
  next
    case (2 s2)
    show ?case
    proof (rule post_bnd [where Q = "\<lambda>(f, t). same_cal s t"], goal_cases)
      case 1
      show ?case using 2 run_target_same same_cal same_cal_trans by (force intro!: postI)
    next
      case (2 x)
      obtain f t where x: "x = (f, t)" by fastforce
      obtain l' u where n: "cal_new_cksum q (map_cksum t) l t = (l', u)" by fastforce
      have "same_cal s t" using 2 x by simp
      then show ?case
        using same_cal_trans [OF _ cal_new_cksum_same [OF n]] by (simp add: x n Let_def)
    qed
  qed
qed

lemma cal_loop_same:
  "cal_loop E q mem tm fr n f l s = Inr (ab, f', l', t) \<Longrightarrow> same_cal s t"
proof (induction n arbitrary: f l s)
  case (Suc n)
  show ?case
  proof (cases "sint (stage_cur s) < sint (stage_max s)")
    case True
    with Suc.prems obtain a f1 l1 s1 where c: "cal_cycle E q mem tm fr l s = Inr (a, f1, l1, s1)"
      and r: "if a then s1 = t
        else cal_loop E q mem tm fr n f1 l1 (s1\<lparr>stage_cur := stage_cur s1 + 1\<rparr>) = Inr (ab, f', l', t)"
      by (auto simp: bnd_Inr_iff split: if_splits)
    have s1: "same_cal s s1" using postD [OF cal_cycle_same c] by simp
    show ?thesis
    proof (cases a)
      case False
      then have "same_cal (s1\<lparr>stage_cur := stage_cur s1 + 1\<rparr>) t" using Suc.IH r by simp
      then show ?thesis using s1 by (simp add: same_cal_def)
    qed (use r s1 in simp)
  qed (use Suc.prems in simp)
qed simp

lemma cal_record_same:
  assumes "cal_record E q st h fr f l s = (f', t)" shows "same s t"
proof -
  obtain now s1 where g: "get_cur_time_us E s = (now, s1)" by fastforce
  have sc: "same u (update_bitmap_score q u)" for u :: "'a stage_st_scheme"
    by (rule scored_same [OF update_bitmap_score_scored])
  show ?thesis
    using assms get_cur_time_us_same [OF g] unfolding cal_record_def g Let_def
    by (auto simp: same_def sc [unfolded same_def])
qed

lemma cal_mark_same:
  assumes "cal_mark E q l s = Inr t" shows "same s t"
  using assms unfolding cal_mark_def Let_def
  by (auto simp: same_def bnd_Inr_iff split: if_splits dest!: mark_as_variable_same [unfolded same_def])

lemma calibrate_case_same: "post (\<lambda>(f, t). same s t) (calibrate_case E q mem h fq s)"
proof -
  let ?fr = "exec_cksum (ent s q) = 0"
  let ?s1 = "(upd q (\<lambda>e. e\<lparr>cal_failed := cal_failed e + 1\<rparr>) s)\<lparr>stage_max := (if fast_cal s then 3 else CAL_CYCLES)\<rparr>"
  let ?l0 = "\<lparr>first_trace = trace_bits ?s1, cal_bits = 0, new_hybrid = 0, var_detected = False\<rparr>"
  obtain st s2 where g: "get_cur_time_us E ?s1 = (st, s2)" by fastforce
  have "same_cal ?s1 s2" by (rule same_cal [OF get_cur_time_us_same [OF g]])
  then have s2: "same_cal s (s2\<lparr>stage_cur := 0\<rparr>)" by (simp add: same_cal_def)
  show ?thesis
    unfolding calibrate_case_def Let_def g prod.case
  proof (rule post_bnd [where Q = "\<lambda>(ab, f, l, t). same_cal s t"], goal_cases)
    case 1
    show ?case using cal_loop_same same_cal_trans [OF s2] by (fastforce intro!: postI)
  next
    case (2 x)
    obtain ab fl l s3 where x: "x = (ab, fl, l, s3)" by (cases x)
    obtain f' s4 where rec: "(if ab then (fl, s3) else cal_record E q st h ?fr fl l s3) = (f', s4)"
      by fastforce
    have "same_cal s3 s4" using rec by (cases ab) (auto intro: same_cal [OF cal_record_same])
    then have s4: "same_cal s s4" using 2 x same_cal_trans by auto
    show ?case
      unfolding x prod.case rec
    proof (rule post_bnd [where Q = "same_cal s"], goal_cases)
      case 1
      show ?case using cal_mark_same same_cal same_cal_trans [OF s4] by (force intro!: postI)
    next
      case (2 s5)
      let ?s6 = "s5\<lparr>stage_cur := stage_cur s, stage_max := stage_max s\<rparr>"
      have "same s ?s6" using 2 by (simp add: same_def same_cal_def stage_view_def)
      then have "post (same s) (if ?fr then Inr ?s6 else show_stats E ?s6)"
        using show_stats_same [of E ?s6] same_trans by (auto simp: post_def)
      then show ?case by (rule post_bnd) simp
    qed
  qed
qed

subsection \<open>Saving\<close>

text \<open>The queue may grow; it stays well formed while its counters do not wrap.\<close>

definition grows :: "'a stage_st_scheme \<Rightarrow> 'a stage_st_scheme \<Rightarrow> bool" where
  "grows s t \<longleftrightarrow> stage_view t = stage_view s \<and> length (entries s) \<le> length (entries t) \<and>
     (list_top s \<longrightarrow> list_top t) \<and> (queue_wf s \<and> length (entries t) < 2 ^ 32 \<longrightarrow> queue_wf t)"

lemma same_grows: "same s t \<Longrightarrow> grows s t"
  using links_wf [of t s] links_top [of t s] by (simp add: same_def grows_def)

lemma grows_trans [trans]: "grows s t \<Longrightarrow> grows t u \<Longrightarrow> grows s u"
  by (simp add: grows_def)

lemma grows_refl [simp]: "grows s s"
  by (simp add: grows_def)

lemma add_to_queue_grows:
  assumes "add_to_queue E fn ln det s = Inr t" shows "grows s t"
proof -
  have v: "stage_view t = stage_view s \<and> length (entries t) = Suc (length (entries s))"
    using assms unfolding add_to_queue_def Let_def raise_max_depth_def
    by (auto simp: bnd_Inr_iff get_cur_time_def split: option.splits if_splits)
  moreover have "queue_wf t" if "queue_wf s" "length (entries t) < 2 ^ 32"
    using add_to_queue_wf [OF that(1)] v that(2) assms by (metis sum.inject(2))
  ultimately show ?thesis using add_to_queue_top [OF assms] by (simp add: grows_def)
qed

lemma hybrid_tests_same: "hybrid_tests s = (a, b, c, t) \<Longrightarrow> same s t"
  by (auto simp: hybrid_tests_def split: if_splits prod.splits dest: has_new_same)

lemma mark_top_same: "same s (mark_top t a b c d s)"
  by (simp add: mark_top_def Let_def same_def)

lemma queue_find_grows: "post (grows s) (queue_find E mem hnb s)"
proof -
  obtain a b c s1 where h: "hybrid_tests s = (a, b, c, s1)" by (metis prod_cases4)
  have s1: "grows s s1" by (rule same_grows [OF hybrid_tests_same [OF h]])
  show ?thesis
    unfolding queue_find_def h prod.case Let_def
  proof (rule post_bnd [where Q = "\<lambda>_. True"], goal_cases)
    case (2 op)
    show ?case
    proof (rule post_bnd [where Q = "grows s"], goal_cases)
      case 1
      show ?case using grows_trans [OF s1 add_to_queue_grows] by (auto intro!: postI)
    next
      case (2 s2)
      show ?case
      proof (cases "queue_top s2")
        case (Some t)
        let ?m = "mark_top t hnb b a c s2"
        let ?u = "upd t (exec_cksum_update (\<lambda>_. map_cksum ?m)) ?m"
        have "same s2 ?u" using mark_top_same [of s2] by (simp add: same_def)
        then have u: "grows s ?u" using grows_trans [OF 2 same_grows] by blast
        show ?thesis
          unfolding Some option.case
        proof (rule post_bnd [where Q = "\<lambda>(f, t). grows s t"], goal_cases)
          case 1
          show ?case
            by (rule post_mono [OF calibrate_case_same]) (auto intro: grows_trans [OF u same_grows])
        next
          case (2 x)
          then show ?case
            by (cases x) (auto intro!: postI intro: grows_trans same_grows dest!: create_excl_same)
        qed
      qed simp
    qed
  qed (simp add: postI)
qed

lemma keep_expected_grows: "post (\<lambda>(fin, k, t). grows s t) (keep_expected E mem f s)"
proof (cases "f = crash_mode s")
  case True
  obtain hnb s1 where h: "has_new_bits_main s = (hnb, s1)" by fastforce
  have g: "grows s s1" by (rule same_grows [OF has_new_same(1) [OF h]])
  show ?thesis
  proof (cases "hnb = 0")
    case True
    have "grows s1 (s1\<lparr>total_crashes := c\<rparr>)" for c by (rule same_grows) (simp add: same_def)
    then show ?thesis
      using g grows_trans True \<open>f = crash_mode s\<close> by (auto simp: keep_expected_def h)
  next
    case False
    have "post (\<lambda>(fin, k, t). grows s t) (bnd (queue_find E mem hnb s1) (\<lambda>s2. Inr (False, True, s2)))"
      by (rule post_bnd [OF queue_find_grows]) (simp add: grows_trans [OF g])
    then show ?thesis using False \<open>f = crash_mode s\<close> by (simp add: keep_expected_def h)
  qed
qed (simp add: keep_expected_def)

lemma write_crash_readme_same: "same s (write_crash_readme E s)"
  unfolding write_crash_readme_def by (cases "create_excl E (out_dir s @ ''/crashes/README.txt'') (readme_text E) s")
    (auto dest: create_excl_same)

text \<open>Naming a find and writing it out.\<close>

lemma save_file_same:
  assumes "\<And>op. same s (u op)"
  shows "post (\<lambda>(k, t). same s t) (bnd (describe_op 0 0 0 False v) (\<lambda>op.
     bnd (create_excl E (fn op) mem (u op)) (\<lambda>t. Inr (k, t))))"
  by (rule post_bnd [where Q = "\<lambda>_. True"])
    (auto intro!: postI simp: bnd_Inr_iff dest!: create_excl_same intro: same_trans [OF assms])

lemma save_hang_same: "post (\<lambda>(k, t). same s t) (save_hang E mem keeping s)"
proof -
  obtain now s1 where g: "get_cur_time E (s\<lparr>unique_hangs := unique_hangs s + 1\<rparr>) = (now, s1)" by fastforce
  have "same s (s1\<lparr>last_hang_time := now\<rparr>)" using get_cur_time_same [OF g] by (simp add: same_def)
  then show ?thesis unfolding save_hang_def Let_def g prod.case by (rule save_file_same)
qed

lemma simplified_same:
  assumes "(if dumb_mode s = 0 then has_new_bits_crash (s\<lparr>trace_bits := b\<rparr>) else (1, s)) = (h, t) \<or>
    (if dumb_mode s = 0 then has_new_bits_tmout (s\<lparr>trace_bits := b\<rparr>) else (1, s)) = (h, t)"
  shows "same s t"
  using assms by (auto simp: same_def split: if_splits dest!: has_new_same(2,3) [unfolded same_def])

lemma save_crash_same: "post (\<lambda>(k, t). same s t) (save_crash E mem keeping s)"
proof -
  let ?s = "s\<lparr>total_crashes := total_crashes s + 1\<rparr>"
  obtain hnb s1 where h: "(if dumb_mode ?s = 0 then has_new_bits_crash (?s\<lparr>trace_bits := simplify_trace (trace_bits ?s)\<rparr>)
      else (1, ?s)) = (hnb, s1)" by fastforce
  have s0: "same s ?s" by (simp add: same_def)
  have s1: "same s s1" using s0 simplified_same [OF disjI1, OF h] by (rule same_trans)
  define s2 where "s2 = (if unique_crashes s1 = 0 then write_crash_readme E s1 else s1)"
  have s2: "same s s2" using s1 write_crash_readme_same [of s1] same_trans by (auto simp: s2_def)
  obtain now s3 where g: "get_cur_time E (s2\<lparr>unique_crashes := unique_crashes s2 + 1\<rparr>) = (now, s3)" by fastforce
  have s3: "same s (s3\<lparr>last_crash_time := now, last_crash_execs := total_execs s3\<rparr>)"
    using s2 get_cur_time_same [OF g] by (simp add: same_def)
  note saved = save_file_same [OF s3]
  show ?thesis
    unfolding save_crash_def Let_def h prod.case s2_def [symmetric] g
    by (auto intro!: saved simp: s0 s1)
qed

lemma save_timeout_same: "post (\<lambda>(k, t). same s t) (save_timeout E mem keeping s)"
proof -
  let ?s = "s\<lparr>total_tmouts := total_tmouts s + 1\<rparr>"
  obtain hnb s1 where h: "(if dumb_mode ?s = 0 then has_new_bits_tmout (?s\<lparr>trace_bits := simplify_trace (trace_bits ?s)\<rparr>)
      else (1, ?s)) = (hnb, s1)" by fastforce
  have s0: "same s ?s" by (simp add: same_def)
  have s1: "same s s1" using s0 simplified_same [OF disjI2, OF h] by (rule same_trans)
  let ?s2 = "s1\<lparr>unique_tmouts := unique_tmouts s1 + 1\<rparr>"
  have s2: "same s ?s2" using s1 by (simp add: same_def)
  have hang: "post (\<lambda>(k, t). same s t) (save_hang E mem keeping u)" if "same s u" for u
    by (rule post_mono [OF save_hang_same]) (auto intro: same_trans [OF that])
  have crash: "post (\<lambda>(k, t). same s t) (save_crash E mem keeping u)" if "same s u" for u
    by (rule post_mono [OF save_crash_same]) (auto intro: same_trans [OF that])
  have rerun: "post (\<lambda>(k, t). same s t) (bnd (write_to_testcase E mem ?s2) (\<lambda>s3.
      bnd (run_target E (hang_tmout s3) s3) (\<lambda>(new_fault, s4).
        if \<not> stop_soon s4 \<and> new_fault = FAULT_CRASH then save_crash E mem keeping s4
        else if stop_soon s4 \<or> new_fault \<noteq> FAULT_TMOUT then Inr (keeping, s4)
        else save_hang E mem keeping s4)))"
  proof (rule post_bnd [where Q = "same s"], goal_cases)
    case 1
    show ?case using same_trans [OF s2 write_to_testcase_same] by (auto intro!: postI)
  next
    case (2 s3)
    show ?case
      by (rule post_bnd [where Q = "\<lambda>(f, t). same s t"])
        (use same_trans [OF 2 run_target_same] hang crash in \<open>auto intro!: postI [of "run_target E t u" for t u]\<close>)
  qed
  show ?thesis
    using s0 s1 hang [OF s2] rerun unfolding save_timeout_def Let_def h prod.case by simp
qed

lemma save_if_interesting_grows: "post (\<lambda>(k, t). grows s t) (save_if_interesting E mem f s)"
  unfolding save_if_interesting_def
proof (rule post_bnd [OF keep_expected_grows], goal_cases)
  case (1 x)
  obtain fin k t where x: "x = (fin, k, t)" by (cases x)
  have g: "grows s t" using 1 x by simp
  have "post (\<lambda>(k, t). grows s t) (save_crash E mem k t)" "post (\<lambda>(k, t). grows s t) (save_timeout E mem k t)"
    by (rule post_mono [OF save_crash_same] post_mono [OF save_timeout_same],
        auto intro: grows_trans [OF g same_grows])+
  then show ?case using g x by (auto split: fault.splits)
qed

subsection \<open>common_fuzz_stuff\<close>

text \<open>\<open>common_fuzz_stuff\<close> records the buffer it is given and otherwise only lets the queue grow.\<close>

definition tried_one :: "bytes \<Rightarrow> 'a stage_st_scheme \<Rightarrow> 'a stage_st_scheme" where
  "tried_one buf s = s\<lparr>tried := tried s @ [buf]\<rparr>"

lemma fuzz_buffer_grows: "post (\<lambda>(stop, t). grows s t) (fuzz_buffer E buf s)"
  unfolding fuzz_buffer_def
proof (rule post_bnd [where Q = "grows s"], goal_cases)
  case 1
  show ?case by (auto intro!: postI same_grows write_to_testcase_same)
next
  case (2 s1)
  show ?case
  proof (rule post_bnd [where Q = "\<lambda>(f, t). grows s t"], goal_cases)
    case 1
    show ?case using grows_trans [OF 2 same_grows [OF run_target_same]] by (auto intro!: postI)
  next
    case (2 x)
    obtain f t where x: "x = (f, t)" by fastforce
    have t: "grows s t" using 2 x by simp
    have u: "grows s (t\<lparr>subseq_tmouts := a\<rparr>)" "grows s (t\<lparr>subseq_tmouts := a, cur_skipped_paths := b\<rparr>)"
      "grows s (t\<lparr>subseq_tmouts := a, skip_requested := c, cur_skipped_paths := b\<rparr>)" for a b c
      by (rule grows_trans [OF t same_grows], simp add: same_def)+
    let ?s1 = "t\<lparr>subseq_tmouts := (if f = FAULT_TMOUT then subseq_tmouts t + 1 else 0)\<rparr>"
    have save: "post (\<lambda>(stop, t). grows s t) (bnd (save_if_interesting E buf f ?s1) (\<lambda>(kept, s2).
        let s3 = s2\<lparr>queued_discovered := queued_discovered s2 + (if kept then 1 else 0)\<rparr> in
        bnd (every (stage_cur s3) s3) (\<lambda>now.
        bnd (if now \<or> stage_cur s3 + 1 = stage_max s3 then show_stats E s3 else Inr s3)
          (\<lambda>s4. Inr (False, s4)))))"
    proof (rule post_bnd [OF save_if_interesting_grows], goal_cases)
      case (1 y)
      obtain k v where y: "y = (k, v)" by fastforce
      let ?v = "v\<lparr>queued_discovered := queued_discovered v + (if k then 1 else 0)\<rparr>"
      have "grows s v" using 1 u(1) grows_trans y by blast
      moreover have "same v ?v" by (simp add: same_def)
      ultimately have v: "grows s ?v" using grows_trans same_grows by blast
      have "post (grows s) (if now \<or> stage_cur ?v + 1 = stage_max ?v then show_stats E ?v else Inr ?v)" for now
        using v grows_trans [OF v same_grows [OF show_stats_same]] by (auto simp: post_def)
      then show ?case
        unfolding y prod.case Let_def
        by (intro post_bnd [where Q = "\<lambda>_. True"] post_bnd [where Q = "grows s"]) (auto intro: postI)
    qed
    show ?case
      unfolding x prod.case Let_def
      using t u save [unfolded Let_def] by auto
  qed
qed

lemma common_fuzz_stuff_grows:
  "post (\<lambda>(stop, t). grows (tried_one buf s) t) (common_fuzz_stuff E buf s)"
  unfolding common_fuzz_stuff_def Let_def tried_one_def
  by (auto split: option.splits simp: fuzz_buffer_grows)

end
