(* ===== verification/Walk.thy ===== *)
theory Walk
  imports Frames DictStages
begin

section \<open>Which buffers a stage tries\<close>

text \<open>
  The contract between the stages and the routine that runs a buffer (\<open>common_fuzz_stuff\<close>): each
  call records its buffer and leaves the position in the stage and the dictionaries alone. Under
  it every stage is a walk: it tries a list of buffers that depends on the input only, in order,
  keeps \<open>stage_cur\<close> and \<open>stage_max\<close> in step, and hands \<open>out_buf\<close> back as it got it.
\<close>

text \<open>What the stages leave alone, and what a single stage does until it is over.\<close>

definition rooted :: "'a stage_st_scheme \<Rightarrow> 'a stage_st_scheme \<Rightarrow> bool" where
  "rooted s t \<longleftrightarrow>
     extras t = extras s \<and> a_extras t = a_extras s \<and> dumb_mode t = dumb_mode s \<and>
     TF_switch t = TF_switch s \<and> splicing_with t = splicing_with s \<and> syncing_party t = syncing_party s \<and>
     current_entry t = current_entry s \<and> queue_cycle t = queue_cycle s \<and>
     stage_st.more t = stage_st.more s \<and> length (entries s) \<le> length (entries t) \<and>
     (list_top s \<longrightarrow> list_top t) \<and> (queue_wf s \<and> length (entries t) < 2 ^ 32 \<longrightarrow> queue_wf t)"

definition steady :: "'a stage_st_scheme \<Rightarrow> 'a stage_st_scheme \<Rightarrow> bool" where
  "steady s t \<longleftrightarrow> rooted s t \<and> stage_finds t = stage_finds s \<and> stage_cycles t = stage_cycles s \<and>
     stage_short t = stage_short s \<and>
     blocks_eff_total t = blocks_eff_total s \<and> blocks_eff_select t = blocks_eff_select s"

lemma rooted_refl [simp]: "rooted s s"
  by (simp add: rooted_def)

lemma rooted_trans [trans]: "rooted s t \<Longrightarrow> rooted t u \<Longrightarrow> rooted s u"
  unfolding rooted_def by (simp only:) auto

lemma steady_refl [simp]: "steady s s"
  by (simp add: steady_def)

lemma steady_trans [trans]: "steady s t \<Longrightarrow> steady t u \<Longrightarrow> steady s u"
  unfolding steady_def using rooted_trans by auto

lemma rooted_updates [simp]:
  "rooted s (t\<lparr>stage_cur := c\<rparr>) \<longleftrightarrow> rooted s t" "rooted s (t\<lparr>stage_max := c\<rparr>) \<longleftrightarrow> rooted s t"
  "rooted s (t\<lparr>stage_cur_byte := c\<rparr>) \<longleftrightarrow> rooted s t" "rooted s (t\<lparr>stage_cur_val := c\<rparr>) \<longleftrightarrow> rooted s t"
  "rooted s (t\<lparr>stage_val_type := v\<rparr>) \<longleftrightarrow> rooted s t" "rooted s (t\<lparr>tried := bs\<rparr>) \<longleftrightarrow> rooted s t"
  "rooted s (t\<lparr>stage_finds := fc\<rparr>) \<longleftrightarrow> rooted s t" "rooted s (t\<lparr>stage_cycles := fc\<rparr>) \<longleftrightarrow> rooted s t"
  "rooted s (t\<lparr>stage_short := n\<rparr>) \<longleftrightarrow> rooted s t" "rooted s (t\<lparr>blocks_eff_total := b\<rparr>) \<longleftrightarrow> rooted s t"
  "rooted s (t\<lparr>blocks_eff_select := b\<rparr>) \<longleftrightarrow> rooted s t"
  by (simp_all add: rooted_def queue_wf_def list_top_def list_wf_def ent_def)

lemma steady_updates [simp]:
  "steady s (t\<lparr>stage_cur := c\<rparr>) \<longleftrightarrow> steady s t" "steady s (t\<lparr>stage_max := c\<rparr>) \<longleftrightarrow> steady s t"
  "steady s (t\<lparr>stage_cur_byte := c\<rparr>) \<longleftrightarrow> steady s t" "steady s (t\<lparr>stage_cur_val := c\<rparr>) \<longleftrightarrow> steady s t"
  "steady s (t\<lparr>stage_val_type := v\<rparr>) \<longleftrightarrow> steady s t" "steady s (t\<lparr>tried := bs\<rparr>) \<longleftrightarrow> steady s t"
  "steady s (drop_slots m t) \<longleftrightarrow> steady s t" "steady s (set_byte i t) \<longleftrightarrow> steady s t"
  by (simp_all add: steady_def drop_slots_def set_byte_def)

lemma grows_steady: "grows s t \<Longrightarrow> steady s t"
  by (simp add: grows_def steady_def rooted_def stage_view_def cal_view_def)

text \<open>
  \<open>walked\<close>: what a piece of code that runs the buffers \<open>cands\<close> and accounts for \<open>n\<close> units of
  \<open>stage_max\<close> leaves; when it abandons the entry, it has run some of them.
\<close>

definition walked :: "'a stage_st_scheme \<Rightarrow> ('x \<Rightarrow> bool) \<Rightarrow> bytes list \<Rightarrow> nat \<Rightarrow>
    bool \<times> 'x \<times> 'a stage_st_scheme \<Rightarrow> bool" where
  "walked s J cands n r \<longleftrightarrow> (case r of (stop, x, t) \<Rightarrow> steady s t \<and>
     (if stop then \<exists>k. 0 < k \<and> k \<le> length cands \<and> tried t = tried s @ take k cands
      else J x \<and> tried t = tried s @ cands \<and> stage_cur t = stage_cur s + of_nat (length cands) \<and>
        stage_max t = stage_max s - of_nat n + of_nat (length cands)))"

text \<open>The run of a candidate fails.\<close>

definition run_fails :: "'a runner \<Rightarrow> bytes list \<Rightarrow> fatal \<Rightarrow> bool" where
  "run_fails run cands e \<longleftrightarrow> (\<exists>b u. b \<in> set cands \<and> run b u = Inl e)"

lemma run_fails_simps [simp]:
  "\<not> run_fails run [] e" "run_fails run (b # bs) e \<longleftrightarrow> (\<exists>u. run b u = Inl e) \<or> run_fails run bs e"
  "run_fails run (bs @ cs) e \<longleftrightarrow> run_fails run bs e \<or> run_fails run cs e"
  by (auto simp: run_fails_def)

text \<open>\<open>walks\<close>: started on locals with \<open>I\<close>; it fails only if the run of a candidate does.\<close>

definition walks :: "'a runner \<Rightarrow> ('x \<Rightarrow> bool) \<Rightarrow> ('y \<Rightarrow> bool) \<Rightarrow> bytes list \<Rightarrow> nat \<Rightarrow>
    ('x \<times> 'a stage_st_scheme \<Rightarrow> (bool \<times> 'y \<times> 'a stage_st_scheme) res) \<Rightarrow> bool" where
  "walks run I J cands n c \<longleftrightarrow> (\<forall>x s. I x \<longrightarrow>
     (case c (x, s) of Inl e \<Rightarrow> run_fails run cands e | Inr r \<Rightarrow> walked s J cands n r))"

lemma walksI:
  assumes "\<And>x s. I x \<Longrightarrow> (case c (x, s) of Inl e \<Rightarrow> run_fails run cands e | Inr r \<Rightarrow> walked s J cands n r)"
  shows "walks run I J cands n c"
  using assms by (simp add: walks_def)

lemma walksE:
  assumes "walks run I J cands n c" and "I x"
  obtains (fails) e where "c (x, s) = Inl e" "run_fails run cands e"
    | (returns) stop y t where "c (x, s) = Inr (stop, y, t)" "walked s J cands n (stop, y, t)"
  using assms(1) [unfolded walks_def, rule_format, OF assms(2), of s]
  by (cases "c (x, s)") auto

lemma walks_same:
  assumes "walks run I J cands n c" and "\<And>x s. I x \<Longrightarrow> c' (x, s) = c (x, s)"
  shows "walks run I J cands n c'"
  using assms by (simp add: walks_def)

subsection \<open>Composition\<close>

lemma walked_weaken:
  "walked s J cands n (stop, out, t) \<Longrightarrow> (J out \<Longrightarrow> J' out) \<Longrightarrow> walked s J' cands n (stop, out, t)"
  by (simp add: walked_def split: if_splits)

lemma walked_stop: "walked s J c1 n (True, out, t) \<Longrightarrow> walked s K (c1 @ c2) n' (True, out, t)"
  unfolding walked_def by (simp, elim conjE exE, rule_tac x = k in exI, simp)

lemma walked_append:
  assumes a: "walked s J c1 n1 (False, out1, t1)" and b: "walked t1 K c2 n2 (stop, out2, t2)"
  shows "walked s K (c1 @ c2) (n1 + n2) (stop, out2, t2)"
proof -
  have st: "steady s t2" using a b steady_trans by (auto simp: walked_def)
  show ?thesis
  proof (cases stop)
    case True
    with b obtain k where "0 < k" "k \<le> length c2" "tried t2 = tried t1 @ take k c2" by (auto simp: walked_def)
    then show ?thesis
      using a st True by (simp add: walked_def, intro exI [of _ "length c1 + k"], simp)
  next
    case False
    then show ?thesis using a b st by (simp add: walked_def)
  qed
qed

lemma walks_weaken:
  assumes "walks run I J cands n c" and "\<And>out. I' out \<Longrightarrow> I out" and "\<And>out. J out \<Longrightarrow> J' out"
  shows "walks run I' J' cands n c"
proof (rule walksI)
  fix out s assume "I' out"
  then have "I out" by (rule assms(2))
  then show "case c (out, s) of Inl e \<Rightarrow> run_fails run cands e | Inr r \<Rightarrow> walked s J' cands n r"
    by (rule walksE [OF assms(1), of _ s]) (auto intro: walked_weaken assms(3))
qed

lemma walks_cont:
  assumes f: "walks run I J c1 n1 f" and g: "walks run J K c2 n2 g"
  shows "walks run I K (c1 @ c2) (n1 + n2) (\<lambda>w. cont (f w) g)"
proof (rule walksI)
  fix out s assume i: "I out"
  show "case cont (f (out, s)) g of Inl e \<Rightarrow> run_fails run (c1 @ c2) e | Inr r \<Rightarrow> walked s K (c1 @ c2) (n1 + n2) r"
    using i
  proof (rule walksE [OF f, of _ s])
    fix stop out1 t1 assume a: "f (out, s) = Inr (stop, out1, t1)" "walked s J c1 n1 (stop, out1, t1)"
    show ?thesis
    proof (cases stop)
      case True
      then show ?thesis using a walked_stop by (simp add: cont_def)
    next
      case False
      then have "J out1" using a(2) by (simp add: walked_def)
      then show ?thesis
      proof (rule walksE [OF g, of _ t1])
        fix stop2 out2 t2 assume "g (out1, t1) = Inr (stop2, out2, t2)" "walked t1 K c2 n2 (stop2, out2, t2)"
        then show ?thesis using a False walked_append by (simp add: cont_def)
      qed (use a False in \<open>simp add: cont_def\<close>)
    qed
  qed (simp add: cont_def)
qed

lemma walks_skip: "walks run I I [] 0 (\<lambda>w. Inr (False, w))"
  by (rule walksI) (simp add: walked_def)

lemma cont_ret [simp]: "cont m (\<lambda>w. Inr (False, w)) = m"
  by (cases m) (auto simp: cont_def)

lemma for_each_cont: "for_each (i # is) body w = cont (body i w) (for_each is body)"
  by (simp add: cont_def)

lemma walks_for_each:
  assumes "\<And>i. i \<in> set is \<Longrightarrow> walks run I I (c i) (n i) (body i)"
  shows "walks run I I (concat (map c is)) (sum_list (map n is)) (for_each is body)"
  using assms
proof (induction "is")
  case Nil
  then show ?case by (intro walksI) (simp add: walked_def)
next
  case (Cons i "is")
  have "walks run I I (c i @ concat (map c is)) (n i + sum_list (map n is)) (\<lambda>w. cont (body i w) (for_each is body))"
    by (rule walks_cont) (use Cons in auto)
  then show ?case by (simp add: walks_def cont_def)
qed

text \<open>Assignments before a piece of code.\<close>

lemma walks_pre:
  assumes w: "walks run I J cands n c"
    and f: "\<And>s. steady s (f s)" "\<And>s. tried (f s) = tried s" "\<And>s. stage_cur (f s) = stage_cur s"
      "\<And>s. stage_max (f s) = stage_max s"
  shows "walks run I J cands n (\<lambda>(out, s). c (out, f s))"
proof (rule walksI)
  fix out s assume "I out"
  then show "case case (out, s) of (out, s) \<Rightarrow> c (out, f s) of
      Inl e \<Rightarrow> run_fails run cands e | Inr r \<Rightarrow> walked s J cands n r"
  proof (rule walksE [OF w, of _ "f s"])
    fix stop out' t assume "c (out, f s) = Inr (stop, out', t)" "walked (f s) J cands n (stop, out', t)"
    moreover have "steady s t" using steady_trans [OF f(1)] calculation by (simp add: walked_def)
    ultimately show ?thesis by (cases stop) (simp_all add: walked_def f)
  qed simp
qed

text \<open>The variables that only name and describe the stage.\<close>

lemma walks_labels:
  assumes w: "walks run I J cands n c"
  shows "walks run I J cands n (\<lambda>w. c (val_type_is ty w))" "walks run I J cands n (\<lambda>w. c (cur_val v w))"
proof -
  have "walks run I J cands n (\<lambda>(x, s). c (x, s\<lparr>stage_val_type := ty\<rparr>))"
    "walks run I J cands n (\<lambda>(x, s). c (x, s\<lparr>stage_cur_val := v\<rparr>))"
    by (rule walks_pre [OF w], simp_all)+
  then show "walks run I J cands n (\<lambda>w. c (val_type_is ty w))" "walks run I J cands n (\<lambda>w. c (cur_val v w))"
    by (simp_all add: walks_def val_type_is_def cur_val_def)
qed

lemma walks_byte:
  assumes "walks run I J cands n c"
  shows "walks run I J cands n (\<lambda>(x, s). c (x, set_byte i s))"
  by (rule walks_pre [OF assms]) (simp_all add: set_byte_def)

lemma walks_drop: "walks run I I [] n (\<lambda>(x, s). Inr (False, x, drop_slots n s))"
  by (rule walksI) (simp add: walked_def drop_slots_def)

subsection \<open>Candidates at one place\<close>

text \<open>\<open>near_copy i n buf\<close>: the buffer up to the \<open>n\<close> bytes at \<open>i\<close>.\<close>

definition near_copy :: "nat \<Rightarrow> nat \<Rightarrow> bytes \<Rightarrow> bytes \<Rightarrow> bool" where
  "near_copy i n buf out \<longleftrightarrow> (\<exists>z. length z = n \<and> out = put i z buf)"

lemma near_copy_self: "i + n \<le> length buf \<Longrightarrow> near_copy i n buf buf"
  unfolding near_copy_def by (rule exI [of _ "slice i n buf"]) simp

lemma near_copy_put:
  "near_copy i n buf out \<Longrightarrow> length v = n \<Longrightarrow> i + n \<le> length buf \<Longrightarrow> put i v out = put i v buf"
  by (auto simp: near_copy_def)

definition tries :: "bool \<Rightarrow> nat \<Rightarrow> bytes \<Rightarrow> bytes \<Rightarrow> bytes list" where
  "tries ok i val buf = (if ok then [put i val buf] else [])"

lemma walks_restore:
  assumes "i + n \<le> length buf" and "val = slice i n buf"
  shows "walks run (near_copy i n buf) ((=) buf) [] 0 (restore i val)"
proof (rule walksI)
  fix out s assume "near_copy i n buf out"
  then have "put i val out = put i val buf" using assms by (intro near_copy_put) auto
  then have "put i val out = buf" using assms(2) by simp
  then show "case restore i val (out, s) of Inl e \<Rightarrow> run_fails run [] e | Inr r \<Rightarrow> walked s ((=) buf) [] 0 r"
    by (simp add: restore_def walked_def)
qed

subsection \<open>The contract of the executor\<close>

locale executor =
  fixes run :: "'a runner"
  assumes run_grows: "run b s = Inr (stop, t) \<Longrightarrow> grows (tried_one b s) t"
begin

lemma run_keeps:
  assumes "run b s = Inr (stop, t)"
  shows "steady s t" "tried t = tried s @ [b]" "stage_cur t = stage_cur s" "stage_max t = stage_max s"
    "stage_cur_byte t = stage_cur_byte s"
proof -
  have g: "grows (tried_one b s) t" by (rule run_grows [OF assms])
  then have "steady (tried_one b s) t" by (rule grows_steady)
  moreover have "steady s (tried_one b s)" by (simp add: tried_one_def)
  ultimately show "steady s t" using steady_trans by blast
  show "tried t = tried s @ [b]" "stage_cur t = stage_cur s" "stage_max t = stage_max s"
    "stage_cur_byte t = stage_cur_byte s"
    using g by (simp_all add: grows_def stage_view_def cal_view_def tried_one_def)
qed

text \<open>One candidate: run and counted, or taken off \<open>stage_max\<close>.\<close>

lemma walks_run:
  assumes "\<And>x. I x \<Longrightarrow> J (f x)"
  shows "walks run I J [b] 1 (\<lambda>(x, s). bnd (run b s) (\<lambda>(stop, s').
    if stop then Inr (True, g x, s') else Inr (False, f x, s'\<lparr>stage_cur := stage_cur s' + 1\<rparr>)))"
proof (rule walksI)
  fix x and s :: "'a stage_st_scheme" assume i: "I x"
  show "case (case (x, s) of (x, s) \<Rightarrow> bnd (run b s) (\<lambda>(stop, s').
      if stop then Inr (True, g x, s') else Inr (False, f x, s'\<lparr>stage_cur := stage_cur s' + 1\<rparr>))) of
      Inl e \<Rightarrow> run_fails run [b] e | Inr r \<Rightarrow> walked s J [b] 1 r"
  proof (cases "run b s")
    case (Inr r)
    obtain stop t where r: "r = (stop, t)" by fastforce
    show ?thesis using run_keeps [OF Inr [unfolded r]] assms [OF i]
      by (auto simp: Inr r walked_def intro!: exI [of _ "1 :: nat"])
  qed auto
qed

lemma walks_attempt:
  assumes "length val = n" and "i + n \<le> length buf"
  shows "walks run (near_copy i n buf) (near_copy i n buf) (tries ok i val buf) 1 (attempt run ok i val)"
proof (cases ok)
  case True
  have p: "put i val out = put i val buf" if "near_copy i n buf out" for out
    using near_copy_put that assms by blast
  have "walks run (near_copy i n buf) (near_copy i n buf) [put i val buf] 1
     (\<lambda>(x, s). bnd (run (put i val buf) s) (\<lambda>(stop, s').
    if stop then Inr (True, put i val x, s') else Inr (False, put i val x, s'\<lparr>stage_cur := stage_cur s' + 1\<rparr>)))"
    by (rule walks_run) (use assms p in \<open>auto simp: near_copy_def\<close>)
  then show ?thesis
    using True by (auto simp: tries_def attempt_def p Let_def elim!: walks_same)
next
  case False
  have "walks run (near_copy i n buf) (near_copy i n buf) [] 1 (\<lambda>(x, s). Inr (False, x, drop_slots 1 s))"
    by (rule walks_drop)
  then show ?thesis using False by (auto simp: tries_def attempt_def elim!: walks_same)
qed

lemma walks_attempt_labelled:
  assumes "length val = n" and "i + n \<le> length buf"
  shows "walks run (near_copy i n buf) (near_copy i n buf) (tries ok i val buf) 1 (attempt_val run ok v i val)"
    "walks run (near_copy i n buf) (near_copy i n buf) (tries ok i val buf) 1 (attempt_typed run ok ty i val)"
  using walks_attempt [OF assms, of ok] walks_labels [OF walks_attempt [OF assms, of ok]]
  by (cases ok; simp add: walks_def attempt_val_def attempt_typed_def)+

end

interpretation fuzz_run: executor "common_fuzz_stuff E" for E
  by unfold_locales (use postD [OF common_fuzz_stuff_grows] in fastforce)

end
