(* ===== verification/StageWalks.thy ===== *)
theory StageWalks
  imports Walk
begin

unbundle bit_operations_syntax

section \<open>What the deterministic stages try\<close>

text \<open>
  For each stage the list of the buffers it runs, and the theorem that the stage of
  \<open>Stages\<close> and \<open>DictStages\<close> walks along it. \<open>stage_outcome\<close> is the common form of the claims.
\<close>

text \<open>The bytes that the code saves as \<open>orig\<close>.\<close>

lemma orig_slice:
  "i < length buf \<Longrightarrow> [buf ! i] = slice i 1 buf"
  "i + 2 \<le> length buf \<Longrightarrow> st16 (ld16 (drop i buf)) = slice i 2 buf"
  "i + 4 \<le> length buf \<Longrightarrow> st32 (ld32 (drop i buf)) = slice i 4 buf"
  by (simp_all add: slice_def take_Suc_conv_app_nth)

subsection \<open>The outcome of a stage\<close>

definition stage_outcome :: "'a runner \<Rightarrow> nat \<Rightarrow> bytes list \<Rightarrow> ('x \<Rightarrow> bool) \<Rightarrow> 'a stage_st_scheme \<Rightarrow>
    (bool \<times> 'x \<times> 'a stage_st_scheme) res \<Rightarrow> bool" where
  "stage_outcome run k cands J s r \<longleftrightarrow> (case r of
     Inl e \<Rightarrow> run_fails run cands e
   | Inr (stop, x, t) \<Rightarrow> rooted s t \<and>
       (if stop then \<exists>m. 0 < m \<and> m \<le> length cands \<and> tried t = tried s @ take m cands
        else J x \<and> tried t = tried s @ cands \<and>
          stage_cur t = of_nat (length cands) \<and> stage_max t = of_nat (length cands) \<and>
          stage_finds t = (stage_finds s)[k := stage_finds s ! k + (hit_count t - hit_count s)] \<and>
          stage_cycles t = (stage_cycles s)[k := stage_cycles s ! k + scast (of_nat (length cands) :: s32)]))"

lemma hit_count_updates [simp]:
  "hit_count (s\<lparr>stage_cur := c\<rparr>) = hit_count s" "hit_count (s\<lparr>stage_max := c\<rparr>) = hit_count s"
  "hit_count (s\<lparr>stage_short := n\<rparr>) = hit_count s" "hit_count (s\<lparr>stage_val_type := ty\<rparr>) = hit_count s"
  "hit_count (s\<lparr>stage_finds := fc\<rparr>) = hit_count s" "hit_count (s\<lparr>stage_cycles := fc\<rparr>) = hit_count s"
  by (simp_all add: hit_count_def)

lemma stage_done_simps [simp]:
  "rooted s (stage_done k c t) = rooted s t" "tried (stage_done k c t) = tried t"
  "stage_cur (stage_done k c t) = stage_cur t" "stage_max (stage_done k c t) = stage_max t"
  "hit_count (stage_done k c t) = hit_count t"
  by (simp_all add: stage_done_def)

text \<open>A walk whose units are the initial \<open>stage_max\<close> makes a stage.\<close>

lemma staged_outcome:
  assumes w: "walks run I J cands n loop" and "I x" and "smax = of_nat n"
  shows "stage_outcome run k cands J s (staged k short smax loop (x, s))"
proof -
  let ?s = "s\<lparr>stage_short := short, stage_cur := 0, stage_max := smax\<rparr>"
  have r: "rooted s ?s" by simp
  show ?thesis
    using w \<open>I x\<close>
  proof (cases rule: walksE [where s = ?s])
    case (fails e)
    then show ?thesis by (simp add: staged_def stage_outcome_def cont_def)
  next
    case (returns stop y t)
    have st: "steady ?s t" using returns(2) by (simp add: walked_def)
    then have rt: "rooted s t" using rooted_trans [OF r] by (simp add: steady_def)
    show ?thesis
    proof (cases stop)
      case True
      then show ?thesis using returns rt by (simp add: staged_def stage_outcome_def cont_def walked_def)
    next
      case False
      then show ?thesis
        using returns rt st assms(3)
        by (simp add: staged_def stage_outcome_def cont_def walked_def) (simp add: stage_done_def steady_def)
    qed
  qed
qed

lemma stage_outcome_labels:
  "stage_outcome run k cands J (s\<lparr>stage_val_type := ty\<rparr>) r = stage_outcome run k cands J s r"
  by (auto simp: stage_outcome_def rooted_def queue_wf_def list_top_def list_wf_def ent_def split: sum.splits)

lemma staged_outcome_typed:
  assumes "walks run I J cands n loop" and "I x" and "smax = of_nat n"
  shows "stage_outcome run k cands J s (staged k short smax loop (val_type_is ty (x, s)))"
  using staged_outcome [OF assms, of k "s\<lparr>stage_val_type := ty\<rparr>" short]
  by (simp add: stage_outcome_labels val_type_is_def)

subsection \<open>Arithmetic\<close>

definition arith8_tries :: "bytes \<Rightarrow> nat \<Rightarrow> nat \<Rightarrow> bytes list" where
  "arith8_tries buf i j =
     (let orig = buf ! i; c = of_nat j in
      tries (\<not> could_be_bitflip (ucast (orig XOR (orig + c)))) i [orig + c] buf @
      tries (\<not> could_be_bitflip (ucast (orig XOR (orig - c)))) i [orig - c] buf)"

definition arith8_cands :: "bool list \<Rightarrow> bytes \<Rightarrow> bytes list" where
  "arith8_cands eff buf = concat (map (\<lambda>i. if eff ! EFF_APOS i
     then concat (map (arith8_tries buf i) [1..<Suc ARITH_MAX]) else []) [0..<length buf])"

text \<open>Little endian first; both only when the change carries out of the low byte.\<close>

definition arith16_tries :: "bytes \<Rightarrow> nat \<Rightarrow> nat \<Rightarrow> bytes list" where
  "arith16_tries buf i j =
     (let orig = ld16 (drop i buf); c = of_nat j;
          fresh = (\<lambda>v. \<not> could_be_bitflip (ucast (orig XOR v)));
          attempt = (\<lambda>ok v. tries (ok \<and> fresh v) i (st16 v) buf)
      in
      attempt (unat (orig AND 0xff) + j > 0xff) (orig + c) @
      attempt (unat (orig AND 0xff) < j) (orig - c) @
      attempt (unat (drop_bit 8 orig) + j > 0xff) (SWAP16 (SWAP16 orig + c)) @
      attempt (unat (drop_bit 8 orig) < j) (SWAP16 (SWAP16 orig - c)))"

definition arith16_cands :: "bool list \<Rightarrow> bytes \<Rightarrow> bytes list" where
  "arith16_cands eff buf = concat (map (\<lambda>i. if eff_any eff i 2
     then concat (map (arith16_tries buf i) [1..<Suc ARITH_MAX]) else []) [0..<length buf - 1])"

definition arith32_tries :: "bytes \<Rightarrow> nat \<Rightarrow> nat \<Rightarrow> bytes list" where
  "arith32_tries buf i j =
     (let orig = ld32 (drop i buf); c = of_nat j;
          fresh = (\<lambda>v. \<not> could_be_bitflip (orig XOR v));
          attempt = (\<lambda>ok v. tries (ok \<and> fresh v) i (st32 v) buf)
      in
      attempt ((orig AND 0xffff) + c > 0xffff) (orig + c) @
      attempt ((orig AND 0xffff) < c) (orig - c) @
      attempt ((SWAP32 orig AND 0xffff) + c > 0xffff) (SWAP32 (SWAP32 orig + c)) @
      attempt ((SWAP32 orig AND 0xffff) < c) (SWAP32 (SWAP32 orig - c)))"

definition arith32_cands :: "bool list \<Rightarrow> bytes \<Rightarrow> bytes list" where
  "arith32_cands eff buf = concat (map (\<lambda>i. if eff_any eff i 4
     then concat (map (arith32_tries buf i) [1..<Suc ARITH_MAX]) else []) [0..<length buf - 3])"

subsection \<open>Interesting values and walking words\<close>

definition interest8_tries :: "bytes \<Rightarrow> nat \<Rightarrow> u8 \<Rightarrow> bytes list" where
  "interest8_tries buf i v =
     (let orig = buf ! i in
      tries (\<not> could_be_bitflip (ucast (orig XOR v)) \<and> \<not> could_be_arith (ucast orig) (ucast v) 1) i [v] buf)"

definition interest8_cands :: "bool list \<Rightarrow> bytes \<Rightarrow> bytes list" where
  "interest8_cands eff buf = concat (map (\<lambda>i. if eff ! EFF_APOS i
     then concat (map (interest8_tries buf i) interesting_8) else []) [0..<length buf])"

definition interest16_tries :: "bytes \<Rightarrow> nat \<Rightarrow> u16 \<Rightarrow> bytes list" where
  "interest16_tries buf i v =
     (let orig = ld16 (drop i buf);
          fresh = (\<lambda>v check_le. \<not> could_be_bitflip (ucast (orig XOR v)) \<and>
                     \<not> could_be_arith (ucast orig) (ucast v) 2 \<and>
                     \<not> could_be_interest (ucast orig) (ucast v) 2 check_le)
      in
      tries (fresh v False) i (st16 v) buf @
      tries (v \<noteq> SWAP16 v \<and> fresh (SWAP16 v) True) i (st16 (SWAP16 v)) buf)"

definition interest16_cands :: "bool list \<Rightarrow> bytes \<Rightarrow> bytes list" where
  "interest16_cands eff buf = concat (map (\<lambda>i. if eff_any eff i 2
     then concat (map (interest16_tries buf i) interesting_16) else []) [0..<length buf - 1])"

definition interest32_tries :: "bytes \<Rightarrow> nat \<Rightarrow> u32 \<Rightarrow> bytes list" where
  "interest32_tries buf i v =
     (let orig = ld32 (drop i buf);
          fresh = (\<lambda>v check_le. \<not> could_be_bitflip (orig XOR v) \<and> \<not> could_be_arith orig v 4 \<and>
                     \<not> could_be_interest orig v 4 check_le)
      in
      tries (fresh v False) i (st32 v) buf @
      tries (v \<noteq> SWAP32 v \<and> fresh (SWAP32 v) True) i (st32 (SWAP32 v)) buf)"

definition interest32_cands :: "bool list \<Rightarrow> bytes \<Rightarrow> bytes list" where
  "interest32_cands eff buf = concat (map (\<lambda>i. if eff_any eff i 4
     then concat (map (interest32_tries buf i) interesting_32) else []) [0..<length buf - 3])"

definition wordflip_cands :: "nat \<Rightarrow> bool list \<Rightarrow> bytes \<Rightarrow> bytes list" where
  "wordflip_cands n eff buf = concat (map (\<lambda>i. tries (eff_any eff i n) i (map NOT (slice i n buf)) buf)
     [0..<length buf - (n - 1)])"

subsection \<open>The stages walk\<close>

lemma sum_units: "sum_list (map (\<lambda>i. n) xs) = n * length xs"
  by (simp add: sum_list_triv)

text \<open>A group of attempts at one place, between saving and restoring its bytes.\<close>

context executor
begin

lemma walks_place:
  assumes "walks run (near_copy i n buf) J cands m c" and "i + n \<le> length buf"
  shows "walks run ((=) buf) J cands m c"
  by (rule walks_weaken [OF assms(1)]) (use near_copy_self [OF assms(2)] in auto)

lemma walks_restored:
  assumes "walks run (near_copy i n buf) (near_copy i n buf) cands m c"
    and "i + n \<le> length buf" and "val = slice i n buf"
  shows "walks run (near_copy i n buf) ((=) buf) cands m (\<lambda>w. cont (c w) (restore i val))"
  using walks_cont [OF assms(1) walks_restore [OF assms(2,3)]] by simp

text \<open>
  A loop over offsets: at each either a group of tries and the restoration of \<open>buf\<close>, or
  nothing, at the price of the units the group would take.
\<close>

lemma walks_sweep:
  assumes tr: "\<And>i j. i \<in> set is \<Longrightarrow> j \<in> set js \<Longrightarrow> walks run (K i) (K i) (c i j) m (f i j)"
    and at: "\<And>i. i \<in> set is \<Longrightarrow> K i buf"
    and fin: "\<And>i. i \<in> set is \<Longrightarrow> walks run (K i) ((=) buf) [] 0 (fin i)"
    and n: "n = m * length js"
    and body: "\<And>i s. body i (buf, s) =
      (if go i then cont (for_each js (f i) (buf, set_byte i s)) (fin i) else Inr (False, buf, drop_slots n s))"
  shows "walks run ((=) buf) ((=) buf) (concat (map (\<lambda>i. if go i then concat (map (c i) js) else []) is))
    (n * length is) (for_each is body)"
proof -
  have "walks run ((=) buf) ((=) buf) (if go i then concat (map (c i) js) else []) n (body i)" if i: "i \<in> set is" for i
  proof (cases "go i")
    case True
    have "walks run (K i) (K i) (concat (map (c i) js)) n (for_each js (f i))"
      using walks_for_each [of js run "K i" "c i" "\<lambda>_. m" "f i"] tr i by (simp add: sum_units n)
    then have "walks run (K i) ((=) buf) (concat (map (c i) js)) n
        (\<lambda>w. cont ((\<lambda>(x, s). for_each js (f i) (x, set_byte i s)) w) (fin i))"
      using walks_cont [OF walks_byte fin [OF i]] by fastforce
    then have "walks run ((=) buf) ((=) buf) (concat (map (c i) js)) n
        (\<lambda>w. cont ((\<lambda>(x, s). for_each js (f i) (x, set_byte i s)) w) (fin i))"
      by (rule walks_weaken) (use at i in auto)
    then show ?thesis using True body by (auto elim!: walks_same)
  next
    case False
    have "walks run ((=) buf) ((=) buf) [] n (\<lambda>(x, s). Inr (False, x, drop_slots n s))"
      by (rule walks_drop)
    then show ?thesis using False body by (auto elim!: walks_same)
  qed
  from walks_for_each [of "is", OF this] show ?thesis by (simp add: sum_units)
qed

text \<open>When each try restores the buffer itself.\<close>

lemma walks_sweep_self:
  assumes "\<And>i j. i \<in> set is \<Longrightarrow> j \<in> set js \<Longrightarrow> walks run ((=) buf) ((=) buf) (c i j) m (f i j)"
    and "n = m * length js"
    and "\<And>i s. body i (buf, s) =
      (if go i then for_each js (f i) (buf, set_byte i s) else Inr (False, buf, drop_slots n s))"
  shows "walks run ((=) buf) ((=) buf) (concat (map (\<lambda>i. if go i then concat (map (c i) js) else []) is))
    (n * length is) (for_each is body)"
  by (rule walks_sweep [where K = "\<lambda>_. (=) buf" and fin = "\<lambda>_ w. Inr (False, w)" and m = m and f = f])
    (use assms walks_skip in auto)

text \<open>Rules that take a group of attempts apart, at a fixed place.\<close>

lemmas walks_group = walks_restored [where i = i and n = n and buf = buf]
    walks_cont [where I = "near_copy i n buf" and J = "near_copy i n buf"]
    walks_attempt_labelled [where i = i and n = n and buf = buf]
  for i n buf

lemma walks_arith8_try:
  assumes "i < length buf"
  shows "walks run ((=) buf) ((=) buf) (arith8_tries buf i j) (1 + 1) (arith8_try run i (buf ! i) j)"
  unfolding arith8_tries_def arith8_try_def [abs_def] Let_def
  by (rule walks_place [where i = i and n = 1], intro walks_group [where i = i and n = 1 and buf = buf]) (use assms in \<open>auto simp: orig_slice\<close>)

lemma walks_arith16_try:
  assumes "i + 2 \<le> length buf"
  shows "walks run ((=) buf) ((=) buf) (arith16_tries buf i j) (1 + (1 + (1 + 1)))
    (arith16_try run i (ld16 (drop i buf)) j)"
  unfolding arith16_tries_def arith16_try_def [abs_def] Let_def
  by (rule walks_place [where i = i and n = 2], intro walks_group [where i = i and n = 2 and buf = buf] walks_labels(1))
    (use assms in \<open>auto simp: orig_slice slice_def\<close>)

lemma walks_arith32_try:
  assumes "i + 4 \<le> length buf"
  shows "walks run ((=) buf) ((=) buf) (arith32_tries buf i j) (1 + (1 + (1 + 1)))
    (arith32_try run i (ld32 (drop i buf)) j)"
  unfolding arith32_tries_def arith32_try_def [abs_def] Let_def
  by (rule walks_place [where i = i and n = 4], intro walks_group [where i = i and n = 4 and buf = buf] walks_labels(1))
    (use assms in \<open>auto simp: orig_slice slice_def\<close>)

text \<open>The loops of the three stages.\<close>

lemma walks_arith8:
  "walks run ((=) buf) ((=) buf) (arith8_cands eff buf) (2 * ARITH_MAX * length [0..<length buf])
     (for_each [0..<length buf] (arith8_body run eff))"
  unfolding arith8_cands_def
  by (rule walks_sweep_self [OF walks_arith8_try]) (simp_all add: arith8_body_def del: upt_Suc)

lemma walks_arith16:
  "walks run ((=) buf) ((=) buf) (arith16_cands eff buf) (4 * ARITH_MAX * length [0..<length buf - 1])
     (for_each [0..<length buf - 1] (arith16_body run eff))"
  unfolding arith16_cands_def
  by (rule walks_sweep_self [OF walks_arith16_try]) (auto simp: arith16_body_def simp del: upt_Suc)

lemma walks_arith32:
  "walks run ((=) buf) ((=) buf) (arith32_cands eff buf) (4 * ARITH_MAX * length [0..<length buf - 3])
     (for_each [0..<length buf - 3] (arith32_body run eff))"
  unfolding arith32_cands_def
  by (rule walks_sweep_self [OF walks_arith32_try]) (auto simp: arith32_body_def simp del: upt_Suc)

lemma arith_outcomes:
  "stage_outcome run STAGE_ARITH8 (arith8_cands eff buf) ((=) buf) s (arith8 run eff (buf, s))"
  "stage_outcome run STAGE_ARITH16 (arith16_cands eff buf) ((=) buf) s (arith16 run eff (buf, s))"
  "stage_outcome run STAGE_ARITH32 (arith32_cands eff buf) ((=) buf) s (arith32 run eff (buf, s))"
  unfolding arith8_def arith16_def arith32_def Let_def fst_conv
  by (rule staged_outcome_typed [OF walks_arith8] staged_outcome [OF walks_arith16]
      staged_outcome [OF walks_arith32]; simp add: algebra_simps)+

lemma walks_interest8_try:
  assumes "i < length buf"
  shows "walks run ((=) buf) ((=) buf) (interest8_tries buf i v) 1 (interest8_try run i (buf ! i) v)"
proof (cases "could_be_bitflip (ucast (buf ! i XOR v)) \<or> could_be_arith (ucast (buf ! i)) (ucast v) 1")
  case True
  have "walks run ((=) buf) ((=) buf) [] 1 (\<lambda>(x, s). Inr (False, x, drop_slots 1 s))"
    by (rule walks_drop)
  then show ?thesis using True
    by (auto simp: interest8_tries_def tries_def interest8_try_def attempt_val_def attempt_def Let_def elim!: walks_same)
next
  case False
  have "walks run ((=) buf) ((=) buf) (tries True i [v] buf) 1
      (\<lambda>w. cont (attempt_val run True (scast v) i [v] w) (restore i [buf ! i]))"
    by (rule walks_place [where i = i and n = 1], intro walks_group [where i = i and n = 1 and buf = buf])
      (use assms in \<open>auto simp: orig_slice slice_def\<close>)
  then show ?thesis using False by (simp add: interest8_tries_def interest8_try_def [abs_def])
qed

lemma walks_interest16_try:
  assumes "i + 2 \<le> length buf"
  shows "walks run (near_copy i 2 buf) (near_copy i 2 buf) (interest16_tries buf i v) (1 + 1)
    (interest16_try run i (ld16 (drop i buf)) v)"
  unfolding interest16_tries_def interest16_try_def [abs_def] Let_def
  by (intro walks_group [where i = i and n = 2 and buf = buf] walks_labels) (use assms in auto)

lemma walks_interest32_try:
  assumes "i + 4 \<le> length buf"
  shows "walks run (near_copy i 4 buf) (near_copy i 4 buf) (interest32_tries buf i v) (1 + 1)
    (interest32_try run i (ld32 (drop i buf)) v)"
  unfolding interest32_tries_def interest32_try_def [abs_def] Let_def
  by (intro walks_group [where i = i and n = 4 and buf = buf] walks_labels) (use assms in auto)

lemma walks_interest8:
  "walks run ((=) buf) ((=) buf) (interest8_cands eff buf) (length interesting_8 * length [0..<length buf])
     (for_each [0..<length buf] (interest8_body run eff))"
  unfolding interest8_cands_def
  by (rule walks_sweep_self [OF walks_interest8_try]) (simp_all add: interest8_body_def)

lemma walks_interest16:
  "walks run ((=) buf) ((=) buf) (interest16_cands eff buf) (2 * length interesting_16 * length [0..<length buf - 1])
     (for_each [0..<length buf - 1] (interest16_body run eff))"
  unfolding interest16_cands_def
  by (rule walks_sweep [OF walks_interest16_try _ walks_restore [where n = 2]])
    (auto simp: interest16_body_def intro: near_copy_self)

lemma walks_interest32:
  "walks run ((=) buf) ((=) buf) (interest32_cands eff buf) (2 * length interesting_32 * length [0..<length buf - 3])
     (for_each [0..<length buf - 3] (interest32_body run eff))"
  unfolding interest32_cands_def
  by (rule walks_sweep [OF walks_interest32_try _ walks_restore [where n = 4]])
    (auto simp: interest32_body_def intro: near_copy_self)

lemma interest_outcomes:
  "stage_outcome run STAGE_INTEREST8 (interest8_cands eff buf) ((=) buf) s (interest8 run eff (buf, s))"
  "stage_outcome run STAGE_INTEREST16 (interest16_cands eff buf) ((=) buf) s (interest16 run eff (buf, s))"
  "stage_outcome run STAGE_INTEREST32 (interest32_cands eff buf) ((=) buf) s (interest32 run eff (buf, s))"
  unfolding interest8_def interest16_def interest32_def Let_def fst_conv
  by (rule staged_outcome_typed [OF walks_interest8] staged_outcome [OF walks_interest16]
      staged_outcome [OF walks_interest32]; simp add: algebra_simps)+

text \<open>Flipping a span twice restores it.\<close>

lemma flip_span_twice:
  assumes "i + n \<le> length buf" and "out = put i (map NOT (slice i n buf)) buf"
  shows "put i (map NOT (slice i n out)) out = (buf :: bytes)"
proof -
  have "slice i n out = map NOT (slice i n buf)" using assms by (simp add: slice_def put_def)
  then show ?thesis using assms by (simp add: comp_def)
qed

lemma walks_wordflip:
  assumes "0 < n"
  shows "walks run ((=) buf) ((=) buf) (wordflip_cands n eff buf) (1 * length [0..<length buf - (n - 1)])
    (for_each [0..<length buf - (n - 1)] (wordflip_body n run eff))"
proof -
  let ?b = "\<lambda>i. put i (map NOT (slice i n buf)) buf"
  have "walks run ((=) buf) ((=) buf) (tries (eff_any eff i n) i (map NOT (slice i n buf)) buf) 1 (wordflip_body n run eff i)"
    if "i \<in> set [0..<length buf - (n - 1)]" for i
  proof (cases "eff_any eff i n")
    case True
    have "i + n \<le> length buf" using that assms by auto
    then have again: "put i (map NOT (slice i n (?b i))) (?b i) = buf" by (rule flip_span_twice [OF _ refl])
    have "walks run ((=) buf) ((=) buf) [?b i] 1 (\<lambda>(x, s). bnd (run (?b i) s) (\<lambda>(stop, s').
        if stop then Inr (True, ?b i, s')
        else Inr (False, put i (map NOT (slice i n (?b i))) (?b i), s'\<lparr>stage_cur := stage_cur s' + 1\<rparr>)))"
      by (rule walks_run) (rule again [symmetric])
    from walks_byte [OF this, of i] show ?thesis using True
      by (auto simp: tries_def wordflip_body_def Let_def elim!: walks_same)
  next
    case False
    have "walks run ((=) buf) ((=) buf) [] 1 (\<lambda>(x, s). Inr (False, x, drop_slots 1 s))"
      by (rule walks_drop)
    then show ?thesis using False by (auto simp: tries_def wordflip_body_def elim!: walks_same)
  qed
  then have "walks run ((=) buf) ((=) buf) (wordflip_cands n eff buf)
      (sum_list (map (\<lambda>_. 1) [0..<length buf - (n - 1)])) (for_each [0..<length buf - (n - 1)] (wordflip_body n run eff))"
    unfolding wordflip_cands_def by (rule walks_for_each)
  then show ?thesis by (simp add: sum_units)
qed

lemma wordflip_outcomes:
  "stage_outcome run STAGE_FLIP16 (wordflip_cands 2 eff buf) ((=) buf) s (byteflip2 run eff (buf, s))"
  "stage_outcome run STAGE_FLIP32 (wordflip_cands 4 eff buf) ((=) buf) s (byteflip4 run eff (buf, s))"
  using staged_outcome [OF walks_wordflip [of 2 buf eff], of buf, OF _ refl refl]
    staged_outcome [OF walks_wordflip [of 4 buf eff], of buf, OF _ refl refl]
  by (simp_all add: byteflip2_def byteflip4_def Let_def)

end

end
