(* ===== verification/Demo.thy ===== *)
theory Demo
  imports Mainloop
begin

section \<open>A concrete fuzzer for the examples\<close>

text \<open>
  The state at the start of \<open>main\<close> with a map of eight bytes and an empty queue, and variations
  of it. The witnesses of the properties evaluate the model on it.
\<close>

definition demo_main :: main_st where
  "demo_main = \<lparr>rand_cnt = 0, rng_seed = 0, rng_pos = 0, urandom_pos = 0, ticks = 0,
     fs = (\<lambda>_. None), out_dir = ''out'', trace_bits = replicate 8 0, hybrid_bits = replicate 8 0,
     max_hybrid = replicate 8 0, entries = [], queue = None, queue_top = None, q_prev100 = None,
     top_rated = replicate 8 None, top_rated_orig = replicate 8 None, score_changed = False,
     TF_top_null = False, TF_switch = False, dumb_mode = 0, queued_paths = 0, pending_not_fuzzed = 0,
     queued_favored = 0, pending_favored = 0, cur_depth = 0, max_depth = 0, cycles_wo_finds = 0,
     last_path_time = 0, extras = [], a_extras = [], auto_changed = False,
     virgin_bits = replicate 8 255, virgin_tmout = replicate 8 255, virgin_crash = replicate 8 255,
     virgin_hybrid = replicate 8 (- 1), var_bytes = replicate 8 0, bitmap_changed = False,
     out_file = None, testcase = [], exec_tmout = 1000, hang_tmout = 1000, crash_mode = FAULT_NONE,
     no_forkserver = False, uses_asan = False, fast_cal = False, resuming_fuzz = False,
     stop_soon = False, skip_requested = False, child_timed_out = False, kill_signal = 0,
     prev_timed_out = False, runs = 0, total_execs = 0, total_crashes = 0, unique_crashes = 0,
     total_tmouts = 0, unique_tmouts = 0, unique_hangs = 0, last_crash_time = 0, last_hang_time = 0,
     last_crash_execs = 0, total_cal_us = 0, total_cal_cycles = 0, total_bitmap_size = 0,
     total_bitmap_entries = 0, queued_with_cov = 0, queued_with_hybrid = 0, queued_with_incorrect = 0,
     queued_variable = 0, queued_discovered = 0, var_byte_count = 0, subseq_tmouts = 0,
     cur_skipped_paths = 0, trim_execs = 0, bytes_trim_in = 0, bytes_trim_out = 0, start_time = 0,
     last_ms = 0, last_stats_ms = 0, stats_update_freq = 1, run_over10m = False, stage_short = [],
     stage_cur = 0, stage_max = 0, stage_cur_byte = 0, stage_cur_val = 0, stage_val_type = STAGE_VAL_NONE,
     stage_finds = replicate 32 0, stage_cycles = replicate 32 0, syncing_party = None, syncing_case = 0,
     splicing_with = - 1, current_entry = 0, queue_cycle = 0, blocks_eff_total = 0, blocks_eff_select = 0,
     tried = [], queue_cur = None, no_arith = False, skip_deterministic = False, use_splicing = False,
     havoc_div = 1, master_id = 0, master_max = 0, in_dir = ''in'', sync_dir = ''sync'', sync_id = None,
     in_place_resume = False, shuffle_queue = False, timeout_given = 0, hang_tmout_set = False,
     skip_crashes = False, import_first = False, exit_1 = False, queued_at_start = 0, queued_imported = 0,
     useless_at_start = 0, seek_to = 0, prev_queued = 0, sync_interval_cnt = 0\<rparr>"

end
