(* ===== verification/Dicts.thy ===== *)
theory Dicts
  imports Demo
begin

unbundle bit_operations_syntax

section \<open>The dictionaries stay in order\<close>

text \<open>
  Sorting permutes, and sorts by length; what \<open>load_extras\<close> and \<open>maybe_add_auto\<close> keep of the two
  token lists; reading back a dictionary file.
\<close>

subsection \<open>qsort\<close>

lemma mset_qinsert [simp]: "mset (qinsert cmp x ys) = add_mset x (mset ys)"
  by (induction ys) auto

lemma mset_qsort [simp]: "mset (qsort cmp xs) = mset xs"
  by (induction xs) auto

lemma set_qsort [simp]: "set (qsort cmp xs) = set xs"
  by (metis mset_qsort set_mset_mset)

lemma length_qsort [simp]: "length (qsort cmp xs) = length xs"
  by (metis mset_qsort size_mset)

text \<open>A comparator that is the difference of a key.\<close>

definition compares :: "('x \<Rightarrow> 'x \<Rightarrow> s32) \<Rightarrow> ('x \<Rightarrow> nat) \<Rightarrow> 'x set \<Rightarrow> bool" where
  "compares cmp key A \<longleftrightarrow> (\<forall>x \<in> A. \<forall>y \<in> A. sint (cmp x y) \<le> 0 \<longleftrightarrow> key x \<le> key y)"

lemma set_qinsert [simp]: "set (qinsert cmp x ys) = insert x (set ys)"
  by (induction ys) auto

lemma sorted_qinsert:
  assumes "compares cmp key (insert x (set ys))" and "sorted (map key ys)"
  shows "sorted (map key (qinsert cmp x ys))"
  using assms by (induction ys) (fastforce simp: compares_def)+

lemma sorted_qsort: "compares cmp key (set xs) \<Longrightarrow> sorted (map key (qsort cmp xs))"
proof (induction xs)
  case (Cons x xs)
  then have "sorted (map key (qsort cmp xs))" by (simp add: compares_def)
  moreover have "compares cmp key (insert x (set (qsort cmp xs)))" using Cons.prems by simp
  ultimately show ?case by (simp add: sorted_qinsert)
qed simp

text \<open>Differences of unsigned values below 2^31 compare them.\<close>

lemma sint_diff_le:
  assumes "a < 2 ^ 31" and "b < 2 ^ 31"
  shows "sint (of_nat a - of_nat b :: s32) \<le> 0 \<longleftrightarrow> a \<le> b"
proof -
  have ab: "- (2 ^ 31) \<le> int a - int b" "int a - int b < 2 ^ 31"
    using assms of_nat_less_iff [of a "2 ^ 31", where 'a = int] of_nat_less_iff [of b "2 ^ 31", where 'a = int] by auto
  have "(of_nat a - of_nat b :: s32) = word_of_int (int a - int b)" by simp
  then have "sint (of_nat a - of_nat b :: s32) = signed_take_bit 31 (int a - int b)"
    by (simp only: signed_of_int) simp
  also have "\<dots> = int a - int b" by (rule signed_take_bit_int_eq_self) (use ab in auto)
  finally show ?thesis by simp
qed

definition small_tokens :: "extra_data set \<Rightarrow> bool" where
  "small_tokens A \<longleftrightarrow> (\<forall>x \<in> A. length (x_data x) < 2 ^ 31)"

lemma compares_len: "small_tokens A \<Longrightarrow> compares compare_extras_len (length \<circ> x_data) A"
  using sint_diff_le by (simp add: compares_def small_tokens_def compare_extras_len_def x_len_def)

lemma compares_use:
  "\<forall>x \<in> A. unat (hit_cnt x) < 2 ^ 31 \<Longrightarrow> compares compare_extras_use_d (\<lambda>x. 2 ^ 31 - unat (hit_cnt x)) A"
  using sint_diff_le [of "unat (hit_cnt y)" "unat (hit_cnt x)" for x y]
  by (fastforce simp: compares_def compare_extras_use_d_def)

subsection \<open>The user's tokens\<close>

definition user_dict :: "extra_data list \<Rightarrow> bool" where
  "user_dict xs \<longleftrightarrow> (\<forall>x \<in> set xs. 1 \<le> length (x_data x) \<and> length (x_data x) \<le> MAX_DICT_FILE)"

lemma unescape_nonempty: "unescape cs = Inr t \<Longrightarrow> cs \<noteq> [] \<Longrightarrow> t \<noteq> []"
  by (cases cs) (auto simp: bnd_Inr_iff split: if_splits list.splits)

lemma parse_line_token: "parse_line l line = Inr (Some d) \<Longrightarrow> d \<noteq> [] \<and> length d \<le> MAX_DICT_FILE"
  by (auto simp: parse_line_def Let_def bnd_Inr_iff dest: unescape_nonempty split: if_splits option.splits list.splits)

lemma load_lines_dict: "load_lines n l f xs = Inr ys \<Longrightarrow> user_dict xs \<Longrightarrow> user_dict ys"
proof (induction n arbitrary: f xs)
  case (Suc n)
  show ?case
  proof (cases "f = []")
    case False
    obtain line rest where nl: "next_line f = (line, rest)" by fastforce
    obtain t where t: "parse_line l line = Inr t"
      and r: "load_lines n l rest (case t of None \<Rightarrow> xs | Some d \<Rightarrow> xs @ [\<lparr>x_data = d, hit_cnt = 0\<rparr>]) = Inr ys"
      using Suc.prems(1) False nl by (auto simp: bnd_Inr_iff)
    have "user_dict (case t of None \<Rightarrow> xs | Some d \<Rightarrow> xs @ [\<lparr>x_data = d, hit_cnt = 0\<rparr>])"
      using Suc.prems(2) parse_line_token [of l line] t
      by (cases t) (auto simp: user_dict_def Suc_le_eq)
    then show ?thesis by (rule Suc.IH [OF r])
  qed (use Suc.prems in simp)
qed (simp split: if_splits)

lemma load_extra_entry_dict:
  "load_extra_entry dir name s = Inr t \<Longrightarrow> user_dict (extras s) \<Longrightarrow> user_dict (extras t)"
  by (auto simp: load_extra_entry_def user_dict_def Suc_le_eq split: option.splits if_splits fnode.splits)

lemma load_extras_file_dict:
  "load_extras_file fn l s = Inr t \<Longrightarrow> user_dict (extras s) \<Longrightarrow> user_dict (extras t)"
  using load_lines_dict by (auto simp: load_extras_file_def bnd_Inr_iff split: option.splits)

lemma load_extras_dict:
  assumes "user_dict (extras s)"
  shows "post (\<lambda>t. extras t \<noteq> [] \<and> user_dict (extras t) \<and> sorted (map (length \<circ> x_data) (extras t)))
    (load_extras E arg s)"
  unfolding load_extras_def Let_def
proof (rule post_bnd [where Q = "\<lambda>t. user_dict (extras t)"], goal_cases)
  case 1
  show ?case
    using assms
    by (auto intro!: postI split: option.splits if_splits dest: load_extras_file_dict intro: load_extra_entry_dict
        elim: fold_res_invariant [where I = "\<lambda>t. user_dict (extras t)"])
next
  case (2 t)
  then have "small_tokens (set (extras t))" by (auto simp: small_tokens_def user_dict_def MAX_DICT_FILE_def)
  then have "sorted (map (length \<circ> x_data) (qsort compare_extras_len (extras t)))"
    by (rule sorted_qsort [OF compares_len])
  then show ?case using 2 by (auto simp: user_dict_def) (metis length_0_conv length_qsort)
qed

subsection \<open>The automatic tokens\<close>

text \<open>At most 500, each of 3 to 32 bytes, the ones in use sorted by length.\<close>

definition auto_dict :: "extra_data list \<Rightarrow> bool" where
  "auto_dict xs \<longleftrightarrow> length xs \<le> MAX_AUTO_EXTRAS \<and>
     (\<forall>x \<in> set xs. MIN_AUTO_EXTRA \<le> length (x_data x) \<and> length (x_data x) \<le> MAX_AUTO_EXTRA) \<and>
     sorted (map (length \<circ> x_data) (take USE_AUTO_EXTRAS xs))"

lemma mset_sort_a_extras [simp]: "mset (sort_a_extras xs) = mset xs"
proof -
  have "mset (take k ys) + mset (drop k ys) = mset ys" for k and ys :: "extra_data list"
    by (metis append_take_drop_id mset_append)
  then show ?thesis by (simp add: sort_a_extras_def Let_def)
qed

lemma set_sort_a_extras [simp]: "set (sort_a_extras xs) = set xs"
  by (metis mset_sort_a_extras set_mset_mset)

lemma length_sort_a_extras [simp]: "length (sort_a_extras xs) = length xs"
  by (metis mset_sort_a_extras size_mset)

lemma auto_dict_sorted:
  assumes "length xs \<le> MAX_AUTO_EXTRAS"
    and len: "\<forall>x \<in> set xs. MIN_AUTO_EXTRA \<le> length (x_data x) \<and> length (x_data x) \<le> MAX_AUTO_EXTRA"
  shows "auto_dict (sort_a_extras xs)"
proof -
  let ?k = "min USE_AUTO_EXTRAS (length xs)" and ?ys = "qsort compare_extras_use_d xs"
  have t: "take USE_AUTO_EXTRAS (sort_a_extras xs) = qsort compare_extras_len (take ?k ?ys)"
    by (simp add: sort_a_extras_def Let_def min_def)
  have "set (take ?k ?ys) \<subseteq> set xs" using set_take_subset [of ?k ?ys] by simp
  then have "small_tokens (set (take ?k ?ys))" using len by (fastforce simp: small_tokens_def MAX_AUTO_EXTRA_def)
  then have "sorted (map (length \<circ> x_data) (take USE_AUTO_EXTRAS (sort_a_extras xs)))"
    unfolding t by (rule sorted_qsort [OF compares_len])
  then show ?thesis using assms by (simp add: auto_dict_def)
qed

lemma bump_match_keeps:
  "bump_match mem xs = Some ys \<Longrightarrow> map x_data ys = map x_data xs"
  by (induction xs arbitrary: ys) (auto split: if_splits)

text \<open>What adding a token touches.\<close>

definition adds_auto :: "'a dict_st_scheme \<Rightarrow> 'a dict_st_scheme \<Rightarrow> bool" where
  "adds_auto s t \<longleftrightarrow> (\<exists>c sd p u b xs. t = s\<lparr>rand_cnt := c, rng_seed := sd, rng_pos := p, urandom_pos := u,
     auto_changed := b, a_extras := xs\<rparr>)"

lemma UR_draw:
  assumes "limit \<noteq> 0"
  shows "\<exists>r c sd p u. UR E limit s = Inr (r, s\<lparr>rand_cnt := c, rng_seed := sd, rng_pos := p, urandom_pos := u\<rparr>)"
proof (cases "rand_cnt s = 0")
  case True
  then show ?thesis using assms
    by (simp add: UR_def Let_def, intro exI [of _ "RESEED_RNG div 2 + snd (urandom E (urandom_pos s)) mod RESEED_RNG"]
        exI [of _ "fst (urandom E (urandom_pos s))"] exI [of _ "Suc 0"] exI [of _ "Suc (urandom_pos s)"]) simp
next
  case False
  then show ?thesis using assms
    by (simp add: UR_def Let_def, intro exI [of _ "rand_cnt s - 1"] exI [of _ "rng_seed s"] exI [of _ "Suc (rng_pos s)"]
        exI [of _ "urandom_pos s"]) simp
qed

lemma maybe_add_auto_adds:
  assumes "MIN_AUTO_EXTRA \<le> length mem" and "length mem \<le> MAX_AUTO_EXTRA"
  shows "\<exists>t. maybe_add_auto E mem s = Inr t \<and> adds_auto s t \<and> (auto_dict (a_extras s) \<longrightarrow> auto_dict (a_extras t))"
proof -
  have same: "adds_auto s s" unfolding adds_auto_def
    by (intro exI [of _ "rand_cnt s"] exI [of _ "rng_seed s"] exI [of _ "rng_pos s"] exI [of _ "urandom_pos s"]
        exI [of _ "auto_changed s"] exI [of _ "a_extras s"]) simp
  show ?thesis
  proof (cases "(\<forall>b \<in> set (tl mem). b = hd mem) \<or> builtin_value mem \<or> matches_extra (extras s) mem")
    case True
    then show ?thesis using same by (auto simp: maybe_add_auto_def)
  next
    case False
    let ?x = "\<lparr>x_data = mem, hit_cnt = 0\<rparr>"
    let ?s = "s\<lparr>auto_changed := True\<rparr>"
    have plain: "adds_auto s (?s\<lparr>a_extras := xs\<rparr>)" for xs unfolding adds_auto_def
      by (intro exI [of _ "rand_cnt s"] exI [of _ "rng_seed s"] exI [of _ "rng_pos s"] exI [of _ "urandom_pos s"]
          exI [of _ True] exI [of _ xs]) simp
    show ?thesis
    proof (cases "bump_match mem (a_extras s)")
      case (Some xs)
      have m: "map x_data xs = map x_data (a_extras s)" by (rule bump_match_keeps [OF Some])
      have l: "map (length \<circ> x_data) xs = map (length \<circ> x_data) (a_extras s)"
        using arg_cong [OF m, of "map length"] by simp
      have "length xs = length (a_extras s)" using m map_eq_imp_length_eq by blast
      moreover have "(\<forall>x \<in> set xs. MIN_AUTO_EXTRA \<le> length (x_data x) \<and> length (x_data x) \<le> MAX_AUTO_EXTRA) \<longleftrightarrow>
          (\<forall>x \<in> set (a_extras s). MIN_AUTO_EXTRA \<le> length (x_data x) \<and> length (x_data x) \<le> MAX_AUTO_EXTRA)"
        using arg_cong [OF l, of "\<lambda>ls. \<forall>n \<in> set ls. MIN_AUTO_EXTRA \<le> n \<and> n \<le> MAX_AUTO_EXTRA"] by simp
      ultimately have "auto_dict (sort_a_extras xs)" if "auto_dict (a_extras s)"
        using that by (intro auto_dict_sorted) (simp_all add: auto_dict_def)
      then show ?thesis using False Some plain by (auto simp: maybe_add_auto_def)
    next
      case None
      show ?thesis
      proof (cases "length (a_extras s) < MAX_AUTO_EXTRAS")
        case True
        have "auto_dict (sort_a_extras (a_extras s @ [?x]))" if "auto_dict (a_extras s)"
          using that True assms by (intro auto_dict_sorted) (auto simp: auto_dict_def)
        then show ?thesis using False None True plain by (auto simp: maybe_add_auto_def Let_def)
      next
        case full: False
        have "(of_nat ((MAX_AUTO_EXTRAS + 1) div 2) :: u32) \<noteq> 0" by (simp add: MAX_AUTO_EXTRAS_def)
        from UR_draw [OF this, of E ?s] obtain r c sd p u where
          d: "UR E (of_nat ((MAX_AUTO_EXTRAS + 1) div 2)) ?s =
            Inr (r, ?s\<lparr>rand_cnt := c, rng_seed := sd, rng_pos := p, urandom_pos := u\<rparr>)" by blast
        let ?xs = "(a_extras s)[MAX_AUTO_EXTRAS div 2 + unat r := ?x]"
        have "auto_dict (sort_a_extras ?xs)" if "auto_dict (a_extras s)"
          using that assms set_update_subset_insert [of "a_extras s" _ ?x]
          by (intro auto_dict_sorted) (fastforce simp: auto_dict_def)+
        moreover have "adds_auto s (?s\<lparr>rand_cnt := c, rng_seed := sd, rng_pos := p, urandom_pos := u, a_extras := xs\<rparr>)" for xs
          unfolding adds_auto_def
          by (intro exI [of _ c] exI [of _ sd] exI [of _ p] exI [of _ u] exI [of _ True] exI [of _ xs]) simp
        ultimately show ?thesis using False None full d by (auto simp: maybe_add_auto_def Let_def)
      qed
    qed
  qed
qed

subsection \<open>Writing a dictionary file\<close>

text \<open>A token as the file format has it: \<open>name="..."\<close>, with quotes, backslashes and what is not printable escaped.\<close>

definition hexdigit :: "u8 \<Rightarrow> u8" where
  "hexdigit n = (if n < 10 then 48 + n else 87 + n)"

definition escape :: "u8 \<Rightarrow> bytes" where
  "escape c =
     (if c = 34 \<or> c = 92 then [92, c]
      else if 32 \<le> c \<and> c < 127 then [c]
      else [92, 120, hexdigit (drop_bit 4 c), hexdigit (c AND 15)])"

definition quoted :: "bytes \<Rightarrow> bytes" where
  "quoted d = [34] @ concat (map escape d) @ [34]"

definition dict_line :: "bytes \<Rightarrow> bytes \<Rightarrow> bytes" where
  "dict_line name d = name @ [61] @ quoted d @ [10]"

lemma u8_cases16:
  assumes "(n :: u8) < 16"
  shows "n \<in> {0, 1, 2, 3, 4, 5, 6, 7, 8, 9, 10, 11, 12, 13, 14, 15}"
proof -
  have "unat n < 16" using assms by (simp add: word_less_nat_alt)
  then show ?thesis by (simp add: word_unat_eq_iff) presburger
qed

lemma hexdigit_ok:
  assumes "(n :: u8) < 16"
  shows "isxdigit (hexdigit n) \<and> hexval (hexdigit n) = n \<and> hexdigit n \<noteq> 0 \<and> hexdigit n \<noteq> 10"
  using u8_cases16 [OF assms]
  by (elim insertE; simp add: hexdigit_def isxdigit_def isdigit_def hexval_def tolower_def)

lemma nibbles:
  "drop_bit 4 c < (16 :: u8)" "c AND 15 < (16 :: u8)" "push_bit 4 (drop_bit 4 c) OR (c AND 15) = (c :: u8)"
proof -
  have d: "unat (drop_bit 4 c) = unat c div 16" using trans [OF unat_drop_bit_eq [of 4 c] drop_bit_eq_div [of 4 "unat c"]] by simp
  have "unat c < 256" using unsigned_less [where 'a = nat, of c] by simp
  then show "drop_bit 4 c < (16 :: u8)" by (simp add: word_less_nat_alt d)
  have m: "(15 :: u8) = mask 4" by (simp add: mask_eq_exp_minus_1)
  have "c AND 15 = take_bit 4 c" unfolding m by (simp add: take_bit_eq_mask)
  then have "unat (c AND 15) = unat c mod 16" using unsigned_take_bit_eq [of 4 c, where 'a = nat] by (simp add: take_bit_eq_mod)
  then show "c AND 15 < (16 :: u8)" by (simp add: word_less_nat_alt)
  show "push_bit 4 (drop_bit 4 c) OR (c AND 15) = c"
    unfolding m by (rule bit_eqI) (auto simp: bit_simps bit_mask_iff)
qed

lemma unescape_escape: "unescape (escape c @ cs) = bnd (unescape cs) (\<lambda>t. Inr (c # t))"
proof -
  consider "c = 34 \<or> c = 92" | "c \<noteq> 34" "c \<noteq> 92" "32 \<le> c \<and> c < 127" | "c \<noteq> 34" "c \<noteq> 92" "\<not> (32 \<le> c \<and> c < 127)"
    by blast
  then show ?thesis
  proof cases
    case 2
    have "\<not> c \<le> 31" "\<not> 128 \<le> c"
      using 2(3) by (auto simp: word_le_nat_alt word_less_nat_alt)
    then show ?thesis using 2 by (simp add: escape_def)
  next
    case 3
    then have e: "escape c = [92, 120, hexdigit (drop_bit 4 c), hexdigit (c AND 15)]" by (subst escape_def) simp
    show ?thesis unfolding e using hexdigit_ok nibbles by simp
  qed (auto simp: escape_def)
qed

lemma unescape_quoted: "unescape (concat (map escape d)) = Inr d"
  by (induction d) (simp_all add: unescape_escape)

lemma set_escape: "x \<in> set (escape c) \<Longrightarrow> x \<noteq> 0 \<and> x \<noteq> 10"
  using hexdigit_ok [OF nibbles(1) [of c]] hexdigit_ok [OF nibbles(2) [of c]]
  by (auto simp: escape_def word_le_nat_alt split: if_splits)

lemma length_escape: "1 \<le> length (escape c) \<and> length (escape c) \<le> 4"
  by (simp add: escape_def)

lemma length_escapes: "length d \<le> length (concat (map escape d)) \<and> length (concat (map escape d)) \<le> 4 * length d"
proof (induction d)
  case (Cons c d)
  then show ?case using length_escape [of c] by simp
qed simp

text \<open>Reading one such line back.\<close>

definition label_ok :: "bytes \<Rightarrow> bool" where
  "label_ok name \<longleftrightarrow> (\<forall>c \<in> set name. isalnum c \<or> c = 95)"

lemma label_chars: "isalnum c \<or> c = 95 \<Longrightarrow> c \<noteq> 0 \<and> c \<noteq> 10 \<and> c \<noteq> 35 \<and> \<not> isspace c"
  by (auto simp: isalnum_def isdigit_def isspace_def word_le_nat_alt)

lemma skip_all: "\<forall>c \<in> set xs. P c \<Longrightarrow> skip P (xs @ ys) = skip P ys"
  by (simp add: skip_def)

lemma skip_none: "xs \<noteq> [] \<Longrightarrow> \<not> P (hd xs) \<Longrightarrow> skip P xs = xs"
  by (cases xs) (simp_all add: skip_def)

lemma not_space: "\<not> isspace 34" "\<not> isspace 61" "isspace 10" "\<not> isalnum 61"
  by (simp_all add: isspace_def isalnum_def isdigit_def)

lemma trim_dict_line:
  assumes "label_ok name"
  shows "trim_line (dict_line name d) = name @ [61] @ quoted d"
proof -
  have nz: "\<forall>c \<in> set (dict_line name d). c \<noteq> 0"
    using assms set_escape label_chars by (auto simp: dict_line_def quoted_def label_ok_def)
  have c: "c_string (dict_line name d) = dict_line name d"
    unfolding c_string_def by (rule takeWhile_eq_all_conv [THEN iffD2, OF nz])
  have "\<not> isspace (hd (dict_line name d))"
    using assms label_chars not_space by (cases name) (auto simp: dict_line_def label_ok_def)
  then have s: "skip isspace (dict_line name d) = dict_line name d"
    by (intro skip_none) (simp_all add: dict_line_def)
  have "skip isspace (rev (dict_line name d)) = rev (name @ [61] @ quoted d)"
    using not_space by (simp add: dict_line_def quoted_def skip_def)
  then show ?thesis by (simp add: trim_line_def c s)
qed

lemma parse_dict_line:
  assumes "label_ok name" and "d \<noteq> []" and "length d \<le> MAX_DICT_FILE"
  shows "parse_line dict_level (dict_line name d) = Inr (Some d)"
proof -
  have b: "butlast (name @ [61] @ quoted d) = name @ [61, 34] @ concat (map escape d)"
    by (simp add: quoted_def butlast_append)
  have h: "hd (name @ [61] @ quoted d) \<noteq> 35"
    using assms(1) label_chars by (cases name) (auto simp: label_ok_def)
  have "skip (\<lambda>c. isalnum c \<or> c = 95) (name @ [61, 34] @ concat (map escape d)) = [61, 34] @ concat (map escape d)"
    using assms(1) skip_all [of name "\<lambda>c. isalnum c \<or> c = 95"] not_space by (simp add: label_ok_def skip_def)
  then have sl: "skip_label dict_level (name @ [61, 34] @ concat (map escape d)) = Some ([61, 34] @ concat (map escape d))"
    by (simp add: skip_label_def)
  have sk: "skip (\<lambda>c. isspace c \<or> c = 61) ([61, 34] @ concat (map escape d)) = 34 # concat (map escape d)"
    using not_space by (simp add: skip_def)
  have ne: "concat (map escape d) \<noteq> []" using assms(2) length_escapes [of d] by (metis le_zero_eq length_0_conv)
  show ?thesis
    using h assms(3) ne
    by (simp add: parse_line_def Let_def trim_dict_line [OF assms(1)] b [simplified] sl [simplified] sk [simplified]
        unescape_quoted) (simp add: quoted_def)
qed

text \<open>Reading a whole file back.\<close>

definition dict_file :: "(bytes \<times> bytes) list \<Rightarrow> bytes" where
  "dict_file ds = concat (map (\<lambda>(name, d). dict_line name d) ds)"

definition writable :: "(bytes \<times> bytes) list \<Rightarrow> bool" where
  "writable ds \<longleftrightarrow> (\<forall>(name, d) \<in> set ds. label_ok name \<and> length name \<le> 4096 \<and> d \<noteq> [] \<and> length d \<le> MAX_DICT_FILE)"

lemma next_line_dict:
  assumes "label_ok name" and "length name \<le> 4096" and "length d \<le> MAX_DICT_FILE"
  shows "next_line (dict_line name d @ rest) = (dict_line name d, rest)"
proof -
  let ?l = "name @ [61] @ quoted d"
  have "\<forall>c \<in> set ?l. c \<noteq> 10" using assms(1) set_escape label_chars by (auto simp: quoted_def label_ok_def)
  then have "takeWhile (\<lambda>c. c \<noteq> 10) (?l @ [10] @ rest) = ?l" by (subst takeWhile_append2) auto
  moreover have "dict_line name d @ rest = ?l @ [10] @ rest" by (simp add: dict_line_def)
  ultimately have t: "length (takeWhile (\<lambda>c. c \<noteq> 10) (dict_line name d @ rest)) = length ?l" by simp
  have l: "length (dict_line name d) = Suc (length ?l)" by (simp add: dict_line_def)
  have "length ?l + 1 \<le> MAX_LINE - 1"
    using assms length_escapes [of d] by (simp add: quoted_def MAX_LINE_def MAX_DICT_FILE_def)
  then show ?thesis by (simp add: next_line_def Let_def t l)
qed

lemma load_lines_dict_file:
  assumes "writable ds" and "length ds \<le> n"
  shows "load_lines n dict_level (dict_file ds) xs = Inr (xs @ map (\<lambda>(_, d). \<lparr>x_data = d, hit_cnt = 0\<rparr>) ds)"
  using assms
proof (induction ds arbitrary: n xs)
  case Nil
  then show ?case by (cases n) (simp_all add: dict_file_def)
next
  case (Cons nd ds)
  obtain name d where nd: "nd = (name, d)" by fastforce
  obtain m where m: "n = Suc m" using Cons.prems(2) by (cases n) auto
  have ok: "label_ok name" "length name \<le> 4096" "d \<noteq> []" "length d \<le> MAX_DICT_FILE" and rest: "writable ds"
    using Cons.prems(1) nd by (simp_all add: writable_def)
  have f: "dict_file ((name, d) # ds) = dict_line name d @ dict_file ds" by (simp add: dict_file_def)
  have "dict_line name d \<noteq> []" by (simp add: dict_line_def)
  then show ?case
    using Cons.IH [OF rest, of m] Cons.prems(2) m
    by (simp add: nd f next_line_dict [OF ok(1,2,4)] parse_dict_line [OF ok(1,3,4)])
qed

lemma length_dict_file: "length ds \<le> length (dict_file ds)"
  by (induction ds) (auto simp: dict_file_def dict_line_def)

subsection \<open>Properties\<close>

text \<open>
  C33: \<open>load_extras_file\<close> reads back what the file format writes: from a file of lines
  \<open>name="token"\<close>, with the tokens escaped, it appends exactly the tokens, in order.
\<close>

theorem load_extras_file_roundtrip:
  assumes "writable ds" and "read_file fn s = Some (dict_file ds)"
  shows "load_extras_file fn dict_level s =
    Inr (s\<lparr>extras := extras s @ map (\<lambda>(_, d). \<lparr>x_data = d, hit_cnt = 0\<rparr>) ds\<rparr>)"
  using assms(2) load_lines_dict_file [OF assms(1) length_dict_file] by (simp add: load_extras_file_def)

lemma load_extras_file_roundtrip_witness:
  "\<exists>t. load_extras_file ''d'' 0 (demo_main\<lparr>fs := (\<lambda>_. Some (Regular
       [110, 61, 34, 92, 34, 92, 120, 48, 48, 65, 34, 10]))\<rparr>) = Inr t \<and> extras t = [\<lparr>x_data = [34, 0, 65], hit_cnt = 0\<rparr>]"
proof -
  let ?s = "demo_main\<lparr>fs := (\<lambda>_. Some (Regular [110, 61, 34, 92, 34, 92, 120, 48, 48, 65, 34, 10]))\<rparr>"
  let ?ds = "[([110], [34, 0, 65])] :: (bytes \<times> bytes) list"
  have f: "dict_file ?ds = [110, 61, 34, 92, 34, 92, 120, 48, 48, 65, 34, 10]"
    by (simp add: dict_file_def dict_line_def quoted_def escape_def hexdigit_def)
  have "writable ?ds" by (simp add: writable_def label_ok_def isalnum_def isdigit_def MAX_DICT_FILE_def)
  moreover have "read_file ''d'' ?s = Some (dict_file ?ds)" by (simp add: f read_file_def)
  ultimately show ?thesis using load_extras_file_roundtrip [of ?ds "''d''" ?s 0] by (simp add: demo_main_def)
qed

text \<open>
  \<open>load_extras\<close>, if it does not end the process, leaves at least one token; every token has 1 to
  128 bytes, and they are sorted by length.
\<close>

theorem load_extras_sorted:
  "post (\<lambda>t. extras t \<noteq> [] \<and> user_dict (extras t) \<and> sorted (map (length \<circ> x_data) (extras t)))
     (load_extras E arg (s\<lparr>extras := []\<rparr>))"
  by (rule load_extras_dict) (simp add: user_dict_def)

text \<open>
  C34: \<open>maybe_add_auto\<close>, given 3 to 32 bytes, always returns; it touches nothing but the generator of
  random numbers, \<open>auto_changed\<close> and \<open>a_extras\<close>, and keeps the invariant of the automatic tokens: at most
  500 of them, of 3 to 32 bytes, the \<open>USE_AUTO_EXTRAS\<close> in use sorted by length.
\<close>

theorem maybe_add_auto_keeps:
  assumes "MIN_AUTO_EXTRA \<le> length mem" and "length mem \<le> MAX_AUTO_EXTRA" and "auto_dict (a_extras s)"
  shows "\<exists>t. maybe_add_auto E mem s = Inr t \<and> adds_auto s t \<and> auto_dict (a_extras t)"
  using maybe_add_auto_adds [OF assms(1,2)] assms(3) by blast

theorem maybe_add_auto_keeps_witness:
  "\<exists>t. maybe_add_auto demo_env [71, 69, 84] demo_main = Inr t \<and> auto_dict (a_extras t)"
  using maybe_add_auto_keeps [of "[71, 69, 84]" demo_main demo_env]
  by (auto simp: demo_main_def auto_dict_def MIN_AUTO_EXTRA_def MAX_AUTO_EXTRA_def)

end
