(* ===== verification/FlipWalks.thy ===== *)
theory FlipWalks
  imports StageWalks Dicts
begin

unbundle bit_operations_syntax

section \<open>What the walking flips try\<close>

text \<open>
  The stages whose loop counter is \<open>stage_cur\<close> itself: the walking bits, with the collection of
  tokens beside the single bit, and the walking byte with its effector map.
\<close>

subsection \<open>Loops over stage_cur\<close>

text \<open>
  One turn at position \<open>k\<close>: the buffer \<open>b\<close> is run, the globals change by \<open>R\<close>, and the position is
  left alone.
\<close>

definition turn :: "'a runner \<Rightarrow> ('a stage_st_scheme \<Rightarrow> 'a stage_st_scheme \<Rightarrow> bool) \<Rightarrow> ('x \<Rightarrow> bool) \<Rightarrow> bytes \<Rightarrow>
    'a stage_st_scheme \<Rightarrow> (bool \<times> 'x \<times> 'a stage_st_scheme) res \<Rightarrow> bool" where
  "turn run R J b s r \<longleftrightarrow> (case r of
     Inl e \<Rightarrow> run_fails run [b] e
   | Inr (stop, y, t) \<Rightarrow> R s t \<and> tried t = tried s @ [b] \<and>
       (stop \<or> J y \<and> stage_cur t = stage_cur s \<and> stage_max t = stage_max s))"

text \<open>The turns from \<open>k\<close> on.\<close>

definition turns :: "'a runner \<Rightarrow> ('a stage_st_scheme \<Rightarrow> 'a stage_st_scheme \<Rightarrow> bool) \<Rightarrow> ('x \<Rightarrow> bool) \<Rightarrow> bytes list \<Rightarrow> nat \<Rightarrow>
    'a stage_st_scheme \<Rightarrow> (bool \<times> 'x \<times> 'a stage_st_scheme) res \<Rightarrow> bool" where
  "turns run R J cands n s r \<longleftrightarrow> (case r of
     Inl e \<Rightarrow> run_fails run cands e
   | Inr (stop, y, t) \<Rightarrow> R s t \<and>
       (if stop then \<exists>m. 0 < m \<and> m \<le> length cands \<and> tried t = tried s @ take m cands
        else J y \<and> tried t = tried s @ cands \<and> stage_cur t = of_nat n \<and> stage_max t = of_nat n))"

lemma stage_loop_turns:
  assumes R: "\<And>s. R s s" "\<And>s t u. R s t \<Longrightarrow> R t u \<Longrightarrow> R s u" "\<And>s c. R s (s\<lparr>stage_cur := c\<rparr>)"
    and step: "\<And>k x s. k < n \<Longrightarrow> I k x \<Longrightarrow> stage_cur s = of_nat k \<Longrightarrow> turn run R (I (Suc k)) (c k) s (body (x, s))"
    and n: "n < 2 ^ 31"
  shows "k \<le> n \<Longrightarrow> n - k \<le> fuel \<Longrightarrow> I k x \<Longrightarrow> stage_cur s = of_nat k \<Longrightarrow> stage_max s = of_nat n \<Longrightarrow>
    turns run R (I n) (map c [k..<n]) n s (stage_loop fuel body (x, s))"
proof (induction fuel arbitrary: k x s)
  case 0
  then show ?case
    by (subst stage_loop.simps) (use R n in \<open>simp add: turns_def sint_small\<close>)
next
  case (Suc fuel)
  show ?case
  proof (cases "k = n")
    case True
    then show ?thesis
      by (subst stage_loop.simps) (use R n Suc.prems in \<open>simp add: turns_def sint_small\<close>)
  next
    case False
    then have k: "k < n" "[k..<n] = k # [Suc k..<n]" using Suc.prems(1) by (simp_all add: upt_conv_Cons)
    then have lt: "sint (stage_cur s) < sint (stage_max s)" using Suc.prems n by (simp add: sint_small)
    have t: "turn run R (I (Suc k)) (c k) s (body (x, s))" by (rule step [OF k(1) Suc.prems(3,4)])
    show ?thesis
    proof (cases "body (x, s)")
      case (Inl e)
      then show ?thesis
        by (subst stage_loop.simps) (use t k lt in \<open>simp add: turns_def turn_def cont_def\<close>)
    next
      case (Inr r)
      obtain stop y u where r: "r = (stop, y, u)" by (cases r)
      show ?thesis
      proof (cases stop)
        case True
        then show ?thesis
          by (subst stage_loop.simps)
            (use t k lt Inr r in \<open>auto simp: turns_def turn_def cont_def intro!: exI [of _ "1 :: nat"]\<close>)
      next
        case False
        let ?u = "u\<lparr>stage_cur := stage_cur u + 1\<rparr>"
        have u: "R s u" "tried u = tried s @ [c k]" "I (Suc k) y" "stage_cur u = of_nat k" "stage_max u = of_nat n"
          using t Inr r False Suc.prems by (simp_all add: turn_def)
        have "R s ?u" using R(2) [OF u(1) R(3)] .
        have "turns run R (I n) (map c [Suc k..<n]) n ?u (stage_loop fuel body (y, ?u))"
          by (rule Suc.IH) (use k Suc.prems u in simp_all)
        moreover have "stage_loop (Suc fuel) body (x, s) = stage_loop fuel body (y, ?u)"
          by (subst stage_loop.simps) (use lt Inr r False in \<open>simp add: cont_def\<close>)
        ultimately show ?thesis
          using u k R(2) [OF \<open>R s ?u\<close>]
          by (auto simp: turns_def split: sum.splits if_splits intro: exI [of _ "Suc m" for m])
      qed
    qed
  qed
qed

text \<open>A stage made of such a loop.\<close>

lemma run_stage_turns:
  assumes R: "\<And>s. R s s" "\<And>s t u. R s t \<Longrightarrow> R t u \<Longrightarrow> R s u" "\<And>s c. R s (s\<lparr>stage_cur := c\<rparr>)"
    and step: "\<And>k x s. k < n \<Longrightarrow> I k x \<Longrightarrow> stage_cur s = of_nat k \<Longrightarrow> turn run R (I (Suc k)) (c k) s (body (x, s))"
    and n: "n < 2 ^ 31" and x: "I 0 x" and smax: "stage_max s = of_nat n"
  shows "turns run R (I n) (map c [0..<n]) n s (run_stage body (x, s))"
proof -
  let ?s = "s\<lparr>stage_cur := 0\<rparr>"
  have "turns run R (I n) (map c [0..<n]) n ?s (stage_loop (nat (sint (stage_max s))) body (x, ?s))"
    by (rule stage_loop_turns [where R = R and I = I and n = n])
      (use R step n x smax in \<open>auto simp: sint_small\<close>)
  then show ?thesis using R(2) [OF R(3) [of s 0]] by (auto simp: turns_def run_stage_def split: sum.splits)
qed

lemma staged_turns_outcome:
  assumes w: "\<And>s. stage_max s = of_nat n \<Longrightarrow> turns run steady J cands n s (loop (x, s))"
    and "smax = of_nat n" and "length cands = n"
  shows "stage_outcome run k cands J s (staged k short smax loop (x, s))"
proof -
  let ?s = "s\<lparr>stage_short := short, stage_cur := 0, stage_max := smax\<rparr>"
  have r: "rooted s ?s" by simp
  have t: "turns run steady J cands n ?s (loop (x, ?s))" by (rule w) (simp add: assms(2))
  show ?thesis
  proof (cases "loop (x, ?s)")
    case (Inl e)
    then show ?thesis using t by (simp add: staged_def stage_outcome_def cont_def turns_def)
  next
    case (Inr z)
    obtain stop y u where z: "z = (stop, y, u)" by (cases z)
    have st: "steady ?s u" using t Inr z by (simp add: turns_def)
    then have ru: "rooted s u" using rooted_trans [OF r] by (simp add: steady_def)
    show ?thesis
    proof (cases stop)
      case True
      then show ?thesis using t Inr z ru by (simp add: staged_def stage_outcome_def cont_def turns_def)
    next
      case False
      then show ?thesis
        using t Inr z ru st assms(3)
        by (simp add: staged_def stage_outcome_def cont_def turns_def) (simp add: stage_done_def steady_def)
    qed
  qed
qed

subsection \<open>Walking bits\<close>

lemma length_flip_bits [simp]: "length (flip_bits m n buf) = length buf"
  unfolding flip_bits_def by (induction n) simp_all

lemma sbits_eq:
  assumes "length a = length b" and "\<And>k. k < 8 * length a \<Longrightarrow> sbit a k = sbit b k"
  shows "a = b"
proof (rule nth_equalityI [OF assms(1)])
  fix i assume i: "i < length a"
  show "a ! i = b ! i"
  proof (rule bit_eqI)
    fix j assume "possible_bit TYPE(8 word) j"
    then have j: "j < 8" by simp
    define r where "r = 7 - j"
    have "r < 8" "7 - r = j" using j by (simp_all add: r_def)
    then have e: "(8 * i + r) div 8 = i" "7 - (8 * i + r) mod 8 = j" by simp_all
    have "sbit a (8 * i + r) = sbit b (8 * i + r)" by (rule assms(2)) (use i \<open>r < 8\<close> in linarith)
    then show "bit (a ! i) j = bit (b ! i) j" unfolding sbit_def e .
  qed
qed

lemma flip_bits_twice:
  assumes "m + n \<le> 8 * length buf"
  shows "flip_bits m n (flip_bits m n buf) = buf"
  by (rule sbits_eq) (use assms in \<open>auto simp: sbit_flip_bits\<close>)

definition bitflip_cands :: "nat \<Rightarrow> bytes \<Rightarrow> bytes list" where
  "bitflip_cands n buf = map (\<lambda>k. flip_bits k n buf) [0..<8 * length buf - (n - 1)]"

context executor
begin

lemma flip_body_turn:
  assumes "stage_cur s = of_nat k" and "k + n \<le> 8 * length buf" and "8 * length buf < 2 ^ 31" and "buf = out"
  shows "turn run steady ((=) buf) (flip_bits k n buf) s (flip_body n run (out, s))"
proof -
  let ?s = "s\<lparr>stage_cur_byte := drop_bit 3 (stage_cur s)\<rparr>"
  have k: "unat (stage_cur s) = k" using assms by (simp add: unat_of_nat)
  show ?thesis
  proof (cases "run (flip_bits k n buf) ?s")
    case (Inl e)
    then show ?thesis using k \<open>buf = out\<close> by (auto simp: flip_body_def turn_def run_fails_def)
  next
    case (Inr r)
    obtain stop t where r: "r = (stop, t)" by fastforce
    note t = run_keeps [OF Inr [unfolded r]]
    have "steady s t" using t(1) steady_trans [of s ?s t] by simp
    then show ?thesis
      using t k Inr r assms(4) flip_bits_twice [OF assms(2)] by (cases stop) (simp_all add: flip_body_def turn_def)
  qed
qed

lemma bitflip_turns:
  assumes "0 < n" "n \<le> 8" and "8 * length buf < 2 ^ 31" and "stage_max s = of_nat (8 * length buf - (n - 1))"
  shows "turns run steady ((=) buf) (bitflip_cands n buf) (8 * length buf - (n - 1)) s (run_stage (flip_body n run) (buf, s))"
  unfolding bitflip_cands_def
  by (rule run_stage_turns [where I = "\<lambda>_. (=) buf"])
    (use assms in \<open>auto intro: steady_trans flip_body_turn\<close>)

lemma bitflip_outcomes:
  assumes "buf \<noteq> []" and "8 * length buf < 2 ^ 31"
  shows "stage_outcome run STAGE_FLIP2 (bitflip_cands 2 buf) ((=) buf) s (bitflip2 run (buf, s))"
    and "stage_outcome run STAGE_FLIP4 (bitflip_cands 4 buf) ((=) buf) s (bitflip4 run (buf, s))"
proof -
  have 8: "8 \<le> 8 * length buf" using assms(1) by (cases buf) simp_all
  have m: "of_nat (length buf) * 8 - 1 = (of_nat (8 * length buf - (2 - 1)) :: s32)"
    "of_nat (length buf) * 8 - 3 = (of_nat (8 * length buf - (4 - 1)) :: s32)"
    using 8 by (simp_all add: of_nat_diff mult.commute)
  show "stage_outcome run STAGE_FLIP2 (bitflip_cands 2 buf) ((=) buf) s (bitflip2 run (buf, s))"
    "stage_outcome run STAGE_FLIP4 (bitflip_cands 4 buf) ((=) buf) s (bitflip4 run (buf, s))"
    unfolding bitflip2_def bitflip4_def fst_conv m
    by (rule staged_turns_outcome [OF bitflip_turns refl]; use assms in \<open>simp add: bitflip_cands_def\<close>)+
qed

end

subsection \<open>The walking byte and the effector map\<close>

lemma EFF_APOS_less: "i < len \<Longrightarrow> EFF_APOS i < EFF_ALEN len"
proof -
  assume "i < len"
  then have "i div 8 < len div 8 \<or> i div 8 = len div 8 \<and> len mod 8 \<noteq> 0"
    by (metis div_le_mono div_mult_mod_eq add.right_neutral le_neq_implies_less less_imp_le_nat
        less_mult_imp_div_less mult.commute not_less)
  then show ?thesis by (auto simp: EFF_APOS_def EFF_ALEN_def)
qed

definition eff_count :: "bool list \<Rightarrow> nat" where
  "eff_count eff = length (filter (\<lambda>b. b) eff)"

lemma eff_count_upd:
  "a < length eff \<Longrightarrow> \<not> eff ! a \<Longrightarrow> eff_count (eff[a := True]) = Suc (eff_count eff)"
  by (induction eff arbitrary: a) (auto simp: eff_count_def split: nat.splits)

lemma eff_count_replicate [simp]: "eff_count (replicate n b) = (if b then n else 0)"
  by (simp add: eff_count_def)

text \<open>
  What the map is like after \<open>k\<close> bytes: the first and the last block are set from the start; below
  \<open>EFF_MIN_LEN\<close> bytes every block is set.
\<close>

definition eff_inv :: "nat \<Rightarrow> nat \<Rightarrow> bool list \<Rightarrow> nat \<Rightarrow> bool" where
  "eff_inv len k eff cnt \<longleftrightarrow> length eff = EFF_ALEN len \<and> eff ! 0 \<and> eff ! EFF_APOS (len - 1) \<and>
     cnt = eff_count eff \<and> (len < EFF_MIN_LEN \<longrightarrow> (\<forall>i < k. eff ! EFF_APOS i))"

lemma eff_init_inv:
  assumes "0 < len"
  shows "\<exists>eff cnt. eff_init len = Inr (eff, cnt) \<and> eff_inv len 0 eff cnt"
proof -
  have p: "0 < EFF_ALEN len" "EFF_APOS (len - 1) < EFF_ALEN len"
    using EFF_APOS_less [of "len - 1" len] assms by linarith+
  let ?m = "(replicate (EFF_ALEN len) False)[0 := True]"
  have one: "eff_count ?m = 1" using eff_count_upd [of 0 "replicate (EFF_ALEN len) False"] p by simp
  show ?thesis
  proof (cases "EFF_APOS (len - 1) = 0")
    case True
    then show ?thesis using p one by (simp add: eff_init_def eff_inv_def)
  next
    case False
    have "eff_count (?m[EFF_APOS (len - 1) := True]) = 2"
      using eff_count_upd [of "EFF_APOS (len - 1)" ?m] p one False by simp
    then show ?thesis using p False by (simp add: eff_init_def eff_inv_def Let_def)
  qed
qed

lemma eff_step:
  assumes inv: "eff_inv len k eff cnt" and k: "k < len" and "len < EFF_MIN_LEN \<longrightarrow> eff ! EFF_APOS k \<or> hit"
    and h: "hit \<longrightarrow> \<not> eff ! EFF_APOS k"
  shows "eff_inv len (Suc k) (if hit then eff[EFF_APOS k := True] else eff) (if hit then cnt + 1 else cnt)"
proof -
  have a: "EFF_APOS k < length eff" using inv EFF_APOS_less [OF k] by (simp add: eff_inv_def)
  have u: "eff[EFF_APOS k := True] ! i" if "eff ! i \<or> i = EFF_APOS k" for i
    using that a by (cases "i = EFF_APOS k") auto
  show ?thesis
  proof (cases hit)
    case True
    then show ?thesis using inv eff_count_upd [OF a] h u by (auto simp: eff_inv_def less_Suc_eq)
  next
    case False
    then show ?thesis using inv assms(3) by (auto simp: eff_inv_def less_Suc_eq)
  qed
qed

text \<open>The finished map.\<close>

definition effector_map :: "nat \<Rightarrow> bool list \<Rightarrow> bool" where
  "effector_map len eff \<longleftrightarrow> length eff = EFF_ALEN len \<and> eff ! 0 \<and> eff ! EFF_APOS (len - 1) \<and>
     (eff = replicate (EFF_ALEN len) True \<or>
      len \<ge> EFF_MIN_LEN \<and> eff_count eff * 100 div EFF_ALEN len \<le> EFF_MAX_PERC)"

lemma eff_APOS_all:
  assumes "\<forall>i < len. eff ! EFF_APOS i" and "length eff = EFF_ALEN len"
  shows "eff = replicate (EFF_ALEN len) True"
proof (rule nth_equalityI)
  fix a assume "a < length eff"
  then have a: "a < EFF_ALEN len" using assms(2) by simp
  then have "a < len div 8 \<or> a = len div 8 \<and> 0 < len mod 8"
    by (auto simp: EFF_ALEN_def EFF_APOS_def split: if_splits)
  moreover have "len = 8 * (len div 8) + len mod 8" by presburger
  ultimately have "8 * a < len" by (elim disjE) linarith+
  then have "eff ! EFF_APOS (8 * a)" using assms(1) by blast
  then show "eff ! a = replicate (EFF_ALEN len) True ! a" using a by (simp add: EFF_APOS_def)
qed (use assms(2) in simp)

lemma full_map: "0 < len \<Longrightarrow> effector_map len (replicate (EFF_ALEN len) True)"
  using EFF_APOS_less [of "len - 1" len] by (auto simp: effector_map_def)

lemma eff_finish_map:
  assumes "eff_inv len len eff cnt" and "0 < len" and "eff_finish len eff cnt = (eff', sel)"
  shows "effector_map len eff' \<and> sel = eff_count eff'"
proof (cases "len < EFF_MIN_LEN")
  case True
  then have "eff = replicate (EFF_ALEN len) True" using assms(1) eff_APOS_all by (auto simp: eff_inv_def)
  then show ?thesis using assms full_map by (auto simp: eff_inv_def eff_finish_def split: if_splits)
next
  case False
  have all: "eff = replicate (EFF_ALEN len) True" if "eff_count eff = EFF_ALEN len"
  proof -
    have l: "length eff = EFF_ALEN len" using assms(1) by (simp add: eff_inv_def)
    have "\<forall>b \<in> set eff. b"
    proof (rule ccontr)
      assume "\<not> (\<forall>b \<in> set eff. b)"
      then have "length (filter (\<lambda>b. b) eff) < length eff" by (auto intro: length_filter_less)
      then show False using that l by (simp add: eff_count_def)
    qed
    then show ?thesis using l by (auto intro!: replicate_eqI)
  qed
  then show ?thesis
    using assms full_map False by (auto simp: eff_finish_def eff_inv_def effector_map_def split: if_splits)
qed

definition byteflip_cands :: "bytes \<Rightarrow> bytes list" where
  "byteflip_cands buf = map (\<lambda>k. buf[k := buf ! k XOR 0xFF]) [0..<length buf]"

definition eff_outcome :: "'a runner \<Rightarrow> bytes \<Rightarrow> 'a stage_st_scheme \<Rightarrow>
    (bool \<times> (bytes \<times> bool list) \<times> 'a stage_st_scheme) res \<Rightarrow> bool" where
  "eff_outcome run buf s r \<longleftrightarrow> (case r of
     Inl e \<Rightarrow> run_fails run (byteflip_cands buf) e
   | Inr (stop, (out, eff), t) \<Rightarrow> rooted s t \<and>
       (if stop then \<exists>m. 0 < m \<and> m \<le> length buf \<and> tried t = tried s @ take m (byteflip_cands buf)
        else out = buf \<and> effector_map (length buf) eff \<and> tried t = tried s @ byteflip_cands buf \<and>
          stage_cur t = of_nat (length buf) \<and> stage_max t = of_nat (length buf) \<and>
          blocks_eff_select t = blocks_eff_select s + of_nat (eff_count eff) \<and>
          blocks_eff_total t = blocks_eff_total s + of_nat (EFF_ALEN (length buf))))"

lemma NOT_neq: "NOT x \<noteq> (x :: u32)"
proof
  assume "NOT x = x"
  then have "bit (NOT x) 0 = bit x 0" by simp
  then show False by (simp add: bit_not_iff)
qed

context executor
begin

lemma flip8_turn:
  assumes "stage_cur s = of_nat k" and "k < length buf" and "length buf < 2 ^ 31"
    and inv: "eff_inv (length buf) k eff cnt"
  shows "turn run steady (\<lambda>(out, eff, cnt). out = buf \<and> eff_inv (length buf) (Suc k) eff cnt)
    (buf[k := buf ! k XOR 0xFF]) s (flip8_body q run ((buf, eff, cnt), s))"
proof -
  let ?s = "s\<lparr>stage_cur_byte := stage_cur s\<rparr>" and ?b = "buf[k := buf ! k XOR 0xFF]"
  have k: "unat (stage_cur s) = k" using assms by (simp add: unat_of_nat)
  show ?thesis
  proof (cases "run ?b ?s")
    case (Inl e)
    then show ?thesis using k by (auto simp: flip8_body_def turn_def run_fails_def Let_def)
  next
    case (Inr r)
    obtain stop t where r: "r = (stop, t)" by fastforce
    note t = run_keeps [OF Inr [unfolded r]]
    have st: "steady s t" using t(1) steady_trans [of s ?s t] by simp
    have undone: "?b[k := ?b ! k XOR 0xFF] = buf" using assms(2) by (simp add: xor.assoc)
    define ck where "ck = (if dumb_mode t = 0 \<and> length buf \<ge> EFF_MIN_LEN then trace_cksum t else NOT (exec_cksum (ent t q)))"
    define hit where "hit \<longleftrightarrow> \<not> eff ! EFF_APOS k \<and> ck \<noteq> exec_cksum (ent t q)"
    have "length buf < EFF_MIN_LEN \<longrightarrow> eff ! EFF_APOS k \<or> hit" by (auto simp: hit_def ck_def NOT_neq)
    then have "eff_inv (length buf) (Suc k) (if hit then eff[EFF_APOS k := True] else eff) (if hit then cnt + 1 else cnt)"
      by (intro eff_step [OF inv assms(2)]) (simp_all add: hit_def)
    then show ?thesis
      using t k Inr r st undone
      by (cases stop) (simp_all add: flip8_body_def turn_def Let_def hit_def ck_def split del: if_split cong del: if_weak_cong)
  qed
qed

lemma byteflip1_outcome:
  assumes "buf \<noteq> []" and "length buf < 2 ^ 31"
  shows "eff_outcome run buf s (byteflip1 q run (buf, s))"
proof -
  let ?n = "length buf"
  let ?s = "s\<lparr>stage_short := ''flip8'', stage_cur := 0, stage_max := of_nat ?n\<rparr>"
  let ?I = "\<lambda>k (out, eff, cnt). out = buf \<and> eff_inv ?n k eff cnt"
  obtain eff0 cnt0 where init: "eff_init ?n = Inr (eff0, cnt0)" "eff_inv ?n 0 eff0 cnt0"
    using eff_init_inv [of ?n] assms(1) by auto
  have w: "turns run steady (?I ?n) (byteflip_cands buf) ?n ?s (run_stage (flip8_body q run) ((buf, eff0, cnt0), ?s))"
    unfolding byteflip_cands_def
  proof (rule run_stage_turns [where I = ?I])
    fix k x and u :: "'a stage_st_scheme" assume k: "k < ?n" "?I k x" "stage_cur u = of_nat k"
    then obtain eff cnt where "x = (buf, eff, cnt)" "eff_inv ?n k eff cnt" by (cases x) auto
    then show "turn run steady (?I (Suc k)) (buf[k := buf ! k XOR 0xFF]) u (flip8_body q run (x, u))"
      using flip8_turn [OF k(3,1) assms(2)] by simp
  qed (use assms init in \<open>auto intro: steady_trans\<close>)
  have r: "rooted s ?s" by simp
  show ?thesis
  proof (cases "run_stage (flip8_body q run) ((buf, eff0, cnt0), ?s)")
    case (Inl e)
    then show ?thesis using w init by (simp add: byteflip1_def eff_outcome_def staged_def cont_def turns_def Let_def)
  next
    case (Inr z)
    obtain stop out eff cnt t where z: "z = (stop, (out, eff, cnt), t)" by (cases z) auto
    have st: "steady ?s t" using w Inr z by (simp add: turns_def)
    then have rt: "rooted s t" using rooted_trans [OF r] by (simp add: steady_def)
    have l: "length (byteflip_cands buf) = ?n" by (simp add: byteflip_cands_def)
    show ?thesis
    proof (cases stop)
      case True
      then show ?thesis using w Inr z rt l init
        by (simp add: byteflip1_def eff_outcome_def staged_def cont_def turns_def Let_def)
    next
      case False
      obtain eff' sel where f: "eff_finish ?n eff cnt = (eff', sel)" by fastforce
      have "effector_map ?n eff' \<and> sel = eff_count eff'"
        by (rule eff_finish_map [OF _ _ f]) (use w Inr z False assms(1) in \<open>simp_all add: turns_def\<close>)
      then show ?thesis using False w Inr z rt st f init
        by (simp add: byteflip1_def eff_outcome_def staged_def cont_def turns_def Let_def stage_done_def steady_def)
    qed
  qed
qed

end

subsection \<open>The single bit and its tokens\<close>

text \<open>Nothing but the automatic tokens changes beside what a stage changes.\<close>

definition collects :: "'a stage_st_scheme \<Rightarrow> 'a stage_st_scheme \<Rightarrow> bool" where
  "collects s t \<longleftrightarrow> steady (s\<lparr>a_extras := a_extras t\<rparr>) t \<and> (auto_dict (a_extras s) \<longrightarrow> auto_dict (a_extras t))"

lemma steady_a_extras: "steady s t \<Longrightarrow> steady (s\<lparr>a_extras := xs\<rparr>) (t\<lparr>a_extras := xs\<rparr>)"
  by (simp add: steady_def rooted_def queue_wf_def list_top_def list_wf_def ent_def)

lemma steady_collects: "steady s t \<Longrightarrow> collects s t"
proof -
  assume st: "steady s t"
  then have "a_extras t = a_extras s" by (simp add: steady_def rooted_def)
  then show ?thesis using st by (simp add: collects_def)
qed

lemma collects_trans: "collects s t \<Longrightarrow> collects t u \<Longrightarrow> collects s u"
proof -
  assume st: "collects s t" and tu: "collects t u"
  then have "steady (s\<lparr>a_extras := a_extras t, a_extras := a_extras u\<rparr>) (t\<lparr>a_extras := a_extras u\<rparr>)"
    using steady_a_extras unfolding collects_def by blast
  then have "steady (s\<lparr>a_extras := a_extras u\<rparr>) (t\<lparr>a_extras := a_extras u\<rparr>)" by simp
  then show ?thesis using st tu steady_trans unfolding collects_def by blast
qed

lemma adds_auto_collects:
  assumes "adds_auto s t" and "auto_dict (a_extras s) \<longrightarrow> auto_dict (a_extras t)"
  shows "collects s t" "tried t = tried s" "stage_cur t = stage_cur s" "stage_max t = stage_max s"
  using assms by (auto simp: adds_auto_def collects_def steady_def rooted_def queue_wf_def list_top_def list_wf_def ent_def)

text \<open>The collected characters are in the array.\<close>

definition token_ok :: "token_loc \<Rightarrow> bool" where
  "token_ok l \<longleftrightarrow> min (a_len l) MAX_AUTO_EXTRA \<le> length (a_collect l)"

lemma collect_ok: "token_ok l \<Longrightarrow> token_ok (collect c l)"
  by (auto simp: token_ok_def collect_def min_def split: if_splits)

lemma offer_token_collects:
  assumes "token_ok l"
  shows "\<exists>t. offer_token E l s = Inr t \<and> collects s t \<and> tried t = tried s \<and> stage_cur t = stage_cur s \<and> stage_max t = stage_max s"
proof (cases "MIN_AUTO_EXTRA \<le> a_len l \<and> a_len l \<le> MAX_AUTO_EXTRA")
  case True
  then have "length (take (a_len l) (a_collect l)) = a_len l" using assms by (simp add: token_ok_def)
  then obtain t where "maybe_add_auto E (take (a_len l) (a_collect l)) s = Inr t" "adds_auto s t"
    "auto_dict (a_extras s) \<longrightarrow> auto_dict (a_extras t)"
    using maybe_add_auto_adds [of "take (a_len l) (a_collect l)" E s] True by auto
  then show ?thesis using True adds_auto_collects [of s t] by (auto simp: offer_token_def)
qed (auto simp: offer_token_def steady_collects)

lemma token_step_collects:
  assumes "token_ok l"
  shows "\<exists>l' t. token_step E exec_ck cksum at_end c l s = Inr (l', t) \<and> token_ok l' \<and> collects s t \<and>
    tried t = tried s \<and> stage_cur t = stage_cur s \<and> stage_max t = stage_max s"
proof -
  obtain t0 where t0: "offer_token E (collect c l) s = Inr t0" "collects s t0" "tried t0 = tried s"
    "stage_cur t0 = stage_cur s" "stage_max t0 = stage_max s"
    using offer_token_collects [OF collect_ok [OF assms, of c], of E s] by blast
  obtain t1 where t1: "offer_token E l s = Inr t1" "collects s t1" "tried t1 = tried s"
    "stage_cur t1 = stage_cur s" "stage_max t1 = stage_max s"
    using offer_token_collects [OF assms, of E s] by blast
  have z: "token_ok (l\<lparr>a_len := 0, prev_cksum := cksum\<rparr>)" by (simp add: token_ok_def)
  show ?thesis
    using t0 t1 z assms by (auto simp: token_step_def Let_def steady_collects collect_ok)
qed

definition flip1_outcome :: "'a runner \<Rightarrow> bytes \<Rightarrow> 'a stage_st_scheme \<Rightarrow> (bool \<times> bytes \<times> 'a stage_st_scheme) res \<Rightarrow> bool" where
  "flip1_outcome run buf s r \<longleftrightarrow> (case r of
     Inl e \<Rightarrow> run_fails run (bitflip_cands 1 buf) e
   | Inr (stop, out, t) \<Rightarrow>
       stage_outcome run STAGE_FLIP1 (bitflip_cands 1 buf) ((=) buf) (s\<lparr>a_extras := a_extras t\<rparr>) r \<and>
       (auto_dict (a_extras s) \<longrightarrow> auto_dict (a_extras t)))"

context executor
begin

lemma flip1_turn:
  assumes "stage_cur s = of_nat k" and "k < 8 * length buf" and "8 * length buf < 2 ^ 31" and "token_ok l"
  shows "turn run collects (\<lambda>(out, l). out = buf \<and> token_ok l) (flip_bits k 1 buf) s (flip1_body E q run ((buf, l), s))"
proof -
  have t: "turn run steady ((=) buf) (flip_bits k 1 buf) s (flip_body 1 run (buf, s))"
    by (rule flip_body_turn) (use assms in simp_all)
  show ?thesis
  proof (cases "flip_body 1 run (buf, s)")
    case (Inl e)
    then show ?thesis using t by (simp add: turn_def flip1_body_def)
  next
    case (Inr r)
    obtain stop out u where r: "r = (stop, out, u)" by (cases r)
    have u: "collects s u" using t Inr r by (simp add: turn_def steady_collects)
    obtain l' v where v: "token_step E (exec_cksum (ent u q)) (trace_cksum u) (stage_cur u = stage_max u - 1)
        (out ! (unat (stage_cur u) div 8)) l u = Inr (l', v)" "token_ok l'" "collects u v" "tried v = tried u"
        "stage_cur v = stage_cur u" "stage_max v = stage_max u"
      using token_step_collects [OF assms(4)] by blast
    show ?thesis
      using t Inr r u v collects_trans [OF u v(3)] assms(4) by (cases stop) (auto simp: turn_def flip1_body_def)
  qed
qed

lemma bitflip1_outcome:
  assumes "8 * length buf < 2 ^ 31"
  shows "flip1_outcome run buf s (bitflip1 E q run (buf, s))"
proof -
  let ?n = "8 * length buf"
  let ?l = "\<lparr>a_collect = [], a_len = 0, prev_cksum = exec_cksum (ent s q)\<rparr>"
  let ?s0 = "s\<lparr>stage_val_type := STAGE_VAL_NONE, stage_short := ''flip1'', stage_cur := 0, stage_max := of_nat (length buf) * 8\<rparr>"
  let ?I = "\<lambda>(out, l). out = buf \<and> token_ok l"
  have refl: "collects u u" "collects u (u\<lparr>stage_cur := c\<rparr>)" for u :: "'a stage_st_scheme" and c
    by (simp_all add: steady_collects)
  have w: "turns run collects ?I (bitflip_cands 1 buf) ?n ?s0 (run_stage (flip1_body E q run) ((buf, ?l), ?s0))"
    unfolding bitflip_cands_def diff_self_eq_0 minus_nat.diff_0
  proof (rule run_stage_turns [where I = "\<lambda>_. ?I"])
    fix k x and u :: "'a stage_st_scheme" assume k: "k < ?n" "?I x" "stage_cur u = of_nat k"
    then show "turn run collects ?I (flip_bits k 1 buf) u (flip1_body E q run (x, u))"
      using flip1_turn [OF k(3,1) assms] by (cases x) auto
  qed (use assms refl in \<open>auto simp: token_ok_def mult.commute intro: collects_trans\<close>)
  have l: "length (bitflip_cands 1 buf) = ?n" by (simp add: bitflip_cands_def)
  show ?thesis
  proof (cases "run_stage (flip1_body E q run) ((buf, ?l), ?s0)")
    case (Inl e)
    then show ?thesis using w by (simp add: bitflip1_def flip1_outcome_def staged_def cont_def turns_def Let_def)
  next
    case (Inr z)
    obtain stop out l' t where z: "z = (stop, (out, l'), t)" by (cases z) auto
    have c: "collects ?s0 t" using w Inr z by (simp add: turns_def)
    then have st: "steady (?s0\<lparr>a_extras := a_extras t\<rparr>) t" and d: "auto_dict (a_extras s) \<longrightarrow> auto_dict (a_extras t)"
      by (simp_all add: collects_def)
    have "rooted (s\<lparr>a_extras := a_extras t\<rparr>) (?s0\<lparr>a_extras := a_extras t\<rparr>)"
      by (simp add: rooted_def queue_wf_def list_top_def list_wf_def ent_def)
    then have rt: "rooted (s\<lparr>a_extras := a_extras t\<rparr>) t" using st rooted_trans by (auto simp: steady_def)
    show ?thesis
    proof (cases stop)
      case True
      then show ?thesis using w Inr z rt d
        by (simp add: bitflip1_def flip1_outcome_def stage_outcome_def staged_def cont_def turns_def Let_def)
    next
      case False
      then show ?thesis using w Inr z rt d st l
        by (simp add: bitflip1_def flip1_outcome_def stage_outcome_def staged_def cont_def turns_def Let_def)
          (simp add: stage_done_def steady_def hit_count_def mult.commute)
    qed
  qed
qed

end

end
