(* ===== verification/DictWalks.thy ===== *)
theory DictWalks
  imports StageWalks
begin

section \<open>What the dictionary stages try\<close>

text \<open>
  Overwriting and inserting tokens. A token is skipped where it does not fit, where it is there
  already (from \<open>buf\<close> or from the token written just before), and where it spans no effector
  byte. The bytes that the tokens clobber are restored for the length of the last token, which is
  enough when the tokens are sorted by length.
\<close>

fun over_cands :: "bool list \<Rightarrow> bytes \<Rightarrow> nat \<Rightarrow> bytes list \<Rightarrow> bytes \<Rightarrow> bytes list" where
  "over_cands eff buf i [] cur = []"
| "over_cands eff buf i (d # ds) cur =
     (if length d > length buf - i \<or> slice i (length d) (put i cur buf) = d \<or> \<not> eff_span eff i (length d)
      then over_cands eff buf i ds cur
      else put i d buf # over_cands eff buf i ds d)"

definition overwrites :: "bool list \<Rightarrow> bytes \<Rightarrow> bytes list \<Rightarrow> bytes list" where
  "overwrites eff buf ds = concat (map (\<lambda>i. over_cands eff buf i ds []) [0..<length buf])"

lemma put_shorter:
  assumes "length bs \<le> length cs" and "i + length cs \<le> length buf"
  shows "put i cs (put i bs buf) = put i cs buf"
  using assms by (simp add: put_def add.commute)

lemma put_Nil [simp]: "put i [] buf = buf"
  by (simp add: put_def)

text \<open>Loops over indices into a list that the runs leave alone.\<close>

lemma for_each_reindex:
  assumes "P s"
    and eq: "\<And>j x s. j \<in> set js \<Longrightarrow> P s \<Longrightarrow> f j (x, s) = g (h j) (x, s)"
    and keep: "\<And>d x s stop y t. P s \<Longrightarrow> g d (x, s) = Inr (stop, y, t) \<Longrightarrow> P t"
  shows "for_each js f (x, s) = for_each (map h js) g (x, s)"
  using assms(1) eq
proof (induction js arbitrary: x s)
  case (Cons j js)
  have f: "f j (x, s) = g (h j) (x, s)" using Cons.prems by simp
  show ?case
  proof (cases "g (h j) (x, s)")
    case (Inr r)
    obtain stop y t where r: "r = (stop, y, t)" by (cases r)
    have "P t" using keep Cons.prems(1) Inr r by blast
    then show ?thesis using f Inr r Cons by simp
  qed (simp add: f)
qed simp

text \<open>The state of \<open>over_try\<close>: the buffer with the last token written.\<close>

definition overwritten :: "nat \<Rightarrow> bytes \<Rightarrow> bytes \<times> nat \<Rightarrow> bool" where
  "overwritten i buf x \<longleftrightarrow> (case x of (out, last_len) \<Rightarrow> near_copy i last_len buf out \<and> i + last_len \<le> length buf)"

text \<open>One offset, for a list of tokens.\<close>

definition over_place :: "'a runner \<Rightarrow> bool list \<Rightarrow> bytes list \<Rightarrow> bytes \<Rightarrow> nat \<Rightarrow> 'a work \<Rightarrow> (bool \<times> 'a work) res" where
  "over_place run eff ds in_buf i w =
     (case w of (out, s) \<Rightarrow>
        bnd (for_each ds (over_try run eff i) ((out, 0), set_byte i s)) (\<lambda>(stop, (out', last_len), s').
          if stop then Inr (True, out', s')
          else Inr (False, put i (slice i last_len in_buf) out', s')))"

context executor
begin

lemma walks_over_try:
  assumes "length cur \<le> length d" and "i + length cur \<le> length buf"
    and left: "left \<longleftrightarrow> length d > length buf - i \<or> slice i (length d) (put i cur buf) = d \<or> \<not> eff_span eff i (length d)"
  shows "walks run ((=) (put i cur buf, length cur)) ((=) (if left then (put i cur buf, length cur) else (put i d buf, length d)))
    (if left then [] else [put i d buf]) 1 (over_try run eff i d)"
proof (cases left)
  case True
  have "walks run ((=) (put i cur buf, length cur)) ((=) (put i cur buf, length cur)) [] 1
      (\<lambda>(x, s). Inr (False, x, drop_slots 1 s))"
    by (rule walks_drop)
  then show ?thesis using True assms by (auto simp: over_try_def elim!: walks_same)
next
  case False
  then have fits: "i + length d \<le> length buf" using assms(2) left by linarith
  have w: "walks run ((=) (put i cur buf, length cur)) ((=) (put i d buf, length d)) [put i d buf] 1
      (\<lambda>(x, s). bnd (run (put i d buf) s) (\<lambda>(stop, s').
        if stop then Inr (True, (put i d buf, length d), s')
        else Inr (False, (put i d buf, length d), s'\<lparr>stage_cur := stage_cur s' + 1\<rparr>)))"
    by (rule walks_run) simp
  show ?thesis
    using False assms put_shorter [OF assms(1) fits] w
    by (auto simp: over_try_def Let_def elim!: walks_same)
qed

lemma walks_over_tries:
  assumes "sorted (map length ds)" and "\<forall>d \<in> set ds. length cur \<le> length d" and "i + length cur \<le> length buf"
  shows "walks run ((=) (put i cur buf, length cur)) (overwritten i buf) (over_cands eff buf i ds cur) (length ds)
    (for_each ds (over_try run eff i))"
  using assms
proof (induction ds arbitrary: cur)
  case Nil
  then show ?case by (intro walksI) (auto simp: walked_def overwritten_def near_copy_def)
next
  case (Cons d ds)
  define left where "left \<longleftrightarrow> length d > length buf - i \<or> slice i (length d) (put i cur buf) = d \<or>
    \<not> eff_span eff i (length d)"
  define nxt where "nxt = (if left then cur else d)"
  have "i + length nxt \<le> length buf" using Cons.prems(3) by (auto simp: nxt_def left_def)
  moreover have "\<forall>d \<in> set ds. length nxt \<le> length d" using Cons.prems by (auto simp: nxt_def)
  ultimately have rest: "walks run ((=) (put i nxt buf, length nxt)) (overwritten i buf) (over_cands eff buf i ds nxt)
      (length ds) (for_each ds (over_try run eff i))"
    using Cons by simp
  have "walks run ((=) (put i cur buf, length cur)) ((=) (put i nxt buf, length nxt))
      (if left then [] else [put i d buf]) 1 (over_try run eff i d)"
    using walks_over_try [OF _ Cons.prems(3) left_def] Cons.prems(2) by (simp add: nxt_def if_distrib cong: if_cong)
  from walks_cont [OF this rest]
  have "walks run ((=) (put i cur buf, length cur)) (overwritten i buf)
      ((if left then [] else [put i d buf]) @ over_cands eff buf i ds nxt) (1 + length ds)
      (for_each (d # ds) (over_try run eff i))"
    by (simp add: cont_def for_each.simps(2) [abs_def])
  then show ?case by (cases left) (simp_all add: nxt_def left_def [symmetric] del: for_each.simps)
qed

lemma walks_over_place:
  assumes "sorted (map length ds)" and "i \<le> length buf"
  shows "walks run ((=) buf) ((=) buf) (over_cands eff buf i ds []) (length ds) (over_place run eff ds buf i)"
proof (rule walksI)
  fix out and s :: "'a stage_st_scheme" assume "buf = out"
  have w: "walks run ((=) (buf, 0)) (overwritten i buf) (over_cands eff buf i ds []) (length ds) (for_each ds (over_try run eff i))"
    using walks_over_tries [OF assms(1), of "[]" i buf eff] assms(2) by simp
  show "case over_place run eff ds buf i (out, s) of
      Inl e \<Rightarrow> run_fails run (over_cands eff buf i ds []) e
    | Inr r \<Rightarrow> walked s ((=) buf) (over_cands eff buf i ds []) (length ds) r"
  proof (rule walksE [OF walks_byte [OF w, of i] refl, of s])
    fix stop y t assume c: "(case ((buf, 0), s) of (x, s) \<Rightarrow> for_each ds (over_try run eff i) (x, set_byte i s)) = Inr (stop, y, t)"
      and t: "walked s (overwritten i buf) (over_cands eff buf i ds []) (length ds) (stop, y, t)"
    obtain out' l where y: "y = (out', l)" by fastforce
    have "put i (slice i l buf) out' = buf" if "overwritten i buf (out', l)"
      using that near_copy_put [of i l buf out' "slice i l buf"] by (simp add: overwritten_def)
    then show ?thesis using c t \<open>buf = out\<close>
      by (cases stop) (auto simp: over_place_def y walked_def)
  qed (simp add: over_place_def \<open>buf = out\<close>)
qed

lemma walks_over:
  assumes "sorted (map length ds)"
  shows "walks run ((=) buf) ((=) buf) (overwrites eff buf ds) (length ds * length buf)
    (for_each [0..<length buf] (over_place run eff ds buf))"
proof -
  have "walks run ((=) buf) ((=) buf) (overwrites eff buf ds) (sum_list (map (\<lambda>_. length ds) [0..<length buf]))
      (for_each [0..<length buf] (over_place run eff ds buf))"
    unfolding overwrites_def by (rule walks_for_each, rule walks_over_place [OF assms]) auto
  then show ?thesis by (simp add: sum_units)
qed

text \<open>The tokens stay what they are while the stage runs.\<close>

lemma over_try_rooted: "over_try run eff i d (x, s) = Inr (stop, y, t) \<Longrightarrow> rooted s t"
  by (cases x) (auto simp: over_try_def drop_slots_def Let_def bnd_Inr_iff steady_def dest: run_keeps(1) split: if_splits)

lemma over_place_rooted:
  assumes "over_place run eff ds in_buf i (out, s) = Inr (stop, out', t)"
  shows "rooted s t"
proof -
  obtain st y u where r: "for_each ds (over_try run eff i) ((out, 0), set_byte i s) = Inr (st, y, u)"
    and t: "t = u" using assms by (auto simp: over_place_def bnd_Inr_iff split: if_splits)
  have "rooted s (snd (y, u))"
  proof (rule for_each_invariant [OF r, where I = "\<lambda>w. rooted s (snd w)"], goal_cases)
    case (2 d w stop w')
    then show ?case by (cases w; cases w') (auto intro: rooted_trans [OF _ over_try_rooted])
  qed (simp add: set_byte_def)
  then show ?thesis by (simp add: t)
qed

lemma over_body_tokens:
  assumes "\<And>j s x. j < n \<Longrightarrow> rooted s0 s \<Longrightarrow> f i j (x, s) = over_try run eff i (ds ! j) (x, s)"
    and "n = length ds" and "rooted s0 s"
  shows "over_body f n in_buf i (out, s) = over_place run eff ds in_buf i (out, s)"
proof -
  have "for_each [0..<n] (f i) (x, set_byte i s) = for_each (map ((!) ds) [0..<n]) (over_try run eff i) (x, set_byte i s)" for x
  proof (rule for_each_reindex [where P = "rooted s0"])
    show "rooted s0 (set_byte i s)" using assms(3) by (simp add: set_byte_def)
  qed (use assms(1) in \<open>auto intro: rooted_trans [OF _ over_try_rooted]\<close>)
  then show ?thesis using assms(2) by (simp add: over_body_def over_place_def map_nth)
qed

lemma over_loop_tokens:
  assumes "\<And>i j s x. j < n \<Longrightarrow> rooted s0 s \<Longrightarrow> f i j (x, s) = over_try run eff i (ds ! j) (x, s)"
    and "n = length ds" and "rooted s0 s"
  shows "for_each is (over_body f n in_buf) (out, s) = for_each is (over_place run eff ds in_buf) (out, s)"
proof -
  have "for_each is (over_body f n in_buf) (out, s) = for_each (map (\<lambda>i. i) is) (over_place run eff ds in_buf) (out, s)"
  proof (rule for_each_reindex [where P = "rooted s0"])
    show "over_body f n in_buf j (x, s) = over_place run eff ds in_buf j (x, s)" if "rooted s0 s" for j x s
      using over_body_tokens [where f = f] assms(1,2) that by blast
  qed (use assms(3) in \<open>auto intro: rooted_trans [OF _ over_place_rooted]\<close>)
  then show ?thesis by simp
qed

lemma staged_tokens:
  assumes "\<And>i j s x. j < n \<Longrightarrow> rooted s0 s \<Longrightarrow> f i j (x, s) = over_try run eff i (ds ! j) (x, s)"
    and "n = length ds" and "sorted (map length ds)"
  shows "stage_outcome run k (overwrites eff buf ds) ((=) buf) s0
    (staged k short (of_nat (n * length buf)) (for_each [0..<length buf] (over_body f n buf)) (val_type_is ty (buf, s0)))"
proof -
  let ?s = "s0\<lparr>stage_val_type := ty, stage_short := short, stage_cur := 0, stage_max := of_nat (n * length buf)\<rparr>"
  have "for_each [0..<length buf] (over_body f n buf) (buf, ?s) = for_each [0..<length buf] (over_place run eff ds buf) (buf, ?s)"
    using over_loop_tokens [of n s0 f eff ds ?s "[0..<length buf]" buf buf, OF assms(1,2)] by simp
  then have "staged k short (of_nat (n * length buf)) (for_each [0..<length buf] (over_body f n buf)) (val_type_is ty (buf, s0)) =
      staged k short (of_nat (n * length buf)) (for_each [0..<length buf] (over_place run eff ds buf)) (val_type_is ty (buf, s0))"
    by (simp add: staged_def val_type_is_def hit_count_def)
  then show ?thesis
    using staged_outcome_typed [OF walks_over [OF assms(3)] refl, where k = k and s = s0] assms(2) by simp
qed

lemma auto_extras_over_outcome:
  assumes "sorted (map (length \<circ> x_data) (take USE_AUTO_EXTRAS (a_extras s)))"
  shows "stage_outcome run STAGE_EXTRAS_AO (overwrites eff buf (map x_data (take USE_AUTO_EXTRAS (a_extras s))))
    ((=) buf) s (auto_extras_over run eff buf (buf, s))"
proof -
  let ?n = "min (length (a_extras s)) USE_AUTO_EXTRAS"
  let ?ds = "map x_data (take USE_AUTO_EXTRAS (a_extras s))"
  have "auto_over_try run eff i j (x, t) = over_try run eff i (?ds ! j) (x, t)" if "j < ?n" "rooted s t" for i j x t
    using that by (simp add: auto_over_try_def rooted_def)
  then have "stage_outcome run STAGE_EXTRAS_AO (overwrites eff buf ?ds) ((=) buf) s
      (staged STAGE_EXTRAS_AO ''ext_AO'' (of_nat (?n * length buf))
        (for_each [0..<length buf] (over_body (auto_over_try run eff) ?n buf)) (val_type_is STAGE_VAL_NONE (buf, s)))"
    by (rule staged_tokens) (use assms in \<open>simp_all\<close>)
  then show ?thesis by (simp add: auto_extras_over_def Let_def)
qed

lemma extras_over_outcome:
  assumes "length (extras s) \<le> MAX_DET_EXTRAS" and "sorted (map (length \<circ> x_data) (extras s))"
  shows "stage_outcome run STAGE_EXTRAS_UO (overwrites eff buf (map x_data (extras s)))
    ((=) buf) s (extras_over E run eff buf (buf, s))"
proof -
  let ?ds = "map x_data (extras s)"
  have "user_over_try E run eff i j (x, t) = over_try run eff i (?ds ! j) (x, t)"
    if "j < length (extras s)" "rooted s t" for i j x t
    using that assms(1) by (simp add: user_over_try_def rooted_def)
  then have "stage_outcome run STAGE_EXTRAS_UO (overwrites eff buf ?ds) ((=) buf) s
      (staged STAGE_EXTRAS_UO ''ext_UO'' (of_nat (length (extras s) * length buf))
        (for_each [0..<length buf] (over_body (user_over_try E run eff) (length (extras s)) buf)) (val_type_is STAGE_VAL_NONE (buf, s)))"
    by (rule staged_tokens) (use assms in \<open>simp_all\<close>)
  then show ?thesis by (simp add: extras_over_def Let_def)
qed

end

subsection \<open>Inserting tokens\<close>

text \<open>Every token at every offset, the end included, while the result stays within \<open>MAX_FILE\<close>.\<close>

definition inserted :: "bytes \<Rightarrow> nat \<Rightarrow> bytes \<Rightarrow> bytes list" where
  "inserted buf i d = (if length buf + length d > MAX_FILE then [] else [take i buf @ d @ drop i buf])"

definition insertions :: "bytes \<Rightarrow> bytes list \<Rightarrow> bytes list" where
  "insertions buf ds = concat (map (\<lambda>i. concat (map (inserted buf i) ds)) [0..<Suc (length buf)])"

text \<open>\<open>ex_tmp\<close> holds the head of the buffer.\<close>

definition holds_head :: "bytes \<Rightarrow> nat \<Rightarrow> bytes \<Rightarrow> bool" where
  "holds_head buf i ex_tmp \<longleftrightarrow> length ex_tmp = length buf + MAX_DICT_FILE \<and> take i ex_tmp = take i buf"

lemma insert_copy:
  assumes "holds_head buf i ex_tmp" and "length d \<le> MAX_DICT_FILE" and "i \<le> length buf"
  defines "ex1 \<equiv> put (i + length d) (drop i buf) (put i d ex_tmp)"
  shows "holds_head buf i ex1" "take (length buf + length d) ex1 = take i buf @ d @ drop i buf"
proof -
  have l: "length ex_tmp = length buf + MAX_DICT_FILE" and h: "take i ex_tmp = take i buf"
    using assms(1) by (simp_all add: holds_head_def)
  have "take (i + length d) (put i d ex_tmp) = take i buf @ d" using assms(2,3) l h by (simp add: put_def)
  then have e: "ex1 = take i buf @ d @ drop i buf @ drop (length buf + length d) (put i d ex_tmp)"
    using assms(3) by (simp add: ex1_def put_def [of "i + length d"] add.commute)
  have "length (put i d ex_tmp) = length buf + MAX_DICT_FILE" using assms(2,3) l by simp
  then show "holds_head buf i ex1" using assms(2,3) by (simp add: holds_head_def e)
  show "take (length buf + length d) ex1 = take i buf @ d @ drop i buf" using assms(3) by (simp add: e)
qed

definition insert_at :: "'a runner \<Rightarrow> bytes \<Rightarrow> nat \<Rightarrow> bytes \<Rightarrow> bytes \<times> 'a stage_st_scheme \<Rightarrow>
    (bool \<times> bytes \<times> 'a stage_st_scheme) res" where
  "insert_at run buf i d = (\<lambda>(ex_tmp, s).
     if length buf + length d > MAX_FILE then Inr (False, ex_tmp, drop_slots 1 s)
     else
       (let ex1 = put (i + length d) (drop i buf) (put i d ex_tmp) in
        bnd (run (take (length buf + length d) ex1) s) (\<lambda>(stop, s').
          if stop then Inr (True, ex1, s')
          else Inr (False, ex1, s'\<lparr>stage_cur := stage_cur s' + 1\<rparr>))))"

text \<open>One offset, for a list of tokens.\<close>

definition insert_place :: "'a runner \<Rightarrow> bytes \<Rightarrow> bytes list \<Rightarrow> nat \<Rightarrow> bytes \<times> 'a stage_st_scheme \<Rightarrow> (bool \<times> bytes \<times> 'a stage_st_scheme) res" where
  "insert_place run buf ds i = (\<lambda>(ex_tmp, s).
     cont (for_each ds (insert_at run buf i) (ex_tmp, set_byte i s)) (\<lambda>(ex', s').
       Inr (False, ex'[i := if i < length buf then buf ! i else ALLOC_MAGIC_C2], s')))"

lemma for_each_one: "for_each [m] body w = body m w"
  by (cases "body m w") auto

text \<open>A loop whose invariant moves with the counter.\<close>

lemma walks_count_up:
  assumes "\<And>i. i < m \<Longrightarrow> walks run (I i) (I (Suc i)) (c i) n (body i)"
  shows "walks run (I 0) (I m) (concat (map c [0..<m])) (n * m) (for_each [0..<m] body)"
  using assms
proof (induction m)
  case 0
  then show ?case by (intro walksI) (simp add: walked_def)
next
  case (Suc m)
  have "walks run (I 0) (I (Suc m)) (concat (map c [0..<m]) @ c m) (n * m + n) (\<lambda>w. cont (for_each [0..<m] body w) (body m))"
    by (rule walks_cont [OF Suc.IH]) (use Suc.prems in auto)
  moreover have "cont (for_each [0..<m] body w) (body m) = for_each [0..<Suc m] body w" for w
    unfolding for_each_append cont_def upt_Suc_append [OF le0] by (simp only: for_each_one)
  ultimately show ?case by (simp add: add.commute)
qed

context executor
begin

lemma walks_insert_at:
  assumes "length d \<le> MAX_DICT_FILE" and "i \<le> length buf"
  shows "walks run (holds_head buf i) (holds_head buf i) (inserted buf i d) 1 (insert_at run buf i d)"
proof (cases "length buf + length d > MAX_FILE")
  case True
  then show ?thesis using walks_drop by (simp add: insert_at_def inserted_def)
next
  case False
  let ?ex = "\<lambda>ex_tmp. put (i + length d) (drop i buf) (put i d ex_tmp)"
  have "walks run (holds_head buf i) (holds_head buf i) [take i buf @ d @ drop i buf] 1
    (\<lambda>(ex_tmp, s). bnd (run (take i buf @ d @ drop i buf) s) (\<lambda>(stop, s').
      if stop then Inr (True, ?ex ex_tmp, s') else Inr (False, ?ex ex_tmp, s'\<lparr>stage_cur := stage_cur s' + 1\<rparr>)))"
    by (rule walks_run) (rule insert_copy(1) [OF _ assms])
  then show ?thesis
    using False insert_copy(2) [OF _ assms] by (auto simp: Let_def insert_at_def inserted_def elim!: walks_same)
qed

lemma walks_insert_place:
  assumes "\<forall>d \<in> set ds. length d \<le> MAX_DICT_FILE" and "i < Suc (length buf)"
  shows "walks run (holds_head buf (min i (length buf))) (holds_head buf (min (Suc i) (length buf)))
    (concat (map (inserted buf i) ds)) (length ds) (insert_place run buf ds i)"
proof -
  have i: "i \<le> length buf" "min i (length buf) = i" using assms(2) by simp_all
  let ?upd = "\<lambda>ex. ex[i := if i < length buf then buf ! i else ALLOC_MAGIC_C2]"
  have "holds_head buf (min (Suc i) (length buf)) (?upd ex)" if "holds_head buf i ex" for ex
  proof (cases "i < length buf")
    case True
    then show ?thesis using that by (simp add: holds_head_def take_Suc_conv_app_nth)
  next
    case False
    then show ?thesis using that i by (simp add: holds_head_def)
  qed
  then have upd: "walks run (holds_head buf i) (holds_head buf (min (Suc i) (length buf))) [] 0
      (\<lambda>(ex, s). Inr (False, ?upd ex, s))"
    by (intro walksI) (simp add: walked_def)
  have "walks run (holds_head buf i) (holds_head buf i) (concat (map (inserted buf i) ds)) (sum_list (map (\<lambda>_. 1) ds))
      (for_each ds (insert_at run buf i))"
    by (rule walks_for_each) (use walks_insert_at i assms(1) in blast)
  from walks_cont [OF walks_byte [OF this, of i] upd] show ?thesis
    unfolding i(2) by (auto simp: insert_place_def sum_units elim!: walks_same)
qed

lemma walks_insertions:
  assumes "\<forall>d \<in> set ds. length d \<le> MAX_DICT_FILE"
  shows "walks run (holds_head buf 0) (holds_head buf (length buf)) (insertions buf ds) (length ds * Suc (length buf))
    (for_each [0..<Suc (length buf)] (insert_place run buf ds))"
proof -
  have "insertions buf ds = concat (map (\<lambda>i. concat (map (inserted buf i) ds)) [0..<Suc (length buf)])"
    by (simp add: insertions_def)
  then show ?thesis
    using walks_count_up [where m = "Suc (length buf)" and I = "\<lambda>i. holds_head buf (min i (length buf))"
        and c = "\<lambda>i. concat (map (inserted buf i) ds)" and n = "length ds" and body = "insert_place run buf ds" and run = run]
      walks_insert_place [OF assms] by (simp del: upt_Suc)
qed

lemma insert_at_rooted: "insert_at run buf i d (x, s) = Inr (stop, y, t) \<Longrightarrow> rooted s t"
  by (auto simp: insert_at_def drop_slots_def Let_def bnd_Inr_iff steady_def dest: run_keeps(1) split: if_splits)

lemma insert_place_rooted:
  assumes "insert_place run buf ds i (x, s) = Inr (stop, y, t)"
  shows "rooted s t"
proof -
  obtain st z u where r: "for_each ds (insert_at run buf i) (x, set_byte i s) = Inr (st, z, u)"
    and t: "t = u" using assms by (auto simp: insert_place_def cont_def bnd_Inr_iff split: if_splits)
  have "rooted s (snd (z, u))"
  proof (rule for_each_invariant [OF r, where I = "\<lambda>w. rooted s (snd w)"], goal_cases)
    case (2 d w stop w')
    then show ?case by (cases w; cases w') (auto intro: rooted_trans [OF _ insert_at_rooted])
  qed (simp add: set_byte_def)
  then show ?thesis by (simp add: t)
qed

lemma insert_body_tokens:
  assumes "rooted s0 s" and "ds = map x_data (extras s0)" and "n = length ds"
  shows "insert_body run buf n i (x, s) = insert_place run buf ds i (x, s)"
proof -
  have "for_each [0..<n] (insert_try run buf i) (x, set_byte i s) =
      for_each (map ((!) ds) [0..<n]) (insert_at run buf i) (x, set_byte i s)"
  proof (rule for_each_reindex [where P = "rooted s0"])
    show "rooted s0 (set_byte i s)" using assms(1) by (simp add: set_byte_def)
    show "insert_try run buf i j (x, u) = insert_at run buf i (ds ! j) (x, u)"
      if "j \<in> set [0..<n]" "rooted s0 u" for j x u
      using that assms(2,3) by (simp add: insert_try_def insert_at_def rooted_def Let_def)
  qed (auto intro: rooted_trans [OF _ insert_at_rooted])
  then show ?thesis using assms(3) by (simp add: insert_body_def insert_place_def map_nth)
qed

lemma insert_loop_tokens:
  assumes "rooted s0 s" and "ds = map x_data (extras s0)" and "n = length ds"
  shows "for_each is (insert_body run buf n) (x, s) = for_each is (insert_place run buf ds) (x, s)"
proof -
  have "for_each is (insert_body run buf n) (x, s) = for_each (map (\<lambda>i. i) is) (insert_place run buf ds) (x, s)"
  proof (rule for_each_reindex [where P = "rooted s0"])
    show "insert_body run buf n j (x, u) = insert_place run buf ds j (x, u)" if "rooted s0 u" for j x u
      using insert_body_tokens that assms(2,3) by blast
  qed (use assms(1) in \<open>auto intro: rooted_trans [OF _ insert_place_rooted]\<close>)
  then show ?thesis by simp
qed

end

text \<open>
  The outcome of inserting. It differs from \<open>stage_outcome\<close> in the final \<open>stage_max\<close>: the loop
  tries \<open>len + 1\<close> offsets, but \<open>stage_max\<close> starts at \<open>extras_cnt * len\<close>.
\<close>

definition insert_outcome :: "'a runner \<Rightarrow> bytes \<Rightarrow> bytes list \<Rightarrow> 'a stage_st_scheme \<Rightarrow>
    (bool \<times> bytes \<times> 'a stage_st_scheme) res \<Rightarrow> bool" where
  "insert_outcome run buf ds s r \<longleftrightarrow> (case r of
     Inl e \<Rightarrow> run_fails run (insertions buf ds) e
   | Inr (stop, out, t) \<Rightarrow> rooted s t \<and> out = buf \<and>
       (if stop then \<exists>m. 0 < m \<and> m \<le> length (insertions buf ds) \<and> tried t = tried s @ take m (insertions buf ds)
        else tried t = tried s @ insertions buf ds \<and>
          stage_cur t = of_nat (length (insertions buf ds)) \<and> stage_max t = stage_cur t - of_nat (length ds)))"

context executor
begin

lemma extras_insert_outcome:
  assumes "\<forall>x \<in> set (extras s). length (x_data x) \<le> MAX_DICT_FILE"
  shows "insert_outcome run buf (map x_data (extras s)) s (extras_insert run (buf, s))"
proof -
  let ?ds = "map x_data (extras s)" and ?n = "length (extras s)"
  let ?s = "s\<lparr>stage_short := ''ext_UI'', stage_cur := 0, stage_max := of_nat (?n * length buf)\<rparr>"
  let ?ex = "replicate (length buf + MAX_DICT_FILE) 0 :: bytes"
  have head: "holds_head buf 0 ?ex" by (simp add: holds_head_def)
  have r: "rooted s ?s" by simp
  have loop: "for_each [0..<Suc (length buf)] (insert_body run buf ?n) (?ex, ?s) =
      for_each [0..<Suc (length buf)] (insert_place run buf ?ds) (?ex, ?s)"
    using insert_loop_tokens [of s ?s ?ds ?n "[0..<Suc (length buf)]" buf ?ex, OF r refl] by (simp del: upt_Suc)
  have ds: "\<forall>d \<in> set ?ds. length d \<le> MAX_DICT_FILE" using assms by simp
  show ?thesis
  proof (rule walksE [OF walks_insertions [OF ds] head, of ?s])
    fix e assume "for_each [0..<Suc (length buf)] (insert_place run buf ?ds) (?ex, ?s) = Inl e"
      "run_fails run (insertions buf ?ds) e"
    then show ?thesis
      using loop by (simp add: extras_insert_def insert_outcome_def staged_def cont_def Let_def del: upt_Suc)
  next
    fix stop y t assume c: "for_each [0..<Suc (length buf)] (insert_place run buf ?ds) (?ex, ?s) = Inr (stop, y, t)"
      and w: "walked ?s (holds_head buf (length buf)) (insertions buf ?ds) (length ?ds * Suc (length buf)) (stop, y, t)"
    have "rooted s t" using w rooted_trans [OF r] by (simp add: walked_def steady_def)
    then show ?thesis
      using loop c w by (cases stop)
        (simp_all add: extras_insert_def insert_outcome_def staged_def cont_def Let_def walked_def algebra_simps del: upt_Suc)
  qed
qed

end

end
