(* ===== verification/StageClaims.thy ===== *)
theory StageClaims
  imports FlipWalks DictWalks Demo
begin

unbundle bit_operations_syntax

section \<open>The deterministic stages: properties\<close>

text \<open>
  What each deterministic stage of \<open>fuzz_one\<close> runs when it calls \<open>common_fuzz_stuff\<close>, whatever the
  environment does: the claims instantiate the walks with the interpretation \<open>fuzz_run\<close>.
\<close>

text \<open>
  C3: The three walking-bit stages, from a non-empty buffer of less than 2^28 bytes, run the buffer
  with 1, 2 and 4 consecutive bits flipped, at every bit position where they fit, in order, and hand
  the buffer back unchanged; \<open>stage_cur\<close> and \<open>stage_max\<close> end at the number of runs. The single bit
  may add automatic tokens, of which there are never more than 500, of 3 to 32 bytes.
\<close>

theorem walking_bits:
  assumes "buf \<noteq> []" and "8 * length buf < 2 ^ 31"
  shows "flip1_outcome (common_fuzz_stuff E) buf s (bitflip1 E q (common_fuzz_stuff E) (buf, s)) \<and>
    stage_outcome (common_fuzz_stuff E) STAGE_FLIP2 (bitflip_cands 2 buf) ((=) buf) s
      (bitflip2 (common_fuzz_stuff E) (buf, s)) \<and>
    stage_outcome (common_fuzz_stuff E) STAGE_FLIP4 (bitflip_cands 4 buf) ((=) buf) s
      (bitflip4 (common_fuzz_stuff E) (buf, s))"
  using fuzz_run.bitflip1_outcome [OF assms(2)] fuzz_run.bitflip_outcomes [OF assms] by blast

theorem walking_bits_witness:
  "stage_outcome (common_fuzz_stuff demo_env) STAGE_FLIP4
     [[0xF0], [0x78], [0x3C], [0x1E], [0x0F]] ((=) [0]) demo_main (bitflip4 (common_fuzz_stuff demo_env) ([0], demo_main))"
proof -
  have "bitflip_cands 4 [0] = [[0xF0], [0x78], [0x3C], [0x1E], [0x0F]]"
    by (simp add: bitflip_cands_def flip_bits_def FLIP_BIT_def upt_rec)
  then show ?thesis using walking_bits [of "[0]" demo_env demo_main 0] by simp
qed

text \<open>
  C4: The walking-byte stage runs the buffer with every byte inverted in turn, restores it, and
  builds the effector map: its first and last block are always set, below \<open>EFF_MIN_LEN\<close> bytes all
  of it is, and otherwise either at most \<open>EFF_MAX_PERC\<close> percent of it or all of it; the counters of
  the blocks grow by the size of the map and the number of its set blocks.
\<close>

theorem walking_byte:
  assumes "buf \<noteq> []" and "length buf < 2 ^ 31"
  shows "eff_outcome (common_fuzz_stuff E) buf s (byteflip1 q (common_fuzz_stuff E) (buf, s))"
  by (rule fuzz_run.byteflip1_outcome [OF assms])

theorem walking_byte_witness:
  "eff_outcome (common_fuzz_stuff demo_env) [1, 2] demo_main (byteflip1 0 (common_fuzz_stuff demo_env) ([1, 2], demo_main)) \<and>
   byteflip_cands [1, 2] = [[0xFE, 2], [1, 0xFD]]"
  using walking_byte [of "[1, 2]" demo_env demo_main 0] by (simp add: byteflip_cands_def upt_rec)

text \<open>
  C5: The walking 16-bit and 32-bit flips run, in order, the buffer with each span of 2 or 4 bytes
  that touches an effector block inverted, and nothing else.
\<close>

theorem walking_words:
  "stage_outcome (common_fuzz_stuff E) STAGE_FLIP16 (wordflip_cands 2 eff buf) ((=) buf) s
     (byteflip2 (common_fuzz_stuff E) eff (buf, s)) \<and>
   stage_outcome (common_fuzz_stuff E) STAGE_FLIP32 (wordflip_cands 4 eff buf) ((=) buf) s
     (byteflip4 (common_fuzz_stuff E) eff (buf, s))"
  using fuzz_run.wordflip_outcomes by blast

text \<open>
  C6: The arithmetic stages run, in order, exactly the listed changes of the bytes, words and
  double words at effector offsets: 1 to 35 up and down in both byte orders, those that only change
  the low half and those a bit flip makes left out; they restore the buffer and end with
  \<open>stage_max\<close> lowered to the number of runs.
\<close>

theorem arith_stages:
  "stage_outcome (common_fuzz_stuff E) STAGE_ARITH8 (arith8_cands eff buf) ((=) buf) s
     (arith8 (common_fuzz_stuff E) eff (buf, s)) \<and>
   stage_outcome (common_fuzz_stuff E) STAGE_ARITH16 (arith16_cands eff buf) ((=) buf) s
     (arith16 (common_fuzz_stuff E) eff (buf, s)) \<and>
   stage_outcome (common_fuzz_stuff E) STAGE_ARITH32 (arith32_cands eff buf) ((=) buf) s
     (arith32 (common_fuzz_stuff E) eff (buf, s))"
  using fuzz_run.arith_outcomes by blast

text \<open>
  C7: The stages of the interesting values run, in order, the buffer with each interesting value
  written at each effector offset (16 and 32 bits in both byte orders), those left out that a bit
  flip, the arithmetic or a narrower interesting value makes; they restore the buffer and end with
  \<open>stage_max\<close> lowered to the number of runs.
\<close>

theorem interesting_stages:
  "stage_outcome (common_fuzz_stuff E) STAGE_INTEREST8 (interest8_cands eff buf) ((=) buf) s
     (interest8 (common_fuzz_stuff E) eff (buf, s)) \<and>
   stage_outcome (common_fuzz_stuff E) STAGE_INTEREST16 (interest16_cands eff buf) ((=) buf) s
     (interest16 (common_fuzz_stuff E) eff (buf, s)) \<and>
   stage_outcome (common_fuzz_stuff E) STAGE_INTEREST32 (interest32_cands eff buf) ((=) buf) s
     (interest32 (common_fuzz_stuff E) eff (buf, s))"
  using fuzz_run.interest_outcomes by blast

text \<open>
  C8: With at most \<open>MAX_DET_EXTRAS\<close> user tokens sorted by length, the stages that overwrite with the
  user's and with the automatic tokens run, at each offset, the buffer with each token that fits, is
  not there already and touches an effector block, and restore what they clobbered.
\<close>

theorem overwriting_stages:
  assumes "length (extras s) \<le> MAX_DET_EXTRAS" and "sorted (map (length \<circ> x_data) (extras s))"
    and "auto_dict (a_extras s)"
  shows "stage_outcome (common_fuzz_stuff E) STAGE_EXTRAS_UO (overwrites eff buf (map x_data (extras s))) ((=) buf) s
      (extras_over E (common_fuzz_stuff E) eff buf (buf, s)) \<and>
    stage_outcome (common_fuzz_stuff E) STAGE_EXTRAS_AO
      (overwrites eff buf (map x_data (take USE_AUTO_EXTRAS (a_extras s)))) ((=) buf) s
      (auto_extras_over (common_fuzz_stuff E) eff buf (buf, s))"
  using fuzz_run.extras_over_outcome [OF assms(1,2)] fuzz_run.auto_extras_over_outcome [of s] assms(3)
  by (simp add: auto_dict_def)

theorem overwriting_stages_witness:
  "stage_outcome (common_fuzz_stuff demo_env) STAGE_EXTRAS_UO [[9, 2, 3], [7, 8, 3], [1, 9, 3], [1, 7, 8], [1, 2, 9]]
     ((=) [1, 2, 3]) (demo_main\<lparr>extras := [\<lparr>x_data = [9], hit_cnt = 0\<rparr>, \<lparr>x_data = [7, 8], hit_cnt = 0\<rparr>]\<rparr>)
     (extras_over demo_env (common_fuzz_stuff demo_env) [True] [1, 2, 3]
       ([1, 2, 3], demo_main\<lparr>extras := [\<lparr>x_data = [9], hit_cnt = 0\<rparr>, \<lparr>x_data = [7, 8], hit_cnt = 0\<rparr>]\<rparr>))"
proof -
  let ?s = "demo_main\<lparr>extras := [\<lparr>x_data = [9], hit_cnt = 0\<rparr>, \<lparr>x_data = [7, 8], hit_cnt = 0\<rparr>]\<rparr>"
  have "overwrites [True] [1, 2, 3] [[9], [7, 8]] = [[9, 2, 3], [7, 8, 3], [1, 9, 3], [1, 7, 8], [1, 2, 9]]"
    by (simp add: overwrites_def upt_rec slice_def put_def eff_span_def EFF_APOS_def EFF_SPAN_ALEN_def)
  moreover have "auto_dict (a_extras ?s)" by (simp add: demo_main_def auto_dict_def)
  ultimately show ?thesis
    using overwriting_stages [of ?s demo_env "[True]" "[1, 2, 3]"] by (simp add: MAX_DET_EXTRAS_def)
qed

text \<open>
  C9: The stage that inserts the user's tokens, each of at most \<open>MAX_DICT_FILE\<close> bytes, runs the
  buffer with every token inserted at every offset, the end included, as long as the result is
  within \<open>MAX_FILE\<close>. It runs one offset more than the \<open>stage_max\<close> it announces: it ends with
  \<open>stage_max\<close> below \<open>stage_cur\<close> by the number of tokens.
\<close>

theorem inserting_stage:
  assumes "\<forall>x \<in> set (extras s). length (x_data x) \<le> MAX_DICT_FILE"
  shows "insert_outcome (common_fuzz_stuff E) buf (map x_data (extras s)) s (extras_insert (common_fuzz_stuff E) (buf, s))"
  by (rule fuzz_run.extras_insert_outcome [OF assms])

theorem inserting_stage_witness:
  "insert_outcome (common_fuzz_stuff demo_env) [1] [[9]] (demo_main\<lparr>extras := [\<lparr>x_data = [9], hit_cnt = 0\<rparr>]\<rparr>)
     (extras_insert (common_fuzz_stuff demo_env) ([1], demo_main\<lparr>extras := [\<lparr>x_data = [9], hit_cnt = 0\<rparr>]\<rparr>)) \<and>
   insertions [1] [[9]] = [[9, 1], [1, 9]]"
proof -
  let ?s = "demo_main\<lparr>extras := [\<lparr>x_data = [9], hit_cnt = 0\<rparr>]\<rparr>"
  have "insertions [1] [[9]] = [[9, 1], [1, 9]]"
    by (simp add: insertions_def inserted_def upt_rec MAX_FILE_def)
  moreover have "\<forall>x \<in> set (extras ?s). length (x_data x) \<le> MAX_DICT_FILE" by (simp add: MAX_DICT_FILE_def)
  ultimately show ?thesis using inserting_stage [of ?s demo_env "[1]"] by simp
qed

subsection \<open>Nothing is lost by skipping\<close>

lemma nth_div8: "(8 * i + m) div 8 = i" "(8 * i + m) mod 8 = m" if "m < 8" for i m :: nat
  using that by simp_all

lemma flip_bits_at:
  assumes "i < length buf" and "m + n \<le> 8"
  shows "flip_bits (8 * i + m) n buf = buf[i := hd (flip_bits m n [buf ! i])]"
  using assms(2)
proof (induction n)
  case 0
  then show ?case by (simp add: flip_bits_def)
next
  case (Suc n)
  have f: "flip_bits a (Suc n) b = FLIP_BIT (flip_bits a n b) (a + n)" for a b by (simp add: flip_bits_def)
  obtain c where c: "flip_bits m n [buf ! i] = [c]"
    using length_flip_bits [of m n "[buf ! i]"] by (metis length_0_conv length_Suc_conv)
  have "m + n < 8" using Suc.prems by simp
  then show ?case
    using Suc assms(1) nth_div8 [of "m + n" i] c by (simp add: f FLIP_BIT_def add.assoc)
qed

text \<open>
  C37: The arithmetic stage loses nothing by leaving out candidates: a byte of an effector block changed by
  1 to 35 up or down is run by \<open>arith8\<close>, unless it is what some walking flip of 1, 2, 4 or 8 bits runs.
\<close>

theorem arith8_complete:
  assumes "i < length buf" and "eff ! EFF_APOS i" and "1 \<le> j" and "j \<le> ARITH_MAX"
    and "v = buf ! i + of_nat j \<or> v = buf ! i - of_nat j"
  shows "buf[i := v] \<in> set (arith8_cands eff buf) \<or>
    (\<exists>m n. n \<in> {1, 2, 4, 8} \<and> m + n \<le> 8 * length buf \<and> buf[i := v] = flip_bits m n buf)"
proof (cases "could_be_bitflip (ucast (buf ! i XOR v))")
  case True
  have "v \<noteq> buf ! i"
  proof -
    have "(of_nat j :: u8) \<noteq> 0" using assms(3,4) by (simp add: word_unat_eq_iff unat_of_nat ARITH_MAX_def)
    then show ?thesis using assms(5) by auto
  qed
  then have "buf ! i XOR v \<noteq> 0" by (metis xor.assoc xor_self_eq xor.right_neutral xor.left_neutral)
  then obtain m n where mn: "n \<in> {1, 2, 4, 8}" "m + n \<le> 8" "flip_bits m n [buf ! i] = [buf ! i XOR (buf ! i XOR v)]"
    using could_be_bitflip_byte [OF True] by blast
  have "buf ! i XOR (buf ! i XOR v) = v" by (metis xor.assoc xor_self_eq xor.left_neutral)
  then have "flip_bits (8 * i + m) n buf = buf[i := v]" using flip_bits_at [OF assms(1) mn(2)] mn(3) by simp
  moreover have "8 * i + m + n \<le> 8 * length buf" using assms(1) mn(2) by linarith
  ultimately show ?thesis using mn(1) by metis
next
  case False
  have "buf[i := v] = put i [v] buf" using assms(1) by (simp add: put_def upd_conv_take_nth_drop)
  then have "buf[i := v] \<in> set (arith8_tries buf i j)"
    using False assms(5) by (auto simp: arith8_tries_def tries_def Let_def)
  moreover have "j \<in> set [1..<Suc ARITH_MAX]" using assms(3,4) by (simp del: upt_Suc)
  ultimately have "buf[i := v] \<in> set (concat (map (arith8_tries buf i) [1..<Suc ARITH_MAX]))" by (auto simp del: upt_Suc)
  moreover have "i \<in> set [0..<length buf]" using assms(1) by simp
  ultimately have "buf[i := v] \<in> set (arith8_cands eff buf)"
    using assms(2) unfolding arith8_cands_def set_concat set_map image_image by (intro UN_I [of i]) (simp_all del: upt_Suc)
  then show ?thesis ..
qed

theorem arith8_complete_witness:
  "[7, 3] \<in> set (arith8_cands [True] [7, 6]) \<or>
   (\<exists>m n. n \<in> {1, 2, 4, 8} \<and> m + n \<le> 8 * length [7, 6 :: u8] \<and> [7, 3] = flip_bits m n [7, 6])"
proof -
  have "[7, 6 :: u8][1 := 3] = [7, 3]" by simp
  moreover have "(3 :: u8) = [7, 6] ! 1 - of_nat 3" by simp
  moreover have "1 < length [7, 6 :: u8]" "[True] ! EFF_APOS 1" "(1 :: nat) \<le> 3" "3 \<le> ARITH_MAX"
    by (simp_all add: EFF_APOS_def ARITH_MAX_def)
  ultimately show ?thesis using arith8_complete [of 1 "[7, 6]" "[True]" 3 3] by metis
qed

end
