(* ===== verification/Trimming.thy ===== *)
theory Trimming
  imports Frames Trim Demo "HOL-Library.Sublist"
begin

unbundle bit_operations_syntax

section \<open>What trimming keeps\<close>

text \<open>
  Running the target and refreshing the screen leave the entries alone and never loop;
  \<open>trim_case\<close> always ends, keeps a subsequence of the input that begins with the same four bytes,
  and, when the trace depends on the input only, the trace checksum of the entry.
\<close>

subsection \<open>Computations that end\<close>

definition ends :: "'a res \<Rightarrow> bool" where
  "ends m \<longleftrightarrow> m \<noteq> Inl Diverges"

lemma ends_simps [simp]: "ends (Inr x)" "ends (Inl e) \<longleftrightarrow> e \<noteq> Diverges"
  by (simp_all add: ends_def)

lemma ends_bnd: "ends m \<Longrightarrow> (\<And>x. m = Inr x \<Longrightarrow> ends (f x)) \<Longrightarrow> ends (bnd m f)"
  by (cases m) simp_all

text \<open>The computation ends, and its value, if it has one, is as stated.\<close>

definition safe :: "('a \<Rightarrow> bool) \<Rightarrow> 'a res \<Rightarrow> bool" where
  "safe P m \<longleftrightarrow> ends m \<and> post P m"

lemma safe_Inr [simp]: "safe P (Inr x) \<longleftrightarrow> P x"
  by (simp add: safe_def)

lemma safe_bnd: "safe Q m \<Longrightarrow> (\<And>x. Q x \<Longrightarrow> safe P (f x)) \<Longrightarrow> safe P (bnd m f)"
  unfolding safe_def using post_bnd ends_bnd by (metis postD)

lemma safeI: "ends m \<Longrightarrow> (\<And>x. m = Inr x \<Longrightarrow> P x) \<Longrightarrow> safe P m"
  by (simp add: safe_def postI)

lemma ends_if [simp]: "ends (if b then m else n) \<longleftrightarrow> (if b then ends m else ends n)"
  by simp

lemma ends_fold_res: "(\<And>i s. ends (f i s)) \<Longrightarrow> ends (fold_res f is s)"
  by (induction "is" arbitrary: s) (auto intro: ends_bnd)

lemma create_ends [simp]: "ends (create_excl E fn d s)" "ends (create_trunc E fn d s)"
  by (simp_all add: create_excl_def create_trunc_def)

lemma write_to_testcase_ends [simp]: "ends (write_to_testcase E mem s)"
  by (simp add: write_to_testcase_def split: option.splits)

lemma run_target_ends [simp]: "ends (run_target E tm s)"
  by (simp add: run_target_def Let_def split: fsrv_io.splits)

lemma every_ends [simp]: "ends (every n s)"
  by (simp add: every_def)

lemma show_stats_ends [simp]: "ends (show_stats E s)"
  unfolding show_stats_def stats_save_def save_auto_def save_auto_one_def write_bitmap_def
  by (auto simp: Let_def split: prod.splits intro!: ends_bnd ends_fold_res)

subsection \<open>What a run leaves\<close>

lemma write_to_testcase_eq: "write_to_testcase E mem s = Inr t \<Longrightarrow> t = s\<lparr>testcase := mem\<rparr>"
  by (auto simp: write_to_testcase_def split: option.splits if_splits)

lemma run_report_entries: "run_report st tb s = (f, t) \<Longrightarrow> entries t = entries s \<and> trace_bits t = trace_bits s \<and> stop_soon t = stop_soon s"
  by (auto simp: run_report_def Let_def split: if_splits)

definition classified :: "bytes \<Rightarrow> bytes" where
  "classified tr = classify_counts_with (init_count_class16 (\<lambda>_. 0)) tr"

lemma run_finish_entries:
  "run_finish r s = (f, t) \<Longrightarrow> entries t = entries s \<and> trace_bits t = classified (trace_bits s) \<and> stop_soon t = stop_soon s"
  unfolding run_finish_def Let_def by (drule run_report_entries) (simp add: classified_def)

lemma run_target_run:
  assumes "run_target E tm s = Inr (f, t)"
  shows "entries t = entries s"
    and "\<not> stop_soon t \<Longrightarrow> \<exists>k p. trace_bits t = classified (r_trace (target E k (testcase s) tm p))"
  using assms unfolding run_target_def Let_def run_begin_def
  by (auto split: if_splits fsrv_io.splits dest!: run_finish_entries
      intro!: exI [of _ "runs s"] exI [of _ "prev_timed_out s"])

lemma fold_res_entries:
  assumes "fold_res f is s = Inr t" and "\<And>i s t. f i s = Inr t \<Longrightarrow> entries t = entries s"
  shows "entries t = entries s"
  by (rule fold_res_invariant [OF assms(1), where I = "\<lambda>u. entries u = entries s"]) (use assms(2) in auto)

lemma create_entries: "create_excl E fn d s = Inr t \<Longrightarrow> entries t = entries s"
  "create_trunc E fn d s = Inr t \<Longrightarrow> entries t = entries s"
  by (auto simp: create_excl_def create_trunc_def split: if_splits)

lemma save_auto_entries:
  assumes "save_auto E s = Inr t" shows "entries t = entries s"
proof (cases "auto_changed s")
  case True
  with assms have f: "fold_res (save_auto_one E) [0..<min USE_AUTO_EXTRAS (length (a_extras s))]
      (s\<lparr>auto_changed := False\<rparr>) = Inr t" by (simp add: save_auto_def)
  have "entries t = entries (s\<lparr>auto_changed := False\<rparr>)"
    by (rule fold_res_entries [OF f]) (simp add: save_auto_one_def create_entries)
  then show ?thesis by simp
qed (use assms in \<open>simp add: save_auto_def\<close>)

lemma write_bitmap_entries: "write_bitmap E s = Inr t \<Longrightarrow> entries t = entries s"
  by (cases "bitmap_changed s") (simp_all add: write_bitmap_def create_entries)

lemma stats_save_entries: "stats_save E now s = Inr t \<Longrightarrow> entries t = entries s"
  by (cases "now - last_stats_ms s > 60 * 1000")
    (auto simp: stats_save_def bnd_Inr_iff dest!: save_auto_entries write_bitmap_entries)

lemma show_stats_entries:
  assumes "show_stats E s = Inr t" shows "entries t = entries s"
proof -
  obtain now s1 where g: "get_cur_time E s = (now, s1)" by fastforce
  then have s1: "entries s1 = entries s" by (auto simp: get_cur_time_def)
  show ?thesis
  proof (cases "now - last_ms s1 < 1000 div 5")
    case True
    then show ?thesis using assms s1 by (simp add: show_stats_def g)
  next
    case False
    define s2 where "s2 = (if now - start_time s1 > 10 * 60 * 1000 then s1\<lparr>run_over10m := True\<rparr> else s1)"
    have "entries s2 = entries s" using s1 by (simp add: s2_def)
    moreover obtain u where "stats_save E now (s2\<lparr>last_ms := now, stats_update_freq := (if exec_freq E (ticks s2) = 0 then 1 else exec_freq E (ticks s2))\<rparr>) = Inr u"
      "t = stats_stop E u"
      using assms False unfolding show_stats_def g Let_def s2_def by (auto simp: bnd_Inr_iff)
    ultimately show ?thesis using stats_save_entries by (fastforce simp: stats_stop_def)
  qed
qed

subsection \<open>The cut\<close>

definition cut :: "nat \<Rightarrow> nat \<Rightarrow> bytes \<Rightarrow> bytes" where
  "cut pos avail xs = take pos xs @ drop (pos + avail) xs"

lemma subseq_cut: "subseq (cut pos avail xs) xs"
proof -
  have "drop pos xs = take avail (drop pos xs) @ drop (pos + avail) xs"
    by (metis add.commute append_take_drop_id drop_drop)
  then have "xs = take pos xs @ take avail (drop pos xs) @ drop (pos + avail) xs"
    by (metis append_take_drop_id)
  then show ?thesis unfolding cut_def by (metis subseq_append' subseq_drop_many subseq_order.refl)
qed

lemma cut_gap:
  assumes "pos + avail \<le> n" and "n \<le> length b"
  shows "take pos b @ slice (pos + avail) (n - pos - avail) b = cut pos avail (take n b)"
    and "take (n - avail) (move_down pos avail (n - pos - avail) b) = cut pos avail (take n b)"
    and "length (move_down pos avail (n - pos - avail) b) = length b"
    and "m \<le> pos \<Longrightarrow> take m (move_down pos avail (n - pos - avail) b) = take m b"
proof -
  show c: "take pos b @ slice (pos + avail) (n - pos - avail) b = cut pos avail (take n b)"
    using assms by (simp add: cut_def slice_def drop_take)
  have l: "length (slice (pos + avail) (n - pos - avail) b) = n - pos - avail" using assms by simp
  then show "length (move_down pos avail (n - pos - avail) b) = length b"
    using assms by (simp add: move_down_def)
  have "take (n - avail) (move_down pos avail (n - pos - avail) b) = take pos b @ slice (pos + avail) (n - pos - avail) b"
    using assms l by (simp add: move_down_def put_def)
  then show "take (n - avail) (move_down pos avail (n - pos - avail) b) = cut pos avail (take n b)" using c by simp
  show "m \<le> pos \<Longrightarrow> take m (move_down pos avail (n - pos - avail) b) = take m b"
    using assms by (simp add: move_down_def put_def)
qed

lemma next_p2_ends: "unat v \<le> 2 ^ 31 \<Longrightarrow> next_p2 v \<noteq> None"
  using next_p2_loop_eq [of 0 v] by (auto simp: next_p2_def)

subsection \<open>The invariant\<close>

text \<open>The trace of the target depends on nothing but the input; \<open>ck\<close> is its checksum.\<close>

definition traces_by_input :: "env \<Rightarrow> (bytes \<Rightarrow> u32) \<Rightarrow> bool" where
  "traces_by_input E ck \<longleftrightarrow> (\<forall>k d tm p.
     (let tr = classified (r_trace (target E k d tm p)) in hash32 tr (of_nat (length tr)) HASH_CONST = ck d))"

text \<open>Trimming changes the length of its entry, and of no other.\<close>

definition resized :: "nat \<Rightarrow> 'a stage_st_scheme \<Rightarrow> 'a stage_st_scheme \<Rightarrow> bool" where
  "resized q s t \<longleftrightarrow> cal_view t = cal_view s \<and> links t = links s \<and> sizes t = (sizes s)[q := q_len (ent t q)]"

lemma sizes_ent: "sizes t = sizes s \<Longrightarrow> q < length (entries s) \<Longrightarrow> q_len (ent t q) = q_len (ent s q)"
proof -
  assume a: "sizes t = sizes s" "q < length (entries s)"
  then have "length (entries t) = length (entries s)" unfolding sizes_def by (rule_tac map_eq_imp_length_eq)
  then have "q_len (ent t q) = sizes t ! q" "q_len (ent s q) = sizes s ! q" using a(2) by (simp_all add: sizes_def ent_def)
  then show ?thesis using a(1) by simp
qed

lemma sizes_same: "(sizes s)[q := q_len (ent s q)] = sizes s"
proof (cases "q < length (entries s)")
  case True
  then have "sizes s ! q = q_len (ent s q)" by (simp add: sizes_def ent_def)
  then show ?thesis by (metis list_update_id)
next
  case False
  then have "length (sizes s) \<le> q" by (simp add: sizes_def)
  then show ?thesis by (rule list_update_beyond)
qed

lemma resized_refl [simp]: "resized q s s"
  by (simp add: resized_def sizes_same)

lemma resized_same_cal:
  assumes "resized q s t" and "same_cal t u" and "q < length (entries t)"
  shows "resized q s u"
proof -
  have "sizes u = sizes t" using assms(2) by (simp add: same_cal_def)
  then have "q_len (ent u q) = q_len (ent t q)" using assms(3) by (rule sizes_ent)
  then show ?thesis using assms(1,2) by (simp add: resized_def same_cal_def)
qed

lemma resized_upd: "resized q s t \<Longrightarrow> resized q s (upd q (\<lambda>e. e\<lparr>q_len := f e\<rparr>) t)"
proof -
  assume r: "resized q s t"
  let ?u = "upd q (\<lambda>e. e\<lparr>q_len := f e\<rparr>) t"
  have "sizes ?u = (sizes t)[q := q_len (ent ?u q)]"
  proof (cases "q < length (entries t)")
    case True
    then show ?thesis by (simp add: sizes_def upd_def ent_def map_update)
  next
    case False
    then have "length (entries t) \<le> q" by simp
    then have "?u = t" by (simp add: upd_def list_update_beyond)
    then show ?thesis by (simp only: sizes_same)
  qed
  then show ?thesis using r by (simp add: resized_def)
qed

definition trim_inv :: "env \<Rightarrow> nat \<Rightarrow> bytes \<Rightarrow> 'a stage_st_scheme \<Rightarrow> trim_loc \<Rightarrow> 'a stage_st_scheme \<Rightarrow> bool" where
  "trim_inv E q buf s0 l s \<longleftrightarrow>
     resized q s0 s \<and> fname (ent s q) = fname (ent s0 q) \<and> exec_cksum (ent s q) = exec_cksum (ent s0 q) \<and>
     length (entries s) = length (entries s0) \<and>
     (let n = unat (q_len (ent s q)) in
        4 \<le> n \<and> n \<le> length buf \<and> length (t_buf l) = length buf \<and> take 4 (t_buf l) = take 4 buf \<and>
        subseq (take n (t_buf l)) buf \<and> (needs_write l \<or> t_buf l = buf \<and> n = length buf) \<and>
        (\<forall>ck. traces_by_input E ck \<and> ck buf = exec_cksum (ent s0 q) \<longrightarrow>
           ck (take n (t_buf l)) = exec_cksum (ent s0 q)))"

lemma trim_inv_frame:
  assumes "trim_inv E q buf s0 l s" and "entries t = entries s" and "cal_view t = cal_view s" and "links t = links s"
    and "t_buf l' = t_buf l" and "needs_write l' = needs_write l"
  shows "trim_inv E q buf s0 l' t"
  using assms by (simp add: trim_inv_def resized_def sizes_def ent_def)

lemma trim_accept_inv:
  assumes inv: "trim_inv E q buf s0 l s" and q: "q < length (entries s)" and len: "length buf \<le> 2 ^ 31"
    and pos: "4 \<le> unat pos" and avail: "unat pos + unat avail \<le> unat (q_len (ent s q))"
    and ck: "\<And>ck. traces_by_input E ck \<Longrightarrow>
       ck (cut (unat pos) (unat avail) (take (unat (q_len (ent s q))) (t_buf l))) = exec_cksum (ent s q)"
  shows "\<exists>l' t. trim_accept q pos avail l s = Inr (l', t) \<and> trim_inv E q buf s0 l' t \<and> stop_soon t = stop_soon s \<and>
    trim_fault l' = trim_fault l \<and> unat (q_len (ent t q)) = unat (q_len (ent s q)) - unat avail"
proof -
  let ?n = "unat (q_len (ent s q))"
  let ?s1 = "upd q (\<lambda>e. e\<lparr>q_len := q_len e - avail\<rparr>) s"
  have e: "ent ?s1 q = (ent s q)\<lparr>q_len := q_len (ent s q) - avail\<rparr>" using q by (simp add: ent_def upd_def)
  have le: "avail \<le> q_len (ent s q)" "pos \<le> q_len (ent s q)" using avail by (simp_all add: word_le_nat_alt)
  have n': "unat (q_len (ent ?s1 q)) = ?n - unat avail" using le by (simp add: e unat_sub)
  have tail: "unat (q_len (ent s q) - pos - avail) = ?n - unat pos - unat avail"
  proof -
    have "unat (q_len (ent s q) - pos) = ?n - unat pos" using le by (simp add: unat_sub)
    then show ?thesis using avail by (subst unat_sub) (simp_all add: word_le_nat_alt)
  qed
  have n: "?n \<le> length buf" "length (t_buf l) = length buf" using inv by (simp_all add: trim_inv_def Let_def)
  obtain p where p: "next_p2 (q_len (ent ?s1 q)) = Some p"
    using next_p2_ends [of "q_len (ent ?s1 q)"] n' n(1) len by fastforce
  let ?b = "move_down (unat pos) (unat avail) (?n - unat pos - unat avail) (t_buf l)"
  have b: "take (?n - unat avail) ?b = cut (unat pos) (unat avail) (take ?n (t_buf l))" "length ?b = length buf"
    "take 4 ?b = take 4 (t_buf l)"
    using cut_gap(2,3,4) [OF avail, of "t_buf l"] n pos by simp_all
  define l1 where "l1 = l\<lparr>len_p2 := p, t_buf := ?b\<rparr>"
  define l2 where "l2 = (if needs_write l1 then l1
    else l1\<lparr>needs_write := True, clean_trace := trace_bits ?s1, clean_hybrid := hybrid_bits ?s1\<rparr>)"
  have acc: "trim_accept q pos avail l s = Inr (l2, ?s1)"
    by (simp add: trim_accept_def Let_def p tail l2_def l1_def)
  have l2: "t_buf l2 = ?b" "needs_write l2" "trim_fault l2 = trim_fault l" by (simp_all add: l2_def l1_def)
  have sub: "subseq (cut (unat pos) (unat avail) (take ?n (t_buf l))) buf"
    by (rule subseq_order.trans [OF subseq_cut]) (use inv in \<open>simp add: trim_inv_def Let_def\<close>)
  note i = inv [unfolded trim_inv_def Let_def]
  have ex: "exec_cksum (ent s q) = exec_cksum (ent s0 q)" and fn: "fname (ent s q) = fname (ent s0 q)"
    and sc: "resized q s0 s" and ln: "length (entries s) = length (entries s0)" and t4: "take 4 (t_buf l) = take 4 buf"
    using i by simp_all
  have "\<forall>ck. traces_by_input E ck \<and> ck buf = exec_cksum (ent s0 q) \<longrightarrow>
      ck (take (?n - unat avail) ?b) = exec_cksum (ent s0 q)"
    unfolding b(1) using ck ex by simp
  moreover have "resized q s0 ?s1" using sc by (rule resized_upd)
  moreover have "subseq (take (?n - unat avail) ?b) buf" unfolding b(1) by (rule sub)
  moreover have "4 \<le> ?n - unat avail" "?n - unat avail \<le> length buf" using pos avail n by linarith+
  moreover have "fname (ent ?s1 q) = fname (ent s0 q)" "exec_cksum (ent ?s1 q) = exec_cksum (ent s0 q)"
    using e ex fn by simp_all
  moreover have "length (entries ?s1) = length (entries s0)" using ln by (simp add: upd_def)
  ultimately have "trim_inv E q buf s0 l2 ?s1"
    unfolding trim_inv_def Let_def n' l2(1) using b(2,3) t4 l2(2) by (simp only:) simp
  then show ?thesis using acc l2 n' by (intro exI [of _ l2] exI [of _ ?s1]) (simp add: upd_def)
qed

subsection \<open>One turn, the inner loop, the outer loop\<close>

definition trim_stopped :: "trim_loc \<Rightarrow> 'a stage_st_scheme \<Rightarrow> bool" where
  "trim_stopped l s \<longleftrightarrow> stop_soon s \<or> trim_fault l = FAULT_ERROR"

lemma trim_step_inv:
  assumes inv: "trim_inv E q buf s0 l s" and q: "q < length (entries s)" and len: "length buf \<le> 2 ^ 31"
    and pos: "4 \<le> unat pos" "pos < q_len (ent s q)" and rem: "4 \<le> unat remove_len" "unat remove_len \<le> 2 ^ 30"
  shows "safe (\<lambda>(ab, pos', l', t). trim_inv E q buf s0 l' t \<and>
      (if ab then trim_stopped l' t
       else 4 \<le> unat pos' \<and> unat (q_len (ent t q)) - unat pos' < unat (q_len (ent s q)) - unat pos))
     (trim_step E q remove_len pos l s)"
proof -
  let ?n = "unat (q_len (ent s q))"
  let ?avail = "min remove_len (q_len (ent s q) - pos)"
  have pn: "unat pos < ?n" using pos(2) by (simp add: word_less_nat_alt)
  have sub: "unat (q_len (ent s q) - pos) = ?n - unat pos" using pos(2) by (simp add: unat_sub)
  have av: "unat ?avail = min (unat remove_len) (?n - unat pos)"
    using sub by (auto simp: min_def word_le_nat_alt)
  have avail: "0 < unat ?avail" "unat pos + unat ?avail \<le> ?n" using av pn rem by auto
  have n: "?n \<le> length buf" "length (t_buf l) = length buf" using inv by (simp_all add: trim_inv_def Let_def)
  let ?c = "cut (unat pos) (unat ?avail) (take ?n (t_buf l))"
  have gap: "write_with_gap E (t_buf l) (q_len (ent s q)) pos ?avail s = write_to_testcase E ?c s"
  proof -
    have le: "?avail \<le> q_len (ent s q) - pos" by simp
    have "unat (q_len (ent s q) - pos - ?avail) = ?n - unat pos - unat ?avail"
      using sub unat_sub [OF le] by simp
    moreover have "unat (pos + ?avail) = unat pos + unat ?avail"
      using avail(2) unsigned_less [where 'a = nat, of "q_len (ent s q)"] by (subst unat_add_lem [THEN iffD1]) auto
    ultimately show ?thesis using cut_gap(1) [OF avail(2), of "t_buf l"] n by (simp add: write_with_gap_def Let_def)
  qed
  show ?thesis
    unfolding trim_step_def Let_def gap
  proof (rule safe_bnd [where Q = "\<lambda>t. t = s\<lparr>testcase := ?c\<rparr>"], goal_cases)
    case 1
    show ?case by (auto intro!: safeI dest: write_to_testcase_eq)
  next
    case (2 s1)
    let ?Q = "\<lambda>(f, t). entries t = entries s \<and> same s t \<and>
      (\<not> stop_soon t \<longrightarrow> (\<exists>k p. trace_bits t = classified (r_trace (target E k ?c (exec_tmout s1) p))))"
    show ?case
    proof (rule safe_bnd [where Q = ?Q], goal_cases)
      case 1
      have "same s s1" by (simp add: 2 same_def)
      then show ?case using 2 run_target_run [of E "exec_tmout s1" s1] run_target_same [of E "exec_tmout s1" s1] same_trans
        by (auto intro!: safeI)
    next
      case (2 x)
      obtain f s2 where x: "x = (f, s2)" by fastforce
      let ?s3 = "s2\<lparr>trim_execs := trim_execs s2 + 1\<rparr>" and ?l3 = "l\<lparr>trim_fault := f\<rparr>"
      have e3: "ent ?s3 q = ent s q" and q3: "q < length (entries ?s3)" using 2 x q by (simp_all add: ent_def)
      have sm: "stage_view s2 = stage_view s" "links s2 = links s" using 2 x by (simp_all add: same_def)
      have inv3: "trim_inv E q buf s0 ?l3 ?s3"
        by (rule trim_inv_frame [OF inv]) (use 2 x sm in \<open>simp_all add: stage_view_def\<close>)
      show ?case
      proof (cases "stop_soon s2 \<or> f = FAULT_ERROR")
        case True
        then show ?thesis using inv3 x by (simp add: trim_stopped_def)
      next
        case go: False
        have "safe (\<lambda>(pos', l', t). trim_inv E q buf s0 l' t \<and> 4 \<le> unat pos' \<and>
            unat (q_len (ent t q)) - unat pos' < ?n - unat pos)
          (if map_cksum ?s3 = exec_cksum (ent ?s3 q)
           then bnd (trim_accept q pos ?avail ?l3 ?s3) (\<lambda>(l', s'). Inr (pos, l', s'))
           else Inr (pos + remove_len, ?l3, ?s3))"
        proof (cases "map_cksum ?s3 = exec_cksum (ent ?s3 q)")
          case True
          have ck: "ck ?c = exec_cksum (ent s q)" if "traces_by_input E ck" for ck
          proof -
            obtain k p where t: "trace_bits s2 = classified (r_trace (target E k ?c (exec_tmout s1) p))"
              using 2 x go by auto
            have "map_cksum ?s3 = ck ?c"
              using that [unfolded traces_by_input_def Let_def] by (simp add: map_cksum_def t)
            then show ?thesis using True e3 by simp
          qed
          obtain l' t where "trim_accept q pos ?avail ?l3 ?s3 = Inr (l', t)" "trim_inv E q buf s0 l' t"
            "unat (q_len (ent t q)) = ?n - unat ?avail"
            using trim_accept_inv [OF inv3 q3 len pos(1), of ?avail] avail(2) ck by (auto simp: e3)
          then show ?thesis using True pos(1) avail by simp
        next
          case False
          have "unat (pos + remove_len) = unat pos + unat remove_len"
            using pn n(1) len rem(2) by (subst unat_add_lem [THEN iffD1]) simp_all
          then show ?thesis using False inv3 rem(1) pos(1) pn e3 by simp
        qed
        then have "safe (\<lambda>(ab, pos', l', t). trim_inv E q buf s0 l' t \<and> (if ab then trim_stopped l' t
              else 4 \<le> unat pos' \<and> unat (q_len (ent t q)) - unat pos' < ?n - unat pos))
          (bnd (if map_cksum ?s3 = exec_cksum (ent ?s3 q)
             then bnd (trim_accept q pos ?avail ?l3 ?s3) (\<lambda>(l', s'). Inr (pos, l', s'))
             else Inr (pos + remove_len, ?l3, ?s3)) (\<lambda>(pos, l, s).
           bnd (every (trim_exec l) s) (\<lambda>now.
           bnd (if now then show_stats E s else Inr s) (\<lambda>s.
           Inr (False, pos, l\<lparr>trim_exec := trim_exec l + 1\<rparr>, s\<lparr>stage_cur := stage_cur s + 1\<rparr>)))))"
        proof (rule safe_bnd, goal_cases)
          case (1 y)
          obtain pos' l' t where y: "y = (pos', l', t)" by (cases y)
          have fin: "trim_inv E q buf s0 (l'\<lparr>trim_exec := trim_exec l' + 1\<rparr>) (u\<lparr>stage_cur := stage_cur u + 1\<rparr>) \<and>
              unat (q_len (ent u q)) - unat pos' < ?n - unat pos"
            if "u = t \<or> show_stats E t = Inr u" for u
          proof -
            have "entries u = entries t" "same t u" using that show_stats_entries show_stats_same by auto
            then show ?thesis
              using 1 y trim_inv_frame [of E q buf s0 l' t "u\<lparr>stage_cur := stage_cur u + 1\<rparr>" "l'\<lparr>trim_exec := trim_exec l' + 1\<rparr>"]
              by (simp add: ent_def same_def stage_view_def)
          qed
          show ?case
            unfolding y prod.case
            by (rule safe_bnd [where Q = "\<lambda>_. True"], simp add: safe_def post_def,
                rule safe_bnd [where Q = "\<lambda>u. u = t \<or> show_stats E t = Inr u"])
              (use fin 1 y in \<open>auto intro!: safeI split: if_splits simp: ent_def\<close>)
        qed
        then show ?thesis using go x e3 by (simp add: e3 [unfolded ent_def] ent_def)
      qed
    qed
  qed
qed

definition trim_result :: "env \<Rightarrow> nat \<Rightarrow> bytes \<Rightarrow> 'a stage_st_scheme \<Rightarrow> bool \<times> trim_loc \<times> 'a stage_st_scheme \<Rightarrow> bool" where
  "trim_result E q buf s0 r \<longleftrightarrow> (case r of (ab, l, t) \<Rightarrow> trim_inv E q buf s0 l t \<and> (ab \<longrightarrow> trim_stopped l t))"

lemma trim_inner_inv:
  assumes "trim_inv E q buf s0 l s" and "q < length (entries s0)" and "length buf \<le> 2 ^ 31"
    and "4 \<le> unat pos" and "4 \<le> unat rl" and "unat rl \<le> 2 ^ 30" and "unat (q_len (ent s q)) - unat pos \<le> m"
  shows "safe (trim_result E q buf s0) (trim_inner E m q rl pos l s)"
  using assms
proof (induction m arbitrary: pos l s)
  case 0
  then have "\<not> pos < q_len (ent s q)" by (simp add: word_less_nat_alt)
  then show ?case using 0 by (subst trim_inner.simps) (simp add: trim_result_def)
next
  case (Suc m)
  show ?case
  proof (cases "pos < q_len (ent s q)")
    case True
    have q: "q < length (entries s)" using Suc.prems(1,2) by (simp add: trim_inv_def)
    have "safe (trim_result E q buf s0) (bnd (trim_step E q rl pos l s) (\<lambda>(abort, pos, l', s').
        if abort then Inr (True, l', s') else trim_inner E m q rl pos l' s'))"
    proof (rule safe_bnd [OF trim_step_inv [OF Suc.prems(1) q Suc.prems(3,4) True Suc.prems(5,6)]], goal_cases)
      case (1 x)
      obtain ab pos' l' t where x: "x = (ab, pos', l', t)" by (cases x)
      show ?case
      proof (cases ab)
        case True
        then show ?thesis using 1 x by (simp add: trim_result_def)
      next
        case False
        then have "safe (trim_result E q buf s0) (trim_inner E m q rl pos' l' t)"
          using 1 x Suc.prems by (intro Suc.IH) auto
        then show ?thesis using False x by simp
      qed
    qed
    then show ?thesis using True by (subst trim_inner.simps) simp
  next
    case False
    then show ?thesis using Suc.prems by (subst trim_inner.simps) (simp add: trim_result_def)
  qed
qed

lemma trim_outer_inv:
  assumes "trim_inv E q buf s0 l s" and "q < length (entries s0)" and "length buf \<le> 2 ^ 31"
    and "unat rl \<le> 2 ^ 30" and "unat rl < 4 * 2 ^ n"
  shows "safe (trim_result E q buf s0) (trim_outer E n q rl l s)"
  using assms
proof (induction n arbitrary: rl l s)
  case 0
  then have "\<not> TRIM_MIN_BYTES \<le> rl" by (simp add: TRIM_MIN_BYTES_def word_le_nat_alt)
  then have "\<not> max (len_p2 l div TRIM_END_STEPS) TRIM_MIN_BYTES \<le> rl" by simp
  then show ?case using 0 by (subst trim_outer.simps) (auto simp: trim_result_def)
next
  case (Suc n)
  show ?case
  proof (cases "max (len_p2 l div TRIM_END_STEPS) TRIM_MIN_BYTES \<le> rl")
    case True
    then have "TRIM_MIN_BYTES \<le> rl" by simp
    then have r4: "4 \<le> unat rl" by (simp add: TRIM_MIN_BYTES_def word_le_nat_alt)
    let ?s1 = "s\<lparr>stage_cur := 0, stage_max := q_len (ent s q) div rl\<rparr>"
    have inv1: "trim_inv E q buf s0 l ?s1" by (rule trim_inv_frame [OF Suc.prems(1)]) simp_all
    have half: "unat (drop_bit 1 rl) = unat rl div 2"
      using trans [OF unat_drop_bit_eq [of 1 rl] drop_bit_eq_div [of 1 "unat rl"]] by simp
    have "safe (trim_result E q buf s0) (bnd (trim_inner E (unat (q_len (ent ?s1 q))) q rl rl l ?s1) (\<lambda>(abort, l', s').
        if abort then Inr (True, l', s') else trim_outer E n q (drop_bit 1 rl) l' s'))"
    proof (rule safe_bnd [OF trim_inner_inv [OF inv1 Suc.prems(2,3) r4 r4 Suc.prems(4)]], goal_cases)
      case (2 x)
      obtain ab l' t where x: "x = (ab, l', t)" by (cases x)
      show ?case
      proof (cases ab)
        case False
        then have "safe (trim_result E q buf s0) (trim_outer E n q (drop_bit 1 rl) l' t)"
          using 2 x Suc.prems half by (intro Suc.IH) (auto simp: trim_result_def)
        then show ?thesis using False x by simp
      qed (use 2 x in simp)
    qed simp
    then show ?thesis using True by (subst trim_outer.simps) (simp add: Let_def)
  next
    case False
    then show ?thesis using Suc.prems by (subst trim_outer.simps) (auto simp: trim_result_def)
  qed
qed

subsection \<open>The whole routine\<close>

definition trim_outcome :: "env \<Rightarrow> nat \<Rightarrow> bytes \<Rightarrow> 'a stage_st_scheme \<Rightarrow> (fault \<times> bytes \<times> 'a stage_st_scheme) res \<Rightarrow> bool" where
  "trim_outcome E q buf s r \<longleftrightarrow> (case r of
     Inl e \<Rightarrow> e \<noteq> Diverges
   | Inr (f, buf', t) \<Rightarrow>
       (let n = unat (q_len (ent t q)) in
        resized q s t \<and> n \<le> length buf \<and> length buf' = length buf \<and> take 4 buf' = take 4 buf \<and>
        subseq (take n buf') buf \<and>
        (\<forall>ck. traces_by_input E ck \<and> ck buf = exec_cksum (ent s q) \<longrightarrow> ck (take n buf') = exec_cksum (ent s q)) \<and>
        (buf' = buf \<and> n = length buf \<or> fs t (fname (ent s q)) = Some (Regular (take n buf')) \<or>
         stop_soon t \<or> f = FAULT_ERROR)))"

lemma scored_entry:
  assumes "scored s t" and "q < length (entries s)"
  shows "q_len (ent t q) = q_len (ent s q)"
proof -
  have "q_len (unref (ent t q)) = q_len (unref (ent s q))" using scoredD(6) [OF assms] by simp
  then show ?thesis by (simp add: unref_def)
qed

lemma unlink_frame:
  assumes "unlink_file fn s = Some t"
  shows "entries t = entries s" "same s t" "fs t fn = None"
  using assms by (auto simp: unlink_file_def same_def split: if_splits)

text \<open>The file of the entry is replaced by what is left of the input.\<close>

lemma trim_write_file:
  assumes "needs_write l" and q: "q < length (entries s)"
  shows "safe (\<lambda>t. same s t \<and> q_len (ent t q) = q_len (ent s q) \<and>
    fs t (fname (ent s q)) = Some (Regular (take (unat (q_len (ent s q))) (t_buf l)))) (trim_write E q l s)"
proof -
  define s1 where "s1 = (case unlink_file (fname (ent s q)) s of None \<Rightarrow> s | Some s' \<Rightarrow> s')"
  have s1: "entries s1 = entries s" "same s s1" using unlink_frame by (auto simp: s1_def split: option.splits)
  have "safe (\<lambda>t. same s t \<and> q_len (ent t q) = q_len (ent s q) \<and>
      fs t (fname (ent s q)) = Some (Regular (take (unat (q_len (ent s q))) (t_buf l))))
    (bnd (create_excl E (fname (ent s q)) (take (unat (q_len (ent s1 q))) (t_buf l)) s1) (\<lambda>s2.
       Inr (update_bitmap_score q (s2\<lparr>trace_bits := clean_trace l, hybrid_bits := clean_hybrid l\<rparr>))))"
  proof (rule safe_bnd [where Q = "\<lambda>u. same s u \<and> entries u = entries s \<and>
      fs u (fname (ent s q)) = Some (Regular (take (unat (q_len (ent s q))) (t_buf l)))"], goal_cases)
    case 1
    show ?case
      using s1 same_trans [OF s1(2) create_excl_same]
      by (auto intro!: safeI dest: create_entries simp: ent_def) (auto simp: create_excl_def split: if_splits)
  next
    case (2 u)
    let ?u = "u\<lparr>trace_bits := clean_trace l, hybrid_bits := clean_hybrid l\<rparr>"
    have sc: "scored ?u (update_bitmap_score q ?u)" by (rule update_bitmap_score_scored)
    have "same s ?u" using 2 by (simp add: same_def)
    then have "same s (update_bitmap_score q ?u)" using scored_same [OF sc] same_trans by blast
    moreover have "q_len (ent (update_bitmap_score q ?u) q) = q_len (ent s q)"
      using scored_entry [OF sc, of q] 2 q by (simp add: ent_def)
    ultimately show ?case using scoredD(10) [OF sc] 2 by simp
  qed
  then show ?thesis using assms(1) by (simp add: trim_write_def Let_def s1_def)
qed

lemma trim_case_outcome:
  assumes q: "q < length (entries s)" and n: "length buf = unat (q_len (ent s q))" and len: "length buf \<le> 2 ^ 31"
  shows "trim_outcome E q buf s (trim_case E q buf s)"
proof (cases "q_len (ent s q) < 5")
  case True
  then show ?thesis using n by (simp add: trim_case_def trim_outcome_def Let_def)
next
  case False
  let ?s1 = "s\<lparr>bytes_trim_in := bytes_trim_in s + ucast (q_len (ent s q))\<rparr>"
  obtain p where p: "next_p2 (q_len (ent s q)) = Some p" "unat p \<le> 2 ^ 31"
  proof -
    obtain m where "m \<le> 31" "next_p2 (q_len (ent s q)) = Some (2 ^ m)"
      using next_p2_loop_eq [of 0 "q_len (ent s q)"] n len by (auto simp: next_p2_def)
    moreover from this have "unat (2 ^ m :: u32) = 2 ^ m" by (intro u32_power) simp
    moreover have "(2 :: nat) ^ m \<le> 2 ^ 31" using \<open>m \<le> 31\<close> by (rule power_increasing) simp
    ultimately show ?thesis using that by simp
  qed
  let ?rl = "max (p div TRIM_START_STEPS) TRIM_MIN_BYTES"
  let ?l = "\<lparr>t_buf = buf, needs_write = False, clean_trace = [], clean_hybrid = [],
    trim_exec = 0, len_p2 = p, trim_fault = FAULT_NONE\<rparr>"
  have five: "5 \<le> length buf" using False n by (simp add: word_less_nat_alt)
  have inv: "trim_inv E q buf s ?l ?s1"
    using five n resized_same_cal [of q s s ?s1] q by (simp add: trim_inv_def same_cal_def ent_def)
  have "unat (p div TRIM_START_STEPS) \<le> 2 ^ 27"
    using p(2) by (simp add: TRIM_START_STEPS_def unat_div)
  then have rl: "unat ?rl \<le> 2 ^ 27" by (simp add: max_def TRIM_MIN_BYTES_def)
  have out: "safe (trim_result E q buf s) (trim_outer E 32 q ?rl ?l ?s1)"
    by (rule trim_outer_inv [OF inv q len]) (use rl in simp_all)
  have fin: "trim_outcome E q buf s (Inr (trim_fault l, t_buf l,
      u\<lparr>bytes_trim_out := bytes_trim_out u + ucast (q_len (ent u q))\<rparr>))"
    if r: "trim_result E q buf s (ab, l, t)" and u: "if ab then u = t else trim_write E q l t = Inr u" for ab l t u
  proof -
    note i = r [unfolded trim_result_def prod.case, THEN conjunct1, unfolded trim_inv_def Let_def]
    let ?v = "u\<lparr>bytes_trim_out := bytes_trim_out u + ucast (q_len (ent u q))\<rparr>"
    have qt: "q < length (entries t)" and fn: "fname (ent t q) = fname (ent s q)" using i q by simp_all
    have written: "same t u \<and> q_len (ent u q) = q_len (ent t q) \<and>
        fs u (fname (ent s q)) = Some (Regular (take (unat (q_len (ent t q))) (t_buf l)))"
      if "\<not> ab" "needs_write l"
      using that u postD [OF trim_write_file [OF that(2) qt, unfolded safe_def, THEN conjunct2], of E u] fn by simp
    have kept: "u = t" if "ab \<or> \<not> needs_write l" using that u by (auto simp: trim_write_def split: if_splits)
    have same: "same t u \<and> q_len (ent u q) = q_len (ent t q)"
      "\<not> ab \<Longrightarrow> needs_write l \<Longrightarrow> fs u (fname (ent s q)) = Some (Regular (take (unat (q_len (ent u q))) (t_buf l)))"
      using written kept by (cases "ab \<or> \<not> needs_write l", simp_all)
    have "same_cal t ?v" using same(1) by (simp add: same_cal_def same_def stage_view_def)
    then have "resized q s ?v" using i resized_same_cal qt by blast
    moreover have "q_len (ent ?v q) = q_len (ent t q)" using same(1) by (simp add: ent_def)
    moreover have "ab \<Longrightarrow> stop_soon ?v \<or> trim_fault l = FAULT_ERROR"
      using r u by (simp add: trim_result_def trim_stopped_def)
    ultimately show ?thesis
      using i same(2) by (cases ab) (auto simp: trim_outcome_def Let_def same(1))
  qed
  show ?thesis
  proof (cases "trim_outer E 32 q ?rl ?l ?s1")
    case (Inl e)
    then show ?thesis using out False p by (simp add: trim_case_def trim_outcome_def safe_def Let_def ent_def)
  next
    case (Inr r)
    obtain ab l t where r: "r = (ab, l, t)" by (cases r)
    have res: "trim_result E q buf s (ab, l, t)" using out Inr r by (simp add: safe_def)
    have q': "q < length (entries t)" using res q by (simp add: trim_result_def trim_inv_def)
    have tc: "trim_case E q buf s = bnd (if ab then Inr t else trim_write E q l t) (\<lambda>s3.
        Inr (trim_fault l, t_buf l, s3\<lparr>bytes_trim_out := bytes_trim_out s3 + ucast (q_len (ent s3 q))\<rparr>))"
      using False p Inr r by (simp add: trim_case_def Let_def ent_def)
    show ?thesis
    proof (cases "if ab then Inr t else trim_write E q l t")
      case (Inl e)
      have "ends (if ab then Inr t else trim_write E q l t)"
        using trim_write_file [OF _ q'] by (auto simp: safe_def trim_write_def)
      then show ?thesis using Inl by (simp add: tc trim_outcome_def)
    next
      case (Inr u)
      then show ?thesis using fin [OF res, of u] by (simp add: tc split: if_splits)
    qed
  qed
qed

subsection \<open>Properties\<close>

text \<open>
  C11: \<open>trim_case\<close>, on an entry of at most 2^31 bytes read in full, never loops for ever. What it leaves is
  a subsequence of the input that begins with the same four bytes; the file of the entry holds it
  unless nothing was cut, the user stops or the target cannot be run; and when the trace of the
  target depends on its input only, the trace checksum of the trimmed input is still that of the
  entry. Stages and dictionaries, the links of the queue and the lengths of the other entries are not
  touched.
\<close>

theorem trim_case_trims:
  assumes "q < length (entries s)" and "length buf = unat (q_len (ent s q))" and "length buf \<le> 2 ^ 31"
  shows "trim_outcome E q buf s (trim_case E q buf s)"
  by (rule trim_case_outcome [OF assms])

theorem trim_case_trims_witness:
  "trim_outcome demo_env 0 [1, 2, 3, 4, 5, 6] (demo_main\<lparr>entries := [new_entry ''q/a'' 6 False 0]\<rparr>)
     (trim_case demo_env 0 [1, 2, 3, 4, 5, 6] (demo_main\<lparr>entries := [new_entry ''q/a'' 6 False 0]\<rparr>))"
  by (rule trim_case_trims) (simp_all add: ent_def new_entry_def)

end
