(* ===== verification/Running.thy ===== *)
theory Running
  imports Trimming
begin

unbundle bit_operations_syntax

section \<open>Running, calibrating, saving\<close>

text \<open>
  How a finished run is reported; \<open>calibrate_case\<close>, \<open>save_if_interesting\<close> and
  \<open>common_fuzz_stuff\<close> always end and leave the position in the stage alone.
\<close>

subsection \<open>Calibration ends\<close>

definition cal_position :: "'a stage_st_scheme \<Rightarrow> 'a stage_st_scheme \<Rightarrow> bool" where
  "cal_position s t \<longleftrightarrow> stage_cur t = stage_cur s \<and> (stage_max t = stage_max s \<or> stage_max t = CAL_CYCLES_LONG)"

lemma cal_position_refl [simp]: "cal_position s s"
  by (simp add: cal_position_def)

lemma cal_position_trans: "cal_position s t \<Longrightarrow> cal_position t u \<Longrightarrow> cal_position s u"
  by (auto simp: cal_position_def)

lemma same_position: "same s t \<Longrightarrow> cal_position s t"
  by (simp add: same_def stage_view_def cal_position_def)

lemma cal_mark_var_position: "cal_position s (cal_mark_var first s)"
proof -
  have "cal_position s (fold (\<lambda>i s. if differs (var_bytes s) first (trace_bits s) i then
                   s\<lparr>var_bytes := (var_bytes s)[i := 1], stage_max := CAL_CYCLES_LONG\<rparr>
                 else s) xs u)" if "cal_position s u" for xs u
    using that by (induction xs arbitrary: u) (auto simp: cal_position_def)
  then show ?thesis unfolding cal_mark_var_def by simp
qed

lemma cal_new_cksum_position:
  assumes "cal_new_cksum q ck l s = (l', t)" shows "cal_position s t"
proof -
  obtain hnb s1 where a: "has_new_bits_main s = (hnb, s1)" by fastforce
  obtain hnm s2 where b: "has_new_metric_main s1 = (hnm, s2)" by fastforce
  have s2: "cal_position s s2"
    using same_position [OF same_trans [OF has_new_same(1) [OF a] has_new_same(4) [OF b]]] .
  have "cal_position u (upd q f u)" for u :: "'a stage_st_scheme" and f by (simp add: cal_position_def upd_def)
  then show ?thesis
    using assms cal_position_trans [OF s2] cal_mark_var_position [where s = s2] unfolding cal_new_cksum_def Let_def
    by (auto simp: a b split: if_splits)
qed

lemma cal_cycle_safe:
  "safe (\<lambda>(ab, f, l', t). cal_position s t) (cal_cycle E q mem tm fr l s)"
  unfolding cal_cycle_def
proof (rule safe_bnd [where Q = "cal_position s"], goal_cases)
  case 1
  have st: "safe (cal_position s) (show_stats E s)"
    by (auto intro!: safeI same_position show_stats_same)
  have "safe (cal_position s) (bnd (every (stage_cur s) s) (\<lambda>now. if now then show_stats E s else Inr s))"
    by (rule safe_bnd [where Q = "\<lambda>_. True"]) (use st in \<open>auto intro: safeI\<close>)
  then show ?case by simp
next
  case (2 s1)
  show ?case
  proof (rule safe_bnd [where Q = "cal_position s"], goal_cases)
    case 1
    show ?case
      using cal_position_trans [OF 2 same_position [OF write_to_testcase_same]] by (auto intro!: safeI split: if_splits)
  next
    case (2 s2)
    show ?case
    proof (rule safe_bnd [where Q = "\<lambda>(f, t). cal_position s t"], goal_cases)
      case 1
      show ?case using cal_position_trans [OF 2 same_position [OF run_target_same]] by (auto intro!: safeI)
    next
      case (2 x)
      obtain f t where x: "x = (f, t)" by fastforce
      obtain l' u where n: "cal_new_cksum q (map_cksum t) l t = (l', u)" by fastforce
      show ?case using 2 cal_position_trans [OF _ cal_new_cksum_position [OF n]] by (auto simp: x n Let_def)
    qed
  qed
qed

lemma cal_loop_ends:
  assumes "stage_cur s = of_nat k" and "stage_max s = of_nat m" and "m \<le> 40" and "k \<le> 40" and "40 < n + k"
  shows "ends (cal_loop E q mem tm fr n f l s)"
  using assms
proof (induction n arbitrary: f l s k m)
  case (Suc n)
  have km: "sint (stage_cur s) = int k" "sint (stage_max s) = int m"
    using Suc.prems by (simp_all add: sint_small)
  show ?case
  proof (cases "sint (stage_cur s) < sint (stage_max s)")
    case True
    then have k: "k < m" by (simp add: km)
    have "safe (\<lambda>_. True) (bnd (cal_cycle E q mem tm fr l s) (\<lambda>(abort, fault', l', s').
        if abort then Inr (True, fault', l', s')
        else cal_loop E q mem tm fr n fault' l' (s'\<lparr>stage_cur := stage_cur s' + 1\<rparr>)))"
    proof (rule safe_bnd [OF cal_cycle_safe], goal_cases)
      case (1 x)
      obtain ab f' l' t where x: "x = (ab, f', l', t)" by (cases x)
      let ?t = "t\<lparr>stage_cur := stage_cur t + 1\<rparr>"
      have c: "stage_cur ?t = of_nat (Suc k)" using 1 x Suc.prems(1) by (simp add: cal_position_def)
      have "stage_max t = stage_max s \<or> stage_max t = CAL_CYCLES_LONG" using 1 x by (simp add: cal_position_def)
      then obtain m' where m': "stage_max ?t = of_nat m'" "m' \<le> 40"
      proof
        assume "stage_max t = stage_max s"
        then show thesis using that [of m] Suc.prems(2,3) by simp
      next
        assume "stage_max t = CAL_CYCLES_LONG"
        then show thesis using that [of 40] by (simp add: CAL_CYCLES_LONG_def)
      qed
      have "ends (cal_loop E q mem tm fr n f' l' ?t)"
        by (rule Suc.IH [OF c m'(1,2)]) (use k Suc.prems in linarith)+
      then show ?case by (simp add: x safe_def post_def)
    qed
    then show ?thesis using True by (simp add: safe_def)
  qed simp
qed simp

lemma mark_as_variable_ends [simp]: "ends (mark_as_variable E q s)"
  by (auto simp: mark_as_variable_def Let_def split: option.splits intro!: ends_bnd)

lemma cal_mark_ends [simp]: "ends (cal_mark E q l s)"
  by (auto simp: cal_mark_def Let_def intro!: ends_bnd)

lemma calibrate_case_ends [simp]: "ends (calibrate_case E q mem h fq s)"
proof -
  let ?s1 = "(upd q (\<lambda>e. e\<lparr>cal_failed := cal_failed e + 1\<rparr>) s)\<lparr>stage_max := (if fast_cal s then 3 else CAL_CYCLES)\<rparr>"
  obtain st s2 where g: "get_cur_time_us E ?s1 = (st, s2)" by fastforce
  have "stage_max s2 = (if fast_cal s then of_nat 3 else of_nat 8)"
    using g by (auto simp: get_cur_time_us_def CAL_CYCLES_def)
  then have "ends (cal_loop E q mem tm fr 41 f l (s2\<lparr>stage_cur := 0\<rparr>))" for tm fr f l
    by (intro cal_loop_ends [where k = 0 and m = "if fast_cal s then 3 else 8"]) simp_all
  then show ?thesis
    unfolding calibrate_case_def Let_def g prod.case by (auto intro!: ends_bnd split: prod.splits)
qed

subsection \<open>Saving ends\<close>

lemma describe_op_ends [simp]: "ends (describe_op a b c d s)"
  by (simp add: describe_op_def)

lemma add_to_queue_ends [simp]: "ends (add_to_queue E fn ln det s)"
  by (auto simp: add_to_queue_def Let_def split: option.splits prod.splits intro!: ends_bnd)

lemma queue_find_ends [simp]: "ends (queue_find E mem hnb s)"
  by (auto simp: queue_find_def Let_def split: option.splits prod.splits intro!: ends_bnd)

lemma keep_expected_ends [simp]: "ends (keep_expected E mem f s)"
  by (auto simp: keep_expected_def split: prod.splits intro!: ends_bnd)

lemma save_crash_ends [simp]: "ends (save_crash E mem k s)"
  by (auto simp: save_crash_def Let_def split: prod.splits intro!: ends_bnd)

lemma save_hang_ends [simp]: "ends (save_hang E mem k s)"
  by (auto simp: save_hang_def Let_def split: prod.splits intro!: ends_bnd)

lemma save_timeout_ends [simp]: "ends (save_timeout E mem k s)"
  by (auto simp: save_timeout_def Let_def split: prod.splits intro!: ends_bnd)

lemma save_if_interesting_ends [simp]: "ends (save_if_interesting E mem f s)"
  by (auto simp: save_if_interesting_def split: fault.splits intro!: ends_bnd)

lemma common_fuzz_stuff_ends [simp]: "ends (common_fuzz_stuff E buf s)"
  by (auto simp: common_fuzz_stuff_def fuzz_buffer_def Let_def split: option.splits intro!: ends_bnd)

subsection \<open>What saving keeps\<close>

lemma same_sizes: "same s t \<Longrightarrow> sizes t = sizes s"
  by (simp add: same_def)

lemma post_bnd_any: "(\<And>x. post P (f x)) \<Longrightarrow> post P (bnd m f)"
  by (cases m) simp_all

lemma raise_max_depth_sizes [simp]: "sizes (raise_max_depth q s) = sizes s"
  by (simp add: raise_max_depth_def)

lemma add_to_queue_sizes: "add_to_queue E fn ln det s = Inr t \<Longrightarrow> sizes t = sizes s @ [ln]"
proof -
  have e: "sizes (s\<lparr>entries := entries s @ [new_entry fn ln det d]\<rparr>) = sizes s @ [ln]" for d
    by (simp add: sizes_def new_entry_def)
  have l: "sizes (u\<lparr>q_prev100 := a\<rparr>) = sizes u" "sizes (u\<lparr>queue := a\<rparr>) = sizes u"
    "sizes (u\<lparr>queue_top := a\<rparr>) = sizes u" "sizes (u\<lparr>queued_paths := n\<rparr>) = sizes u" for u :: "'a queue_st_scheme" and a n
    by (simp_all add: sizes_def)
  assume "add_to_queue E fn ln det s = Inr t"
  then show ?thesis
    unfolding add_to_queue_def Let_def by (auto simp: bnd_Inr_iff get_cur_time_def e l split: option.splits if_splits)
qed

lemma queue_find_sizes: "post (\<lambda>t. sizes t = sizes s @ [of_nat (length mem)]) (queue_find E mem hnb s)"
proof -
  obtain a b c s1 where h: "hybrid_tests s = (a, b, c, s1)" by (metis prod_cases4)
  have s1: "sizes s1 = sizes s" by (rule same_sizes [OF hybrid_tests_same [OF h]])
  let ?n = "sizes s @ [of_nat (length mem)]"
  show ?thesis
    unfolding queue_find_def h prod.case Let_def
  proof (rule post_bnd [where Q = "\<lambda>_. True"], goal_cases)
    case (2 op)
    show ?case
    proof (rule post_bnd [where Q = "\<lambda>t. sizes t = ?n"], goal_cases)
      case 1
      show ?case using s1 by (auto intro!: postI dest!: add_to_queue_sizes)
    next
      case (2 s2)
      have u: "sizes (mark_top t x y z w s2) = ?n" for t x y z w
        using 2 same_sizes [OF mark_top_same [of s2]] by simp
      show ?case
      proof (cases "queue_top s2")
        case (Some t)
        show ?thesis
          unfolding Some option.case
        proof (rule post_bnd [where Q = "\<lambda>(f, v). sizes v = ?n"], goal_cases)
          case 1
          show ?case by (rule post_mono [OF calibrate_case_same]) (use u same_sizes in fastforce)
        next
          case (2 x)
          then show ?case by (cases x) (auto intro!: postI dest!: same_sizes [OF create_excl_same])
        qed
      qed simp
    qed
  qed (simp add: postI)
qed

lemma kept_flag:
  "post (\<lambda>(k', t). k' = k) (save_crash E mem k s)" "post (\<lambda>(k', t). k' = k) (save_hang E mem k s)"
  by (auto simp: save_crash_def save_hang_def Let_def split: prod.splits intro!: post_bnd_any)

lemma kept_flag_timeout: "post (\<lambda>(k', t). k' = k) (save_timeout E mem k s)"
  by (auto simp: save_timeout_def Let_def kept_flag split: prod.splits intro!: post_bnd_any)

definition finds_new :: "fault \<Rightarrow> 'a stage_st_scheme \<Rightarrow> bool" where
  "finds_new f s \<longleftrightarrow> f = crash_mode s \<and> fst (has_new_bits_main s) \<noteq> 0"

lemma keep_expected_kept:
  "post (\<lambda>(fin, k, t). k = finds_new f s \<and> sizes t = sizes s @ (if finds_new f s then [of_nat (length mem)] else []))
     (keep_expected E mem f s)"
proof (cases "f = crash_mode s")
  case True
  obtain hnb s1 where h: "has_new_bits_main s = (hnb, s1)" by fastforce
  have l: "sizes s1 = sizes s" by (rule same_sizes [OF has_new_same(1) [OF h]])
  show ?thesis
  proof (cases "hnb = 0")
    case True
    then show ?thesis using l h by (simp add: keep_expected_def finds_new_def)
  next
    case False
    have "post (\<lambda>(fin, k, t). k \<and> sizes t = sizes s @ [of_nat (length mem)])
        (bnd (queue_find E mem hnb s1) (\<lambda>s2. Inr (False, True, s2)))"
      by (rule post_bnd [OF queue_find_sizes]) (simp add: l)
    then show ?thesis using False \<open>f = crash_mode s\<close> h by (auto simp: keep_expected_def finds_new_def elim: post_mono)
  qed
qed (simp add: keep_expected_def finds_new_def)

lemma save_if_interesting_kept:
  "post (\<lambda>(k, t). k = finds_new f s \<and> sizes t = sizes s @ (if k then [of_nat (length mem)] else []))
     (save_if_interesting E mem f s)"
  unfolding save_if_interesting_def
proof (rule post_bnd [OF keep_expected_kept], goal_cases)
  case (1 x)
  obtain fin k t where x: "x = (fin, k, t)" by (cases x)
  have "post (\<lambda>(k', u). k' = k \<and> sizes u = sizes t) m"
    if "post (\<lambda>(k', u). k' = k) m" "post (\<lambda>(k', u). same t u) m" for m :: "(bool \<times> 'a stage_st_scheme) res"
    using that same_sizes by (fastforce simp: post_def)
  then have "post (\<lambda>(k', u). k' = k \<and> sizes u = sizes t) (save_crash E mem k t)"
    "post (\<lambda>(k', u). k' = k \<and> sizes u = sizes t) (save_timeout E mem k t)"
    using kept_flag(1) kept_flag_timeout save_crash_same save_timeout_same by blast+
  then show ?case using 1 x by (auto split: fault.splits elim!: post_mono)
qed

subsection \<open>How a run is reported\<close>

text \<open>The target ran to its end and the transfer worked.\<close>

definition completes :: "env \<Rightarrow> u32 \<Rightarrow> 'a count_st_scheme \<Rightarrow> run \<Rightarrow> bool" where
  "completes E tm s r \<longleftrightarrow> r = target E (runs s) (testcase s) tm (prev_timed_out s) \<and> r_io r = Io_ok \<and> 0 < sint (r_pid r) \<and>
     \<not> stop_soon s \<and> \<not> r_stop r"

definition signal_verdict :: "run \<Rightarrow> fault" where
  "signal_verdict r =
     (if WTERMSIG (r_status r) = 9 \<and> r_timed_out r then FAULT_TMOUT
      else if WTERMSIG (r_status r) = 12 then FAULT_CRASH else FAULT_NONE)"

lemma termsig_small: "unat (WTERMSIG st) < 128"
proof -
  have "(0x7f :: u32) = mask 7" by (simp add: mask_eq_exp_minus_1)
  then have "WTERMSIG st = take_bit 7 st" by (simp add: WTERMSIG_def take_bit_eq_mask)
  then have "unat (WTERMSIG st) = unat st mod 128" using unsigned_take_bit_eq [of 7 st, where 'a = nat] by (simp add: take_bit_eq_mod)
  then show ?thesis by simp
qed

lemma ucast_termsig: "k < 128 \<Longrightarrow> (ucast (WTERMSIG st) :: u8) = of_nat k \<longleftrightarrow> WTERMSIG st = of_nat k"
proof -
  assume k: "k < 128"
  have "unat (ucast (WTERMSIG st) :: u8) = unat (WTERMSIG st)"
    using termsig_small [of st] by (simp add: unsigned_ucast_eq take_bit_nat_eq_self)
  moreover have "unat (of_nat k :: u8) = k" "unat (of_nat k :: u32) = k" using k by (simp_all add: unat_of_nat)
  ultimately show ?thesis by (metis word_unat_eq_iff)
qed

subsection \<open>Properties\<close>

text \<open>
  C15: When the target runs to its end under the fork server, without ASan and with the user still
  there, \<open>run_target\<close> counts the run, leaves the classified trace and the hybrid counters of the
  run, and reports a termination by a signal: a time-out if the timer fired and the signal is
  SIGKILL, a crash only for SIGUSR2, and nothing for every other signal, SIGSEGV included.
\<close>

theorem run_target_signals:
  assumes "completes E tm s r" and "\<not> direct_exec s" and "\<not> uses_asan s" and "WIFSIGNALED (r_status r)"
  shows "\<exists>t. run_target E tm s = Inr (signal_verdict r, t) \<and> total_execs t = total_execs s + 1 \<and>
    trace_bits t = classified (r_trace r) \<and> hybrid_bits t = r_hybrid r \<and> runs t = Suc (runs s)"
proof -
  have d: "\<not> direct_exec (u :: 'a count_st_scheme)" if "dumb_mode u = dumb_mode s" "no_forkserver u = no_forkserver s" for u
    using assms(2) that by (simp add: direct_exec_def)
  have sig: "(ucast (WTERMSIG (r_status r)) :: u8) = SIGKILL \<longleftrightarrow> WTERMSIG (r_status r) = 9"
    "(ucast (WTERMSIG (r_status r)) :: u8) = SIGUSR2 \<longleftrightarrow> WTERMSIG (r_status r) = 12"
    using ucast_termsig [of 9 "r_status r"] ucast_termsig [of 12 "r_status r"] by (simp_all add: SIGKILL_def SIGUSR2_def)
  have r: "target E (runs s) (testcase s) tm (prev_timed_out s) = r" "r_io r = Io_ok" "0 < sint (r_pid r)"
    "\<not> stop_soon s" "\<not> r_stop r" using assms(1) by (auto simp: completes_def)
  show ?thesis
    using assms(2-4) r sig
    by (auto simp: run_target_def run_begin_def run_finish_def run_report_def Let_def signal_verdict_def classified_def d
        direct_exec_def)
qed

definition segv_env :: env where
  "segv_env = demo_env\<lparr>target := (\<lambda>k d tm p. quiet_run\<lparr>r_status := 11, r_trace := [1]\<rparr>)\<rparr>"

theorem run_target_signals_witness: "\<exists>t. run_target segv_env 1000 demo_main = Inr (FAULT_NONE, t) \<and> total_execs t = 1"
proof -
  let ?r = "quiet_run\<lparr>r_status := 11, r_trace := [1]\<rparr>"
  have "completes segv_env 1000 demo_main ?r" by (simp add: completes_def segv_env_def quiet_run_def demo_main_def demo_env_def)
  moreover have "\<not> direct_exec demo_main" "\<not> uses_asan demo_main" by (simp_all add: direct_exec_def demo_main_def)
  moreover have "WIFSIGNALED (r_status ?r)" by (simp add: WIFSIGNALED_def WTERMSIG_def)
  ultimately show ?thesis
    using run_target_signals [of segv_env 1000 demo_main ?r] by (auto simp: signal_verdict_def WTERMSIG_def demo_main_def)
qed

text \<open>
  C14: \<open>calibrate_case\<close> never loops for ever, whatever the target does: raising \<open>stage_max\<close> from 8 to 40
  on variable behaviour keeps the loop within 41 turns. It gives back \<open>stage_cur\<close>, \<open>stage_max\<close> and
  everything else of the stage, the dictionaries, the links of the queue and the lengths of its entries.
\<close>

theorem calibrate_case_ends_same: "safe (\<lambda>(f, t). same s t) (calibrate_case E q mem h fq s)"
  using calibrate_case_same [of s E q mem h fq] calibrate_case_ends by (simp add: safe_def)

text \<open>
  C12: \<open>common_fuzz_stuff\<close>, the call behind every stage, never loops for ever, records the buffer and
  otherwise leaves the stage and the dictionaries alone; the queue only grows, and stays a well-formed
  list while it has less than 2^32 entries.
\<close>

theorem common_fuzz_stuff_contract:
  "safe (\<lambda>(stop, t). grows (tried_one buf s) t) (common_fuzz_stuff E buf s)"
  using common_fuzz_stuff_grows [of buf s E] by (simp add: safe_def)

text \<open>
  C13: \<open>save_if_interesting\<close> never loops for ever; it keeps an input exactly when the fault is the
  expected one and the trace has new bits, and then the queue has one more entry, its last, of the
  length of the input; otherwise no entry is added, and no other entry changes its length.
\<close>

theorem save_if_interesting_keeps:
  "safe (\<lambda>(k, t). k = finds_new f s \<and> sizes t = sizes s @ (if k then [of_nat (length mem)] else []))
     (save_if_interesting E mem f s)"
  using save_if_interesting_kept by (simp add: safe_def)

end
