(* ===== verification/Tweaks.thy ===== *)
theory Tweaks
  imports Scores
begin

unbundle bit_operations_syntax

section \<open>The tweaks of the havoc stage\<close>

text \<open>
  Every tweak draws its offsets and lengths inside the buffer it is given: it returns, touches
  nothing of the state but the random generator, and what it does to the buffer has one of three
  shapes: a span overwritten in place, a block cut out, a block inserted.
\<close>

subsection \<open>Draws\<close>

text \<open>What the tweaks need of the state; a draw keeps it.\<close>

definition havoc_ok :: "'a stage_st_scheme \<Rightarrow> bool" where
  "havoc_ok s \<longleftrightarrow> queue_cycle s \<noteq> 0 \<and> length (extras s) < 2 ^ 32 \<and> length (a_extras s) < 2 ^ 32"

lemma rng_only_update:
  assumes "rng_only s t"
  shows "t = s\<lparr>rand_cnt := rand_cnt t, rng_seed := rng_seed t, rng_pos := rng_pos t, urandom_pos := urandom_pos t\<rparr>"
proof -
  have "no_rng s = no_rng t" using assms by (simp add: rng_only_def)
  then show ?thesis by (cases s; cases t) (simp add: no_rng_def)
qed

lemma rng_only_stage:
  fixes s t :: "'a stage_st_scheme"
  assumes "rng_only s t"
  shows "extras t = extras s" "a_extras t = a_extras s" "havoc_ok t = havoc_ok s" "run_over10m t = run_over10m s"
  using arg_cong [OF rng_only_update [OF assms], of extras] arg_cong [OF rng_only_update [OF assms], of a_extras]
    arg_cong [OF rng_only_update [OF assms], of queue_cycle] arg_cong [OF rng_only_update [OF assms], of run_over10m]
  by (simp_all add: havoc_ok_def)

lemma UR_nat_draws:
  assumes "0 < n" and "n < 2 ^ 32"
  obtains r t where "UR_nat E n s = Inr (r, t)" and "rng_only s t" and "r < n"
proof -
  have n: "unat (of_nat n :: u32) = n" using assms(2) by (simp add: unat_of_nat)
  then have "(of_nat n :: u32) \<noteq> 0" using assms(1) by (metis unat_0 less_irrefl)
  then obtain r t where "UR E (of_nat n) s = Inr (r, t)" "rng_only s t" "unat r < unat (of_nat n :: u32)" by (rule UR_draws)
  then show thesis using that n by (simp add: UR_nat_def)
qed

text \<open>Computations that only draw.\<close>

definition draws :: "('x \<Rightarrow> bool) \<Rightarrow> 's world_scheme \<Rightarrow> ('x \<times> 's world_scheme) res \<Rightarrow> bool" where
  "draws P s r \<longleftrightarrow> (\<exists>x t. r = Inr (x, t) \<and> rng_only s t \<and> P x)"

lemma draws_Inr [simp]: "draws P s (Inr (x, s)) \<longleftrightarrow> P x"
  by (auto simp: draws_def)

lemma draws_bnd:
  assumes "draws Q s m" and "\<And>x t. Q x \<Longrightarrow> rng_only s t \<Longrightarrow> draws P t (f x t)"
  shows "draws P s (bnd m (\<lambda>(x, t). f x t))"
proof -
  obtain x t where m: "m = Inr (x, t)" "rng_only s t" "Q x" using assms(1) by (auto simp: draws_def)
  obtain y u where "f x t = Inr (y, u)" "rng_only t u" "P y"
    using assms(2) [OF m(3,2)] by (auto simp: draws_def)
  then show ?thesis using m rng_only_trans by (auto simp: draws_def)
qed

lemma draws_mono: "draws Q s m \<Longrightarrow> (\<And>x. Q x \<Longrightarrow> P x) \<Longrightarrow> draws P s m"
  by (auto simp: draws_def)

lemma draws_UR: "limit \<noteq> 0 \<Longrightarrow> draws (\<lambda>r. unat r < unat limit) s (UR E limit s)"
  using UR_draws [of limit E s] by (metis draws_def)

lemma draws_UR_any: "limit \<noteq> 0 \<Longrightarrow> draws (\<lambda>_. True) s (UR E limit s)"
  by (rule draws_mono [OF draws_UR]) simp_all

lemma draws_UR_nat: "0 < n \<Longrightarrow> n < 2 ^ 32 \<Longrightarrow> draws (\<lambda>r. r < n) s (UR_nat E n s)"
  using UR_nat_draws [of n E s] by (metis draws_def)

lemma draws_block:
  fixes s :: "'a stage_st_scheme"
  assumes "0 < n" and "n < 2 ^ 32" and "queue_cycle s \<noteq> 0"
  shows "draws (\<lambda>k. 1 \<le> unat k \<and> unat k \<le> n \<and> unat k \<le> unat HAVOC_BLK_XL) s (choose_block_len E (of_nat n) s)"
proof -
  have n: "unat (of_nat n :: u32) = n" using assms(2) by (simp add: unat_of_nat)
  then have "(of_nat n :: u32) \<noteq> 0" using assms(1) by (metis unat_0 less_irrefl)
  then obtain k t where "choose_block_len E (of_nat n) s = Inr (k, t)" "rng_only s t"
    "1 \<le> unat k" "unat k \<le> unat (of_nat n :: u32)" "unat k \<le> unat HAVOC_BLK_XL"
    using assms(3) by (rule choose_block_len_bounds)
  then show ?thesis using n by (auto simp: draws_def)
qed

subsection \<open>The three shapes\<close>

definition overwritten :: "nat \<Rightarrow> bytes \<Rightarrow> bytes \<Rightarrow> bool" where
  "overwritten n out out' \<longleftrightarrow> (\<exists>i z. length z \<le> n \<and> i + length z \<le> length out \<and> out' = put i z out)"

definition shortened :: "bytes \<Rightarrow> bytes \<Rightarrow> bool" where
  "shortened out out' \<longleftrightarrow> out' = out \<or>
     (\<exists>i n. 0 < n \<and> n < length out \<and> i + n \<le> length out \<and> out' = take i out @ drop (i + n) out)"

definition lengthened :: "bytes \<Rightarrow> bytes \<Rightarrow> bool" where
  "lengthened out out' \<longleftrightarrow> out' = out \<or>
     (\<exists>i z. i \<le> length out \<and> length out + length z < MAX_FILE \<and> out' = take i out @ z @ drop i out)"

definition tweak_shape :: "nat \<Rightarrow> bytes \<Rightarrow> bytes \<Rightarrow> bool" where
  "tweak_shape k out out' \<longleftrightarrow>
     (if k \<le> 10 then overwritten 4 out out'
      else if k \<le> 12 then shortened out out'
      else if k = 13 \<or> k = 16 then lengthened out out'
      else overwritten (length out) out out')"

lemma overwrittenI: "length z \<le> n \<Longrightarrow> i + length z \<le> length out \<Longrightarrow> overwritten n out (put i z out)"
  unfolding overwritten_def by blast

lemma overwritten_same [simp]: "overwritten n out out"
  unfolding overwritten_def by (rule exI [of _ 0], rule exI [of _ "[]"]) (simp add: put_def)

lemma overwritten_length: "overwritten n out out' \<Longrightarrow> length out' = length out"
  by (auto simp: overwritten_def)

lemma overwritten_update: "p < length out \<Longrightarrow> 0 < n \<Longrightarrow> overwritten n out (out[p := v])"
proof -
  assume a: "p < length out" "0 < n"
  then have "out[p := v] = put p [v] out" by (simp add: put_def upd_conv_take_nth_drop)
  then show ?thesis using overwrittenI [of "[v]" n p out] a by simp
qed

lemma shaped_bounds:
  assumes "overwritten n out out' \<or> shortened out out' \<or> lengthened out out'"
    and "out \<noteq> []" and "length out \<le> MAX_FILE"
  shows "out' \<noteq> [] \<and> length out' \<le> MAX_FILE"
  using assms by (auto simp: shortened_def lengthened_def dest: overwritten_length)

subsection \<open>The tweaks, one by one\<close>

lemmas draw_any = draws_mono [OF draws_UR_any]

text \<open>The buffers the stage works on.\<close>

definition tweakable :: "bytes \<Rightarrow> bool" where
  "tweakable out \<longleftrightarrow> out \<noteq> [] \<and> length out \<le> MAX_FILE"

lemma tweakable_len: "tweakable out \<Longrightarrow> 0 < length out \<and> 8 * length out < 2 ^ 32 \<and> length out < 2 ^ 32"
  by (auto simp: tweakable_def MAX_FILE_def)

lemma draws_offset:
  assumes "tweakable out" and "n \<le> length out" and "0 < n"
  shows "draws (\<lambda>r. r < n) s (UR_nat E n s)"
  using tweakable_len [OF assms(1)] assms by (intro draws_UR_nat) auto

lemma interesting_lengths: "0 < length interesting_8 \<and> length interesting_8 < 2 ^ 32"
  "0 < length interesting_16 \<and> length interesting_16 < 2 ^ 32" "0 < length interesting_32 \<and> length interesting_32 < 2 ^ 32"
  by (simp_all add: interesting_8_def interesting_16_def interesting_32_def)

lemma tweak_flip_shape: "tweakable out \<Longrightarrow> draws (overwritten 4 out) s (tweak_flip E out s)"
  unfolding tweak_flip_def
  by (rule draws_bnd [OF draws_UR_nat]) (use tweakable_len in \<open>auto simp: FLIP_BIT_def intro!: overwritten_update\<close>)

lemma tweak_int8_shape:
  assumes "tweakable out"
  shows "draws (overwritten 4 out) s (tweak_int8 E out s)"
proof -
  have l: "0 < length out" using tweakable_len [OF assms] by simp
  note o = draws_offset [OF assms order_refl l]
  show ?thesis unfolding tweak_int8_def
    by (rule draws_bnd [OF o], rule draws_bnd [OF draws_UR_nat]) (use interesting_lengths in \<open>auto intro!: overwritten_update\<close>)
qed

lemma tweak_word_shape:
  assumes "tweakable out"
  shows "draws (overwritten 4 out) s (tweak_int16 E out s)" "draws (overwritten 4 out) s (tweak_int32 E out s)"
    "draws (overwritten 4 out) s (tweak_add16 sub E out s)" "draws (overwritten 4 out) s (tweak_add32 sub E out s)"
proof -
  have am: "(of_nat ARITH_MAX :: u32) \<noteq> 0" by (simp add: ARITH_MAX_def)
  note o2 = draws_offset [OF assms, of "length out - 1"] and o4 = draws_offset [OF assms, of "length out - 3"]
  show "draws (overwritten 4 out) s (tweak_int16 E out s)" unfolding tweak_int16_def Let_def
    by (cases "length out < 2", simp, simp only: if_False,
        rule draws_bnd [OF draws_UR_any], simp, rule draws_bnd [OF o2], simp, simp,
        rule draws_bnd [OF draws_UR_nat]) (use interesting_lengths in \<open>auto intro!: overwrittenI\<close>)
  show "draws (overwritten 4 out) s (tweak_int32 E out s)" unfolding tweak_int32_def Let_def
    by (cases "length out < 4", simp, simp only: if_False,
        rule draws_bnd [OF draws_UR_any], simp, rule draws_bnd [OF o4], simp, simp,
        rule draws_bnd [OF draws_UR_nat]) (use interesting_lengths in \<open>auto intro!: overwrittenI\<close>)
  show "draws (overwritten 4 out) s (tweak_add16 sub E out s)" unfolding tweak_add16_def Let_def
    by (cases "length out < 2", simp, simp only: if_False,
        rule draws_bnd [OF draws_UR_any], simp, rule draws_bnd [OF o2], simp, simp,
        rule draws_bnd [OF draws_UR_any [OF am]]) (auto intro!: overwrittenI)
  show "draws (overwritten 4 out) s (tweak_add32 sub E out s)" unfolding tweak_add32_def Let_def
    by (cases "length out < 4", simp, simp only: if_False,
        rule draws_bnd [OF draws_UR_any], simp, rule draws_bnd [OF o4], simp, simp,
        rule draws_bnd [OF draws_UR_any [OF am]]) (auto intro!: overwrittenI)
qed

lemma tweak_byte_shape:
  assumes "tweakable out"
  shows "draws (overwritten 4 out) s (tweak_add8 sub E out s)" "draws (overwritten 4 out) s (tweak_xor E out s)"
proof -
  have am: "(of_nat ARITH_MAX :: u32) \<noteq> 0" by (simp add: ARITH_MAX_def)
  have l: "0 < length out" using tweakable_len [OF assms] by simp
  note o = draws_offset [OF assms order_refl l]
  show "draws (overwritten 4 out) s (tweak_add8 sub E out s)" unfolding tweak_add8_def
    by (rule draws_bnd [OF o], rule draws_bnd [OF draws_UR_any [OF am]]) (auto intro!: overwritten_update)
  show "draws (overwritten 4 out) s (tweak_xor E out s)" unfolding tweak_xor_def
    by (rule draws_bnd [OF o], rule draws_bnd [OF draws_UR_any]) (auto intro!: overwritten_update)
qed

lemma tweak_delete_shape:
  fixes s :: "'a stage_st_scheme"
  assumes "tweakable out" and "havoc_ok s"
  shows "draws (shortened out) s (tweak_delete E out s)"
proof (cases "length out < 2")
  case False
  have l: "length out - 1 < 2 ^ 32" using tweakable_len [OF assms(1)] by linarith
  have q: "queue_cycle s \<noteq> 0" using assms(2) by (simp add: havoc_ok_def)
  have "draws (shortened out) s (bnd (choose_block_len E (of_nat (length out - 1)) s) (\<lambda>(n, s).
      bnd (UR_nat E (length out - unat n + 1) s) (\<lambda>(from, s). Inr (take from out @ drop (from + unat n) out, s))))"
  proof (rule draws_bnd [OF draws_block [OF _ l q]], goal_cases)
    case (2 n t)
    have "draws (\<lambda>r. r < length out - unat n + 1) t (UR_nat E (length out - unat n + 1) t)"
      using 2(1) False by (intro draws_offset [OF assms(1)]) auto
    then show ?case
    proof (rule draws_bnd, goal_cases)
      case (1 i u)
      then have "i + unat n \<le> length out" "0 < unat n" "unat n < length out" using 2(1) False by auto
      then show ?case by (simp add: shortened_def) blast
    qed
  qed (use False in simp)
  then show ?thesis using False by (simp add: tweak_delete_def Let_def)
qed (simp add: tweak_delete_def shortened_def)

lemma fill_byte_draws:
  assumes "tweakable out"
  shows "draws (\<lambda>_. True) s (fill_byte E out s)"
  unfolding fill_byte_def
proof (rule draws_bnd [OF draws_UR_any], goal_cases)
  case (2 b t)
  have l: "0 < length out" using tweakable_len [OF assms] by simp
  note o = draws_offset [OF assms order_refl l]
  have "draws (\<lambda>_. True) t (bnd (UR E 256 t) (\<lambda>(v, s). Inr (ucast v :: u8, s)))"
    by (rule draws_bnd [OF draws_UR_any]) simp_all
  moreover have "draws (\<lambda>_. True) t (bnd (UR_nat E (length out) t) (\<lambda>(p, s). Inr (out ! p, s)))"
    by (rule draws_bnd [OF o]) simp
  ultimately show ?case by simp
qed simp

lemma put_overwritten: "length z \<le> length out - i \<Longrightarrow> i \<le> length out \<Longrightarrow> overwritten (length out) out (put i z out)"
  by (rule overwrittenI) auto

lemma inserted_lengthened:
  "i \<le> length out \<Longrightarrow> length out + length z < MAX_FILE \<Longrightarrow> lengthened out (take i out @ z @ drop i out)"
  unfolding lengthened_def by blast

text \<open>Cloning a block of the buffer, or inserting a constant one.\<close>

definition clone_source :: "env \<Rightarrow> u32 \<Rightarrow> bytes \<Rightarrow> 'a stage_st_scheme \<Rightarrow> ((nat \<times> nat) \<times> 'a stage_st_scheme) res" where
  "clone_source E actually_clone out s =
     (if actually_clone \<noteq> 0 then
        bnd (choose_block_len E (of_nat (length out)) s) (\<lambda>(n, s).
        bnd (UR_nat E (length out - unat n + 1) s) (\<lambda>(from, s). Inr ((unat n, from), s)))
      else bnd (choose_block_len E HAVOC_BLK_XL s) (\<lambda>(n, s). Inr ((unat n, 0), s)))"

lemma clone_source_draws:
  fixes s :: "'a stage_st_scheme"
  assumes "tweakable out" and "havoc_ok s"
  shows "draws (\<lambda>(n, i). 1 \<le> n \<and> n \<le> unat HAVOC_BLK_XL) s (clone_source E c out s)"
proof -
  have l: "0 < length out" "length out < 2 ^ 32" using tweakable_len [OF assms(1)] by simp_all
  have q: "queue_cycle s \<noteq> 0" using assms(2) by (simp add: havoc_ok_def)
  have "draws (\<lambda>(n, i). 1 \<le> n \<and> n \<le> unat HAVOC_BLK_XL) s
      (bnd (choose_block_len E (of_nat (length out)) s) (\<lambda>(n, s).
        bnd (UR_nat E (length out - unat n + 1) s) (\<lambda>(from, s). Inr ((unat n, from), s))))"
  proof (rule draws_bnd [OF draws_block [OF l q]], goal_cases)
    case (1 n t)
    have "draws (\<lambda>r. r < length out - unat n + 1) t (UR_nat E (length out - unat n + 1) t)"
      using 1(1) by (intro draws_offset [OF assms(1)]) auto
    then show ?case by (rule draws_bnd) (use 1(1) in simp)
  qed
  moreover have "draws (\<lambda>(n, i). 1 \<le> n \<and> n \<le> unat HAVOC_BLK_XL) s
      (bnd (choose_block_len E HAVOC_BLK_XL s) (\<lambda>(n, s). Inr ((unat n, 0 :: nat), s)))"
  proof -
    have "draws (\<lambda>k. 1 \<le> unat k \<and> unat k \<le> 32768 \<and> unat k \<le> unat HAVOC_BLK_XL) s (choose_block_len E (of_nat 32768) s)"
      by (rule draws_block [OF _ _ q]) simp_all
    then show ?thesis unfolding HAVOC_BLK_XL_def of_nat_numeral by (rule draws_bnd) simp
  qed
  ultimately show ?thesis by (simp add: clone_source_def)
qed

lemma bnd_assoc: "bnd (bnd m f) g = bnd m (\<lambda>x. bnd (f x) g)"
  by (cases m) simp_all

lemma tweak_clone_eq:
  "length out + unat HAVOC_BLK_XL < MAX_FILE \<Longrightarrow> tweak_clone E out s = bnd (UR E 4 s) (\<lambda>(c, s).
      bnd (clone_source E c out s) (\<lambda>((clone_len, clone_from), s).
      bnd (UR_nat E (length out) s) (\<lambda>(clone_to, s).
      bnd (if c \<noteq> 0 then Inr (slice clone_from clone_len out, s)
           else bnd (fill_byte E out s) (\<lambda>(v, s). Inr (replicate clone_len v, s)))
        (\<lambda>(block, s). Inr (take clone_to out @ block @ drop clone_to out, s)))))"
  unfolding tweak_clone_def clone_source_def by (cases "UR E 4 s") (auto simp: bnd_assoc split_beta)

lemma tweak_clone_shape:
  fixes s :: "'a stage_st_scheme"
  assumes "tweakable out" and "havoc_ok s"
  shows "draws (lengthened out) s (tweak_clone E out s)"
proof (cases "length out + unat HAVOC_BLK_XL < MAX_FILE")
  case True
  have l: "0 < length out" using tweakable_len [OF assms(1)] by simp
  show ?thesis unfolding tweak_clone_eq [OF True]
  proof (rule draws_bnd [OF draws_UR_any], goal_cases)
    case (2 c t)
    have "havoc_ok t" using assms(2) rng_only_stage(3) [OF 2(2)] by simp
    then show ?case
    proof (rule draws_bnd [OF clone_source_draws [OF assms(1)]], goal_cases)
      case (1 x u)
      obtain n i where x: "x = (n, i)" by fastforce
      have n: "n \<le> unat HAVOC_BLK_XL" using 1 x by simp
      show ?case unfolding x prod.case
      proof (rule draws_bnd [OF draws_offset [OF assms(1) order_refl l]], goal_cases)
        case (1 j v)
        have b: "draws (\<lambda>z. length z \<le> n) v (if c \<noteq> 0 then Inr (slice i n out, v)
            else bnd (fill_byte E out v) (\<lambda>(w, s). Inr (replicate n w, s)))"
          using draws_bnd [OF fill_byte_draws [OF assms(1)], where P = "\<lambda>z. length z \<le> n" and s = v and
              f = "\<lambda>w s. Inr (replicate n w, s)"] by (simp add: slice_def)
        show ?case
          by (rule draws_bnd [OF b]) (use 1 n True in \<open>auto intro!: inserted_lengthened\<close>)
      qed
    qed
  qed simp
qed (simp add: tweak_clone_def lengthened_def)

lemma tweak_copy_shape:
  fixes s :: "'a stage_st_scheme"
  assumes "tweakable out" and "havoc_ok s"
  shows "draws (overwritten (length out) out) s (tweak_copy E out s)"
proof (cases "length out < 2")
  case False
  have l: "length out - 1 < 2 ^ 32" using tweakable_len [OF assms(1)] by linarith
  have q: "queue_cycle s \<noteq> 0" using assms(2) by (simp add: havoc_ok_def)
  have "draws (overwritten (length out) out) s (bnd (choose_block_len E (of_nat (length out - 1)) s) (\<lambda>(n, s).
      bnd (UR_nat E (length out - unat n + 1) s) (\<lambda>(i, s).
      bnd (UR_nat E (length out - unat n + 1) s) (\<lambda>(j, s).
      bnd (UR E 4 s) (\<lambda>(copy, s).
        if copy \<noteq> 0 then Inr (put j (slice i (unat n) out) out, s)
        else bnd (fill_byte E out s) (\<lambda>(v, s). Inr (put j (replicate (unat n) v) out, s)))))))"
  proof (rule draws_bnd [OF draws_block [OF _ l q]], goal_cases)
    case (2 n t)
    have n: "1 \<le> unat n" "unat n < length out" using 2(1) False by auto
    have o: "draws (\<lambda>r. r < length out - unat n + 1) u (UR_nat E (length out - unat n + 1) u)" for u :: "'a stage_st_scheme"
      using n by (intro draws_offset [OF assms(1)]) auto
    show ?case
    proof (rule draws_bnd [OF o], rule draws_bnd [OF o], rule draws_bnd [OF draws_UR_any], goal_cases)
      case (2 i u j v copy w)
      have f: "draws (overwritten (length out) out) w (bnd (fill_byte E out w) (\<lambda>(v, s). Inr (put j (replicate (unat n) v) out, s)))"
        by (rule draws_bnd [OF fill_byte_draws [OF assms(1)]]) (use 2 n in \<open>auto intro!: put_overwritten\<close>)
      have "overwritten (length out) out (put j (slice i (unat n) out) out)"
        using 2 n by (intro put_overwritten) (auto simp: slice_def)
      then show ?case using f by simp
    qed simp
  qed (use False in simp)
  then show ?thesis using False by (simp add: tweak_copy_def Let_def)
qed (simp add: tweak_copy_def)

text \<open>The two tweaks that use a dictionary run only when there is one.\<close>

definition has_dict :: "'a dict_st_scheme \<Rightarrow> bool" where
  "has_dict s \<longleftrightarrow> extras s \<noteq> [] \<or> a_extras s \<noteq> []"

lemma pick_extra_draws:
  assumes "havoc_ok s" and "has_dict s"
  shows "draws (\<lambda>_. True) s (pick_extra E s)"
proof -
  have c: "draws (\<lambda>auto. (if auto then a_extras s else extras s) \<noteq> []) s
      (if extras s = [] then Inr (True, s)
       else if a_extras s \<noteq> [] then bnd (UR E 2 s) (\<lambda>(b, s). Inr (b \<noteq> 0, s)) else Inr (False, s))"
    using assms(2) by (auto simp: has_dict_def intro!: draws_bnd [OF draws_UR_any])
  show ?thesis unfolding pick_extra_def Let_def
  proof (rule draws_bnd [OF c], goal_cases)
    case (1 auto t)
    have e: "extras t = extras s" "a_extras t = a_extras s" using rng_only_stage [OF 1(2)] by simp_all
    have "draws (\<lambda>_. True) t (UR_nat E (length (if auto then a_extras t else extras t)) t)"
      by (rule draws_mono [OF draws_UR_nat]) (use 1 assms(1) e in \<open>auto simp: havoc_ok_def\<close>)
    then show ?case by (rule draws_bnd) simp
  qed
qed

lemma tweak_extra_over_shape:
  assumes "tweakable out" and "havoc_ok s" and "has_dict s"
  shows "draws (overwritten (length out) out) s (tweak_extra_over E out s)"
  unfolding tweak_extra_over_def
proof (rule draws_bnd [OF pick_extra_draws [OF assms(2,3)]], goal_cases)
  case (1 d t)
  show ?case
  proof (cases "length d > length out")
    case False
    have "draws (\<lambda>r. r < length out - length d + 1) t (UR_nat E (length out - length d + 1) t)"
      using tweakable_len [OF assms(1)] by (intro draws_UR_nat) linarith+
    then have "draws (overwritten (length out) out) t
        (bnd (UR_nat E (length out - length d + 1) t) (\<lambda>(p, s). Inr (put p d out, s)))"
      by (rule draws_bnd) (use False in \<open>auto intro!: put_overwritten\<close>)
    then show ?thesis using False by simp
  qed simp
qed

lemma tweak_extra_insert_shape:
  assumes "tweakable out" and "havoc_ok s" and "has_dict s"
  shows "draws (lengthened out) s (tweak_extra_insert E out s)"
proof -
  have o: "draws (\<lambda>r. r < length out + 1) s (UR_nat E (length out + 1) s)"
    using tweakable_len [OF assms(1)] by (intro draws_UR_nat) linarith+
  show ?thesis unfolding tweak_extra_insert_def
  proof (rule draws_bnd [OF o], goal_cases)
    case (1 p t)
    have t: "havoc_ok t" "has_dict t" using assms(2,3) rng_only_stage [OF 1(2)] by (simp_all add: has_dict_def)
    show ?case
      by (rule draws_bnd [OF pick_extra_draws [OF t]])
        (use 1(1) in \<open>auto simp: lengthened_def not_le intro!: exI [of _ p] split: if_splits\<close>)
  qed
qed

subsection \<open>All of them\<close>

lemmas tweak_shapes = tweak_flip_shape tweak_int8_shape tweak_word_shape tweak_byte_shape tweak_delete_shape
  tweak_clone_shape tweak_copy_shape tweak_extra_over_shape tweak_extra_insert_shape

lemma tweak_shape_simps:
  "k \<le> 10 \<Longrightarrow> tweak_shape k out = overwritten 4 out" "10 < k \<Longrightarrow> k \<le> 12 \<Longrightarrow> tweak_shape k out = shortened out"
  "k = 13 \<or> k = 16 \<Longrightarrow> tweak_shape k out = lengthened out"
  "k = 14 \<or> k = 15 \<Longrightarrow> tweak_shape k out = overwritten (length out) out"
  by (auto simp: tweak_shape_def fun_eq_iff)

lemma tweak_shaped:
  fixes s :: "'a stage_st_scheme"
  assumes "tweakable out" and "havoc_ok s" and "15 \<le> k \<Longrightarrow> has_dict s" and "k < 17"
  shows "draws (tweak_shape (unat k) out) s (tweak E k out s)"
proof -
  have "unat k < 17" using assms(4) by (simp add: word_less_nat_alt)
  then have "unat k \<in> {0, 1, 2, 3, 4, 5, 6, 7, 8, 9, 10, 11, 12, 13, 14, 15, 16}" by simp presburger
  then have "k \<in> {0, 1, 2, 3, 4, 5, 6, 7, 8, 9, 10, 11, 12, 13, 14, 15, 16}"
    by (simp add: word_unat_eq_iff)
  then show ?thesis
    using assms tweak_shapes [OF assms(1)]
    by (elim insertE emptyE) (simp_all add: tweak_def tweak_shape_simps)
qed

lemma tweak_shape_tweakable: "tweakable out \<Longrightarrow> tweak_shape k out out' \<Longrightarrow> tweakable out'"
  using shaped_bounds [where out = out and out' = out'] by (auto simp: tweakable_def tweak_shape_def split: if_splits)

lemma one_tweak_draws:
  fixes s :: "'a stage_st_scheme"
  assumes "tweakable out" and "havoc_ok s"
  shows "draws tweakable s (one_tweak E out s)"
proof -
  let ?n = "15 + (if extras s = [] \<and> a_extras s = [] then 0 else 2) :: u32"
  have n: "?n \<noteq> 0" by simp
  show ?thesis unfolding one_tweak_def
  proof (rule draws_bnd [OF draws_UR [OF n]], goal_cases)
    case (1 k t)
    have t: "havoc_ok t" "has_dict t = has_dict s" using assms(2) rng_only_stage [OF 1(2)] by (simp_all add: has_dict_def)
    have "k < 17" "15 \<le> k \<Longrightarrow> has_dict s"
      using 1(1) by (auto simp: has_dict_def word_less_nat_alt word_le_nat_alt split: if_splits)
    then show ?case using tweak_shaped [OF assms(1) t(1)] t(2) by (intro draws_mono [OF tweak_shaped]) (auto intro: assms tweak_shape_tweakable t)
  qed
qed

lemma stacked_draws:
  fixes s :: "'a stage_st_scheme"
  assumes "tweakable out" and "havoc_ok s"
  shows "draws tweakable s (stacked E n out s)"
proof -
  have "draws tweakable s (fold_res (\<lambda>i (out, s). one_tweak E out s) is (out, s))"
    if "tweakable out" "havoc_ok s" for "is" :: "nat list" and out and s :: "'a stage_st_scheme"
    using that
  proof (induction "is" arbitrary: out s)
    case (Cons i "is")
    have "draws tweakable s (bnd (one_tweak E out s) (\<lambda>(out', t). fold_res (\<lambda>i (out, s). one_tweak E out s) is (out', t)))"
      by (rule draws_bnd [OF one_tweak_draws [OF Cons.prems]]) (use Cons rng_only_stage in blast)
    then show ?case by (simp add: split_def)
  qed simp
  then show ?thesis using assms by (simp add: stacked_def)
qed

subsection \<open>Properties\<close>



end
