(* ===== verification/HavocRuns.thy ===== *)
theory HavocRuns
  imports Tweaks Walk
begin

unbundle bit_operations_syntax

section \<open>The havoc stage ends\<close>

text \<open>
  A find doubles \<open>stage_max\<close> and the score while the stage runs, as long as the score is at most
  1600: from a score of at least 2 this happens at most ten times, so the loop ends within its
  fuel. Every buffer it runs is non-empty and at most \<open>MAX_FILE\<close> bytes long.
\<close>

lemma rng_only_steady:
  fixes s t :: "'a stage_st_scheme"
  assumes "rng_only s t"
  shows "steady s t" "tried t = tried s" "stage_cur t = stage_cur s" "stage_max t = stage_max s"
proof -
  obtain a b c d where t: "t = s\<lparr>rand_cnt := a, rng_seed := b, rng_pos := c, urandom_pos := d\<rparr>"
    using rng_only_update [OF assms] by blast
  show "steady s t" "tried t = tried s" "stage_cur t = stage_cur s" "stage_max t = stage_max s"
    unfolding t by (simp_all add: steady_def rooted_def queue_wf_def list_top_def list_wf_def ent_def)
qed

text \<open>
  Stacked tweaks fail only with \<open>D\<close>, else draw, and leave a buffer with \<open>Q\<close>. In the properties \<open>D\<close> is
  never true and \<open>Q\<close> is \<open>tweakable\<close>; without any assumption on the input, only divergence is excluded.
\<close>

definition tweaked :: "(fatal \<Rightarrow> bool) \<Rightarrow> (bytes \<Rightarrow> bool) \<Rightarrow> 'a stage_st_scheme \<Rightarrow> (bytes \<times> 'a stage_st_scheme) res \<Rightarrow> bool" where
  "tweaked D Q s r \<longleftrightarrow> (case r of Inl e \<Rightarrow> D e | Inr (out, t) \<Rightarrow> rng_only s t \<and> Q out)"

definition stacks :: "env \<Rightarrow> (fatal \<Rightarrow> bool) \<Rightarrow> (bytes \<Rightarrow> bool) \<Rightarrow> bytes \<Rightarrow> 'a stage_st_scheme \<Rightarrow> bool" where
  "stacks E D Q in_buf s \<longleftrightarrow> (\<forall>n t. rooted s t \<longrightarrow> tweaked D Q t (stacked E n in_buf t))"

lemma stacks_rooted: "stacks E D Q in_buf s \<Longrightarrow> rooted s t \<Longrightarrow> stacks E D Q in_buf t"
  unfolding stacks_def by (blast intro: rooted_trans)

lemma tweakable_stacks:
  assumes "tweakable in_buf" and "havoc_ok s"
  shows "stacks E (\<lambda>_. False) tweakable in_buf s"
  unfolding stacks_def
proof (intro allI impI)
  fix n t assume "rooted s t"
  then have "havoc_ok t" using assms(2) by (simp add: havoc_ok_def rooted_def)
  then show "tweaked (\<lambda>_. False) tweakable t (stacked E n in_buf t)"
    using stacked_draws [OF assms(1), of t E n] by (auto simp: draws_def tweaked_def)
qed

text \<open>What one turn leaves: one buffer has been run, and the bounds are as they were or doubled.\<close>

definition havoc_turn :: "(fatal \<Rightarrow> bool) \<Rightarrow> (bytes \<Rightarrow> bool) \<Rightarrow> 'a runner \<Rightarrow> bytes \<Rightarrow> u32 \<Rightarrow> 'a stage_st_scheme \<Rightarrow>
    (bool \<times> (bytes \<times> u32 \<times> u32) \<times> 'a stage_st_scheme) res \<Rightarrow> bool" where
  "havoc_turn D Q run in_buf perf s r \<longleftrightarrow> (case r of
     Inl e \<Rightarrow> D e \<or> (\<exists>b u. Q b \<and> run b u = Inl e)
   | Inr (stop, (out, perf', hq), t) \<Rightarrow>
       steady s t \<and> (\<exists>b. Q b \<and> tried t = tried s @ [b]) \<and> stage_cur t = stage_cur s \<and>
       (\<not> stop \<longrightarrow> out = in_buf \<and> (perf' = perf \<and> stage_max t = stage_max s \<or>
          perf \<le> HAVOC_MAX_MULT * 100 \<and> perf' = perf * 2 \<and> stage_max t = stage_max s * 2)))"

context executor
begin

lemma havoc_body_turn:
  fixes s :: "'a stage_st_scheme"
  assumes "stacks E D Q in_buf s"
  shows "havoc_turn D Q run in_buf perf s (havoc_body E run in_buf ((in_buf, perf, hq), s))"
proof -
  have "HAVOC_STACK_POW2 \<noteq> 0" by (simp add: HAVOC_STACK_POW2_def)
  then obtain r s1 where u: "UR E HAVOC_STACK_POW2 s = Inr (r, s1)" "rng_only s s1" by (rule UR_draws)
  define n where "n = (2 :: nat) ^ (1 + unat r)"
  let ?s2 = "s1\<lparr>stage_cur_val := of_nat n\<rparr>"
  have s1: "steady s s1" "tried s1 = tried s" "stage_cur s1 = stage_cur s" "stage_max s1 = stage_max s"
    using rng_only_steady [OF u(2)] by simp_all
  have s2: "steady s ?s2" using s1(1) by simp
  have tw: "tweaked D Q ?s2 (stacked E n in_buf ?s2)" using assms s2 by (simp add: stacks_def steady_def)
  have eq: "havoc_body E run in_buf ((in_buf, perf, hq), s) = bnd (stacked E n in_buf ?s2) (\<lambda>(out1, s3).
      bnd (run out1 s3) (\<lambda>(stop, s).
      if stop then Inr (True, (out1, perf, hq), s)
      else if queued_paths s \<noteq> hq then
        (if perf \<le> HAVOC_MAX_MULT * 100 then Inr (False, (in_buf, perf * 2, queued_paths s), s\<lparr>stage_max := stage_max s * 2\<rparr>)
         else Inr (False, (in_buf, perf, queued_paths s), s))
      else Inr (False, (in_buf, perf, hq), s)))"
    by (simp only: havoc_body_def Let_def prod.case u(1) bnd_simps n_def [symmetric])
  show ?thesis
  proof (cases "stacked E n in_buf ?s2")
    case (Inl e)
    then show ?thesis using tw by (simp add: eq havoc_turn_def tweaked_def)
  next
    case st: (Inr z)
    obtain out1 s3 where z: "z = (out1, s3)" by fastforce
    have d: "rng_only ?s2 s3" "Q out1" using tw st z by (simp_all add: tweaked_def)
    have s3: "steady ?s2 s3" "tried s3 = tried ?s2" "stage_cur s3 = stage_cur ?s2" "stage_max s3 = stage_max ?s2"
      using rng_only_steady [OF d(1)] by simp_all
    have k3: "steady s s3" "tried s3 = tried s" "stage_cur s3 = stage_cur s" "stage_max s3 = stage_max s"
      using steady_trans [OF s2 s3(1)] s1 s3 by simp_all
    show ?thesis
    proof (cases "run out1 s3")
      case (Inl e)
      then show ?thesis using d(2) st z by (auto simp: eq havoc_turn_def)
    next
      case (Inr x)
      obtain stop t where x: "x = (stop, t)" by fastforce
      note k = run_keeps [OF Inr [unfolded x]]
      have "steady s t" using k3(1) k(1) steady_trans by blast
      then show ?thesis using Inr x k k3 d(2) st z by (auto simp: eq havoc_turn_def)
    qed
  qed
qed

end

text \<open>
  The bounds of the loop: the score is \<open>p * 2 ^ k\<close> and \<open>stage_max\<close> is \<open>m * 2 ^ k\<close> after \<open>k\<close> doublings.
\<close>

definition havoc_bounds :: "nat \<Rightarrow> nat \<Rightarrow> u32 \<Rightarrow> 'a stage_st_scheme \<Rightarrow> bool" where
  "havoc_bounds p m perf s \<longleftrightarrow> (\<exists>k. unat perf = p * 2 ^ k \<and> unat perf \<le> 3200 \<and> stage_max s = of_nat (m * 2 ^ k))"

lemma doublings:
  fixes p k m :: nat
  assumes "1 \<le> p" and "p * 2 ^ k \<le> 3200" and "m \<le> 16384"
  shows "k \<le> 11" and "m * 2 ^ k \<le> 2 ^ 25" and "m * 2 ^ k \<le> m * 2048"
proof -
  have "2 ^ k \<le> p * 2 ^ k" using assms(1) by simp
  then have "(2 :: nat) ^ k \<le> 3200" using assms(2) by linarith
  then have "(2 :: nat) ^ k < 2 ^ 12" by simp
  then show k: "k \<le> 11" using power_less_imp_less_exp [of "2 :: nat" k 12] by simp
  have "(2 :: nat) ^ k \<le> 2 ^ 11" using k by (rule power_increasing) simp
  then have le: "(2 :: nat) ^ k \<le> 2048" by simp
  show "m * 2 ^ k \<le> m * 2048" using le by simp
  also have "\<dots> \<le> 2 ^ 25" using assms(3) by simp
  finally show "m * 2 ^ k \<le> 2 ^ 25" .
qed

lemma havoc_bounds_step:
  assumes "havoc_bounds p m perf s" and "1 \<le> p" and "m \<le> 16384"
    and "perf' = perf \<and> stage_max t = stage_max s \<or>
      perf \<le> HAVOC_MAX_MULT * 100 \<and> perf' = perf * 2 \<and> stage_max t = stage_max s * 2"
  shows "havoc_bounds p m perf' t"
proof -
  obtain k where k: "unat perf = p * 2 ^ k" "unat perf \<le> 3200" "stage_max s = of_nat (m * 2 ^ k)"
    using assms(1) unfolding havoc_bounds_def by blast
  from assms(4) show ?thesis
  proof
    assume a: "perf \<le> HAVOC_MAX_MULT * 100 \<and> perf' = perf * 2 \<and> stage_max t = stage_max s * 2"
    then have "unat perf \<le> 1600" by (simp add: HAVOC_MAX_MULT_def word_le_nat_alt)
    moreover from this have "unat perf' = unat perf * 2" using a unat_mult_small [of perf 2] by simp
    moreover have "stage_max t = of_nat (m * 2 ^ Suc k)" using a k(3) by (simp add: algebra_simps)
    moreover have "unat perf * 2 = p * 2 ^ Suc k" using k(1) by simp
    ultimately show ?thesis unfolding havoc_bounds_def by (intro exI [of _ "Suc k"]) simp
  qed (use k in \<open>auto simp: havoc_bounds_def\<close>)
qed

lemma havoc_bounds_max:
  assumes "havoc_bounds p m perf s" and "1 \<le> p" and "m \<le> 16384"
  obtains n where "stage_max s = of_nat n" and "n \<le> 2 ^ 25" and "n \<le> m * 2048" and "m \<le> n"
proof -
  obtain k where k: "unat perf = p * 2 ^ k" "unat perf \<le> 3200" "stage_max s = of_nat (m * 2 ^ k)"
    using assms(1) unfolding havoc_bounds_def by blast
  have "p * 2 ^ k \<le> 3200" using k by simp
  from doublings [OF assms(2) this assms(3)] show thesis by (intro that [OF k(3)]) simp_all
qed

definition havoc_loop_ran :: "(fatal \<Rightarrow> bool) \<Rightarrow> (bytes \<Rightarrow> bool) \<Rightarrow> 'a runner \<Rightarrow> 'a stage_st_scheme \<Rightarrow>
    (bool \<times> (bytes \<times> u32 \<times> u32) \<times> 'a stage_st_scheme) res \<Rightarrow> bool" where
  "havoc_loop_ran D Q run s r \<longleftrightarrow> (case r of
     Inl e \<Rightarrow> D e \<or> (\<exists>b u. Q b \<and> run b u = Inl e)
   | Inr (stop, x, t) \<Rightarrow> steady s t \<and> (\<exists>bs. (\<forall>b \<in> set bs. Q b) \<and> tried t = tried s @ bs \<and>
       (\<not> stop \<longrightarrow> stage_max t = stage_cur s + of_nat (length bs) \<and> stage_cur t = stage_max t)))"

context executor
begin

lemma havoc_loop_over:
  fixes s :: "'a stage_st_scheme"
  assumes "stage_cur s = of_nat c" and "stage_max s = of_nat c"
  shows "havoc_loop_ran D Q run s (stage_loop n body (x, s))"
  using assms by (subst stage_loop.simps) (simp add: havoc_loop_ran_def)

lemma havoc_loop:
  fixes s :: "'a stage_st_scheme"
  assumes "1 \<le> p" and "m \<le> 16384"
    and "stacks E D Q in_buf s" and "havoc_bounds p m perf s" and "stage_cur s = of_nat c" and "c \<le> 2 ^ 25"
    and "sint (stage_cur s) \<le> sint (stage_max s)" and "m * 2048 \<le> n + c"
  shows "havoc_loop_ran D Q run s (stage_loop n (havoc_body E run in_buf) ((in_buf, perf, hq), s))"
  using assms(3-8)
proof (induction n arbitrary: c s perf hq)
  case 0
  obtain nm where nm: "stage_max s = of_nat nm" "nm \<le> 2 ^ 25" "nm \<le> m * 2048"
    by (rule havoc_bounds_max [OF 0(2) assms(1,2)])
  have "int c \<le> int nm" using 0(3,4,5) nm by (simp add: sint_small)
  then have "c = nm" using nm(3) 0(6) by simp
  then show ?case using 0(3) nm(1) by (intro havoc_loop_over [of _ c]) simp_all
next
  case (Suc n)
  obtain nm where nm: "stage_max s = of_nat nm" "nm \<le> 2 ^ 25" "nm \<le> m * 2048"
    by (rule havoc_bounds_max [OF Suc.prems(2) assms(1,2)])
  have si: "sint (stage_cur s) = int c" "sint (stage_max s) = int nm" using Suc.prems(3,4) nm by (simp_all add: sint_small)
  show ?case
  proof (cases "c < nm")
    case False
    then have "c = nm" using Suc.prems(5) si by simp
    then show ?thesis using Suc.prems(3) nm(1) by (intro havoc_loop_over [of _ c]) simp_all
  next
    case True
    let ?b = "havoc_body E run in_buf ((in_buf, perf, hq), s)"
    have loop: "stage_loop (Suc n) (havoc_body E run in_buf) ((in_buf, perf, hq), s) =
        cont ?b (\<lambda>(x', s'). stage_loop n (havoc_body E run in_buf) (x', s'\<lparr>stage_cur := stage_cur s' + 1\<rparr>))"
      using True si by (subst stage_loop.simps) simp
    have turn: "havoc_turn D Q run in_buf perf s ?b" by (rule havoc_body_turn [OF Suc.prems(1)])
    show ?thesis
    proof (cases ?b)
      case (Inl e)
      then show ?thesis using turn by (simp add: loop cont_def havoc_turn_def havoc_loop_ran_def)
    next
      case (Inr r)
      obtain stop x t where "r = (stop, x, t)" by (cases r)
      moreover obtain out perf' hq' where "x = (out, perf', hq')" by (cases x)
      ultimately have r: "r = (stop, (out, perf', hq'), t)" by simp
      note h = turn [unfolded Inr r havoc_turn_def sum.case prod.case]
      obtain b where b: "Q b" "tried t = tried s @ [b]" using h by blast
      have st: "steady s t" "stage_cur t = stage_cur s" using h by simp_all
      show ?thesis
      proof (cases stop)
        case True
        then show ?thesis using Inr r st b by (auto simp: loop cont_def havoc_loop_ran_def)
      next
        case False
        let ?t = "t\<lparr>stage_cur := stage_cur t + 1\<rparr>"
        have hb: "havoc_bounds p m perf' t"
          by (rule havoc_bounds_step [OF Suc.prems(2) assms(1,2)]) (use h False in simp)
        have "stage_max t = of_nat nm \<or> stage_max t = of_nat (nm * 2)" using h False nm(1) by auto
        then have "int (Suc c) \<le> sint (stage_max t)" using True nm(2) by (auto simp: sint_small simp del: of_nat_mult of_nat_Suc)
        moreover have c': "stage_cur ?t = of_nat (Suc c)" using st(2) Suc.prems(3) by simp
        moreover have "sint (of_nat (Suc c) :: u32) = int (Suc c)" using True nm(2) by (intro sint_small) simp
        moreover have "stage_max ?t = stage_max t" by simp
        ultimately have le: "sint (stage_cur ?t) \<le> sint (stage_max ?t)" by (simp only:)
        have "havoc_loop_ran D Q run ?t (stage_loop n (havoc_body E run in_buf) ((in_buf, perf', hq'), ?t))"
        proof (rule Suc.IH [OF _ _ c' _ le])
          show "stacks E D Q in_buf ?t" by (rule stacks_rooted [OF Suc.prems(1)]) (use st(1) in \<open>simp add: steady_def\<close>)
          show "havoc_bounds p m perf' ?t" using hb by (simp add: havoc_bounds_def)
        qed (use True nm(2) Suc.prems(6) in simp_all)
        moreover have "stage_loop (Suc n) (havoc_body E run in_buf) ((in_buf, perf, hq), s) =
            stage_loop n (havoc_body E run in_buf) ((in_buf, perf', hq'), ?t)"
          using Inr r False h by (simp add: loop cont_def)
        moreover have "havoc_loop_ran D Q run s z" if ran: "havoc_loop_ran D Q run ?t z" for z
        proof (cases z)
          case (Inl e)
          then show ?thesis using ran by (simp add: havoc_loop_ran_def)
        next
          case (Inr y)
          obtain stop x u where y: "y = (stop, x, u)" by (cases y)
          obtain bs where bs: "\<forall>b \<in> set bs. Q b" "tried u = tried t @ bs"
            "\<not> stop \<longrightarrow> stage_max u = stage_cur ?t + of_nat (length bs) \<and> stage_cur u = stage_max u" and tu: "steady ?t u"
            using ran Inr y by (auto simp: havoc_loop_ran_def)
          have "steady t ?t" by simp
          then have tu: "steady t u" using tu by (rule steady_trans)
          show ?thesis
            unfolding havoc_loop_ran_def Inr y sum.case prod.case
            using bs b st steady_trans [OF st(1) tu] by (intro conjI exI [of _ "b # bs"]) (simp_all add: algebra_simps)
        qed
        ultimately show ?thesis by simp
      qed
    qed
  qed
qed

end

subsection \<open>The stage\<close>

lemma havoc_max_bounds:
  assumes "unat perf \<le> 1600" and "hdiv \<noteq> 0"
  obtains m where "havoc_max sp det perf hdiv = of_nat m" and "16 \<le> m" and "m \<le> 16384"
proof -
  define c :: u32 where "c = (if sp then SPLICE_HAVOC else if det then HAVOC_CYCLES_INIT else HAVOC_CYCLES)"
  have c: "unat c \<le> 1024" by (simp add: c_def SPLICE_HAVOC_def HAVOC_CYCLES_INIT_def HAVOC_CYCLES_def)
  have "unat c * unat perf \<le> 1024 * 1600" by (rule mult_le_mono [OF c assms(1)])
  then have cp: "unat (c * perf) \<le> 1024 * 1600" using unat_mult_small [of c perf] by simp
  let ?w = "c * perf div hdiv div 100"
  have "unat (c * perf) div unat hdiv div 100 \<le> 1024 * 1600 div 100"
    by (rule div_le_mono [OF order_trans [OF div_le_dividend cp]])
  then have w: "unat ?w \<le> 16384" by (simp add: unat_div)
  have s: "sint ?w = int (unat ?w)" using sint_small [of "unat ?w"] w by simp
  show thesis
  proof (cases "unat ?w < 16")
    case True
    then have "sint ?w < 16" using s by linarith
    then have "havoc_max sp det perf hdiv = of_nat 16" unfolding havoc_max_def c_def [symmetric] Let_def HAVOC_MIN_def by simp
    then show thesis by (rule that) simp_all
  next
    case False
    then have "\<not> sint ?w < 16" using s by linarith
    then have "havoc_max sp det perf hdiv = of_nat (unat ?w)" unfolding havoc_max_def c_def [symmetric] Let_def HAVOC_MIN_def by simp
    then show thesis by (rule that) (use False w in simp_all)
  qed
qed

definition havoc_booked :: "(fatal \<Rightarrow> bool) \<Rightarrow> (bytes \<Rightarrow> bool) \<Rightarrow> 'a runner \<Rightarrow> nat \<Rightarrow> 'a stage_st_scheme \<Rightarrow> (bool \<times> 'a stage_st_scheme) res \<Rightarrow> bool" where
  "havoc_booked D Q run k s r \<longleftrightarrow> (case r of
     Inl e \<Rightarrow> D e \<or> (\<exists>b u. Q b \<and> run b u = Inl e)
   | Inr (stop, t) \<Rightarrow> rooted s t \<and> (\<exists>bs. (\<forall>b \<in> set bs. Q b) \<and> tried t = tried s @ bs \<and>
       (\<not> stop \<longrightarrow> stage_max t = of_nat (length bs) \<and> stage_cur t = stage_max t \<and>
          stage_cycles t = (stage_cycles s)[k := stage_cycles s ! k + scast (of_nat (length bs) :: s32)] \<and>
          stage_finds t = (stage_finds s)[k := stage_finds s ! k + (hit_count t - hit_count s)])))"

abbreviation havoc_outcome :: "'a runner \<Rightarrow> nat \<Rightarrow> 'a stage_st_scheme \<Rightarrow> (bool \<times> 'a stage_st_scheme) res \<Rightarrow> bool" where
  "havoc_outcome \<equiv> havoc_booked (\<lambda>_. False) tweakable"

context executor
begin

lemma havoc_stage_outcome:
  fixes s :: "'a stage_st_scheme"
  assumes "stacks E D Q in_buf s" and "1 \<le> unat perf" and "unat perf \<le> 1600" and "hdiv \<noteq> 0"
  shows "havoc_booked D Q run (if sp then STAGE_SPLICE else STAGE_HAVOC) s (havoc_stage E run sp det perf hdiv in_buf s)"
proof -
  let ?k = "if sp then STAGE_SPLICE else STAGE_HAVOC" and ?sh = "if sp then ''splice'' else ''havoc''"
  obtain m where m: "havoc_max sp det perf hdiv = of_nat m" "16 \<le> m" "m \<le> 16384"
    by (rule havoc_max_bounds [OF assms(3,4)])
  let ?s0 = "s\<lparr>stage_cur_byte := -1\<rparr>"
  let ?s = "?s0\<lparr>stage_short := ?sh, stage_cur := 0, stage_max := of_nat m\<rparr>"
  let ?loop = "stage_loop (havoc_fuel (of_nat m)) (havoc_body E run in_buf) ((in_buf, perf, queued_paths s), ?s)"
  have sm: "sint (of_nat m :: s32) = int m" using m(3) by (intro sint_small) simp
  have ran: "havoc_loop_ran D Q run ?s ?loop"
  proof (rule havoc_loop [OF assms(2) m(3), where c = 0])
    show "stacks E D Q in_buf ?s" by (rule stacks_rooted [OF assms(1)]) simp
    show "havoc_bounds (unat perf) m perf ?s"
      unfolding havoc_bounds_def by (rule exI [of _ 0]) (use assms(3) in simp)
    show "m * 2048 \<le> havoc_fuel (of_nat m) + 0" by (simp add: havoc_fuel_def sm)
  qed (simp_all add: sm)
  have r: "rooted s ?s" by simp
  have hs: "havoc_stage E run sp det perf hdiv in_buf s = bnd (cont ?loop (\<lambda>(x', s'). Inr (False, x', stage_done ?k (hit_count ?s0) s')))
      (\<lambda>(stop, x, s'). Inr (stop, s'))"
    using assms(4) by (simp add: havoc_stage_def staged_def m(1) Let_def hit_count_def)
  show ?thesis
  proof (cases ?loop)
    case (Inl e)
    then show ?thesis using ran by (simp add: hs cont_def havoc_booked_def havoc_loop_ran_def)
  next
    case (Inr y)
    obtain stop x t where y: "y = (stop, x, t)" by (cases y)
    have st: "steady ?s t" using ran Inr y by (simp add: havoc_loop_ran_def)
    then have rt: "rooted s t" using rooted_trans [OF r] by (simp add: steady_def)
    obtain bs where bs: "\<forall>b \<in> set bs. Q b" "tried t = tried ?s @ bs"
      "\<not> stop \<longrightarrow> stage_max t = stage_cur ?s + of_nat (length bs) \<and> stage_cur t = stage_max t"
      using ran Inr y by (auto simp: havoc_loop_ran_def)
    have "stage_finds t = stage_finds s" "stage_cycles t = stage_cycles s" using st by (simp_all add: steady_def)
    moreover have "havoc_stage E run sp det perf hdiv in_buf s = Inr (stop, if stop then t else stage_done ?k (hit_count s) t)"
      by (cases stop) (simp_all add: hs Inr y cont_def hit_count_def)
    moreover have "hit_count (stage_done ?k (hit_count s) t) = hit_count t" by (simp add: hit_count_def stage_done_def)
    moreover have "rooted s (stage_done ?k (hit_count s) t)" using rt by (simp add: stage_done_def)
    ultimately show ?thesis
      using rt bs by (simp add: havoc_booked_def, intro conjI impI exI [of _ bs]) (simp_all add: stage_done_def)
  qed
qed

end

subsection \<open>Properties\<close>

text \<open>
  C10: The havoc stage, from a score of 1 to 1600, always ends although every find may double \<open>stage_max\<close>
  while it runs: it runs exactly as many buffers as \<open>stage_max\<close> says at the end, each of them
  non-empty and at most \<open>MAX_FILE\<close> bytes long, and books them under havoc or splicing. It fails only
  when a run fails, and leaves the dictionaries alone and the queue a well-formed list.
\<close>

theorem havoc_stage_ends:
  assumes "tweakable in_buf" and "havoc_ok s" and "1 \<le> unat perf" and "unat perf \<le> 1600" and "hdiv \<noteq> 0"
  shows "havoc_outcome (common_fuzz_stuff E) (if sp then STAGE_SPLICE else STAGE_HAVOC) s
      (havoc_stage E (common_fuzz_stuff E) sp det perf hdiv in_buf s) \<and>
    havoc_stage E (common_fuzz_stuff E) sp det perf hdiv in_buf s \<noteq> Inl Diverges"
proof -
  have o: "havoc_outcome (common_fuzz_stuff E) (if sp then STAGE_SPLICE else STAGE_HAVOC) s
      (havoc_stage E (common_fuzz_stuff E) sp det perf hdiv in_buf s)"
    by (rule fuzz_run.havoc_stage_outcome [OF tweakable_stacks [OF assms(1,2)] assms(3-5)])
  moreover have "common_fuzz_stuff E b u \<noteq> Inl Diverges" for b and u :: "'a stage_st_scheme"
    using common_fuzz_stuff_ends [of E b u] by (simp add: ends_def)
  ultimately show ?thesis by (auto simp: havoc_booked_def split: sum.splits)
qed

theorem havoc_stage_ends_witness:
  "havoc_stage demo_env (common_fuzz_stuff demo_env) False True 100 1 [1, 2, 3] (demo_main\<lparr>queue_cycle := 1\<rparr>) \<noteq> Inl Diverges"
proof -
  have "tweakable [1, 2, 3]" by (simp add: tweakable_def MAX_FILE_def)
  moreover have "havoc_ok (demo_main\<lparr>queue_cycle := 1\<rparr>)" by (simp add: havoc_ok_def demo_main_def)
  ultimately show ?thesis
    using havoc_stage_ends [of "[1, 2, 3]" "demo_main\<lparr>queue_cycle := 1\<rparr>" 100 1 demo_env False True] by simp
qed

end
