(* ===== verification/Ending.thy ===== *)
theory Ending
  imports StageWalks FlipWalks DictWalks HavocRuns
begin

unbundle bit_operations_syntax

section \<open>Every stage ends\<close>

text \<open>
  Whatever the buffer, the dictionaries and the environment are, each stage of \<open>fuzz_one\<close> ends and
  leaves the relation \<open>kept\<close>: user tokens, options, the position in the queue and everything beyond
  \<open>stage_st\<close> are untouched, the automatic tokens keep their invariant, and the queue stays a list
  that only grows.
\<close>

definition kept :: "'a stage_st_scheme \<Rightarrow> 'a stage_st_scheme \<Rightarrow> bool" where
  "kept s t \<longleftrightarrow>
     extras t = extras s \<and> (auto_dict (a_extras s) \<longrightarrow> auto_dict (a_extras t)) \<and>
     dumb_mode t = dumb_mode s \<and> TF_switch t = TF_switch s \<and> current_entry t = current_entry s \<and>
     queue_cycle t = queue_cycle s \<and> stage_st.more t = stage_st.more s \<and>
     length (entries s) \<le> length (entries t) \<and> (list_top s \<longrightarrow> list_top t) \<and>
     (queue_wf s \<and> length (entries t) < 2 ^ 32 \<longrightarrow> queue_wf t)"

lemma kept_refl [simp]: "kept s s"
  by (simp add: kept_def)

lemma kept_trans [trans]: "kept s t \<Longrightarrow> kept t u \<Longrightarrow> kept s u"
  unfolding kept_def by (simp only:) auto

lemma rooted_kept: "rooted s t \<Longrightarrow> kept s t"
  unfolding rooted_def kept_def by (simp only:) simp

lemma steady_kept: "steady s t \<Longrightarrow> kept s t"
  by (simp add: steady_def rooted_kept)

lemma collects_kept:
  assumes "collects s t" shows "kept s t"
proof -
  have "rooted (s\<lparr>a_extras := a_extras t\<rparr>) t" using assms by (simp add: collects_def steady_def)
  then show ?thesis using assms
    by (auto simp: collects_def kept_def rooted_def queue_wf_def list_top_def list_wf_def ent_def)
qed

lemma kept_updates [simp]:
  "kept s (t\<lparr>stage_cur := c\<rparr>) \<longleftrightarrow> kept s t" "kept s (t\<lparr>stage_max := c\<rparr>) \<longleftrightarrow> kept s t"
  "kept s (t\<lparr>stage_cur_byte := c\<rparr>) \<longleftrightarrow> kept s t" "kept s (t\<lparr>stage_cur_val := c\<rparr>) \<longleftrightarrow> kept s t"
  "kept s (t\<lparr>stage_val_type := v\<rparr>) \<longleftrightarrow> kept s t" "kept s (t\<lparr>tried := bs\<rparr>) \<longleftrightarrow> kept s t"
  "kept s (t\<lparr>stage_finds := fc\<rparr>) \<longleftrightarrow> kept s t" "kept s (t\<lparr>stage_cycles := fc\<rparr>) \<longleftrightarrow> kept s t"
  "kept s (t\<lparr>stage_short := n\<rparr>) \<longleftrightarrow> kept s t" "kept s (t\<lparr>blocks_eff_total := b\<rparr>) \<longleftrightarrow> kept s t"
  "kept s (t\<lparr>blocks_eff_select := b\<rparr>) \<longleftrightarrow> kept s t" "kept s (t\<lparr>splicing_with := w\<rparr>) \<longleftrightarrow> kept s t"
  "kept s (t\<lparr>syncing_party := p\<rparr>) \<longleftrightarrow> kept s t" "kept s (t\<lparr>cur_skipped_paths := d\<rparr>) \<longleftrightarrow> kept s t"
  "kept s (t\<lparr>subseq_tmouts := d\<rparr>) \<longleftrightarrow> kept s t" "kept s (t\<lparr>cur_depth := d\<rparr>) \<longleftrightarrow> kept s t"
  by (simp_all add: kept_def queue_wf_def list_top_def list_wf_def ent_def)

lemma kept_updates_left [simp]:
  "kept (s\<lparr>stage_cur := c\<rparr>) t \<longleftrightarrow> kept s t" "kept (s\<lparr>stage_max := c\<rparr>) t \<longleftrightarrow> kept s t"
  "kept (s\<lparr>stage_cur_byte := c\<rparr>) t \<longleftrightarrow> kept s t" "kept (s\<lparr>stage_cur_val := c\<rparr>) t \<longleftrightarrow> kept s t"
  "kept (s\<lparr>stage_val_type := v\<rparr>) t \<longleftrightarrow> kept s t" "kept (s\<lparr>stage_short := n\<rparr>) t \<longleftrightarrow> kept s t"
  by (simp_all add: kept_def queue_wf_def list_top_def list_wf_def ent_def)

lemma same_kept: "same s t \<Longrightarrow> kept s t"
  by (rule rooted_kept) (use grows_steady [OF same_grows] in \<open>auto simp: steady_def\<close>)

subsection \<open>Composition\<close>

lemma safe_mono: "safe P m \<Longrightarrow> (\<And>x. P x \<Longrightarrow> Q x) \<Longrightarrow> safe Q m"
  unfolding safe_def using post_mono by blast

text \<open>\<open>kept_by J s r\<close>: the piece of code ended; \<open>J\<close> holds of its locals unless it abandoned the entry.\<close>

definition kept_by :: "('y \<Rightarrow> bool) \<Rightarrow> 'a stage_st_scheme \<Rightarrow> (bool \<times> 'y \<times> 'a stage_st_scheme) res \<Rightarrow> bool" where
  "kept_by J s r \<longleftrightarrow> safe (\<lambda>(stop, y, t). kept s t \<and> (\<not> stop \<longrightarrow> J y)) r"

definition keeps :: "('x \<Rightarrow> bool) \<Rightarrow> ('y \<Rightarrow> bool) \<Rightarrow> ('x \<times> 'a stage_st_scheme \<Rightarrow> (bool \<times> 'y \<times> 'a stage_st_scheme) res) \<Rightarrow> bool" where
  "keeps I J f \<longleftrightarrow> (\<forall>x s. I x \<longrightarrow> kept_by J s (f (x, s)))"

abbreviation any :: "'x \<Rightarrow> bool" where "any \<equiv> \<lambda>_. True"

lemma keepsI: "(\<And>x s. I x \<Longrightarrow> kept_by J s (f (x, s))) \<Longrightarrow> keeps I J f"
  by (simp add: keeps_def)

lemma keepsD: "keeps I J f \<Longrightarrow> I x \<Longrightarrow> kept_by J s (f (x, s))"
  by (simp add: keeps_def)

lemma kept_by_Inr [simp]: "kept_by J s (Inr (stop, y, t)) \<longleftrightarrow> kept s t \<and> (\<not> stop \<longrightarrow> J y)"
  by (simp add: kept_by_def)

lemma kept_by_trans: "kept s t \<Longrightarrow> kept_by J t r \<Longrightarrow> kept_by J s r"
  unfolding kept_by_def by (erule safe_mono) (auto intro: kept_trans)

lemma kept_by_any: "kept_by J s r \<Longrightarrow> kept_by any s r"
  unfolding kept_by_def by (erule safe_mono) auto

lemma kept_by_cont:
  assumes "kept_by J s m" and "keeps J K g"
  shows "kept_by K s (cont m g)"
  unfolding cont_def kept_by_def
proof (rule safe_bnd [OF assms(1) [unfolded kept_by_def]], goal_cases)
  case (1 x)
  obtain stop y t where x: "x = (stop, y, t)" by (cases x)
  then have "kept s t" "\<not> stop \<longrightarrow> kept_by K t (g (y, t))" using 1 assms(2) by (auto dest: keepsD)
  then show ?case using kept_by_trans [of s t K "g (y, t)"] by (cases stop) (simp_all add: x kept_by_def)
qed

lemma keeps_cont: "keeps I J f \<Longrightarrow> keeps J K g \<Longrightarrow> keeps I K (\<lambda>w. cont (f w) g)"
  by (rule keepsI) (rule kept_by_cont [OF keepsD])

lemmas keeps_seq = keeps_cont [where I = any and J = any and K = any]

lemma keeps_for_each:
  assumes "\<And>i. keeps I I (b i)"
  shows "keeps I I (for_each is b)"
proof (induction "is")
  case Nil
  then show ?case by (simp add: keeps_def)
next
  case (Cons i "is")
  have "keeps I I (\<lambda>w. cont (b i w) (for_each is b))" by (rule keeps_cont [OF assms Cons.IH])
  then show ?case by (simp add: cont_def)
qed

lemma keeps_pre:
  assumes "keeps I J f" and "\<And>s. kept s (g s)"
  shows "keeps I J (\<lambda>(x, s). f (x, g s))"
  by (rule keepsI, simp only: prod.case, rule kept_by_trans [OF assms(2)], rule keepsD [OF assms(1)])

lemma keeps_label: "keeps I J f \<Longrightarrow> keeps I J (\<lambda>w. f (val_type_is ty w))"
  using keeps_pre [of I J f "\<lambda>s. s\<lparr>stage_val_type := ty\<rparr>"] by (simp add: keeps_def val_type_is_def)

lemma kept_by_staged:
  assumes "keeps I J loop" and "I x"
  shows "kept_by J s (staged k short m loop (x, s))"
proof -
  let ?s = "s\<lparr>stage_short := short, stage_cur := 0, stage_max := m\<rparr>"
  have "kept_by J s (loop (x, ?s))" by (rule kept_by_trans [OF _ keepsD [OF assms]]) simp
  moreover have "keeps J J (\<lambda>(x', s'). Inr (False, x', stage_done k (hit_count s) s'))"
    by (simp add: keeps_def stage_done_def)
  ultimately show ?thesis unfolding staged_def prod.case by (rule kept_by_cont)
qed

lemma keeps_unless: "keeps I I m \<Longrightarrow> keeps I I (unless b m)"
  by (simp add: keeps_def unless_def)

text \<open>A loop over \<open>stage_cur\<close> whose body leaves both bounds alone.\<close>

definition keeps_bounds :: "('x \<Rightarrow> bool) \<Rightarrow> ('x \<times> 'a stage_st_scheme \<Rightarrow> (bool \<times> 'x \<times> 'a stage_st_scheme) res) \<Rightarrow> bool" where
  "keeps_bounds I f \<longleftrightarrow> (\<forall>x s. I x \<longrightarrow> safe (\<lambda>(stop, y, t). kept s t \<and>
     (\<not> stop \<longrightarrow> I y \<and> stage_cur t = stage_cur s \<and> stage_max t = stage_max s)) (f (x, s)))"

lemma sint_inc: "sint (c :: s32) < sint (m :: s32) \<Longrightarrow> sint (c + 1) = sint c + 1"
proof -
  assume "sint c < sint m"
  moreover have "- (2 ^ 31) \<le> sint c" "sint m < 2 ^ 31" using sint_ge [of c] sint_lt [of m] by simp_all
  ultimately have "signed_take_bit 31 (sint c + 1) = sint c + 1" by (intro signed_take_bit_int_eq_self) auto
  then show ?thesis by (simp add: sint_word_ariths)
qed

lemma keeps_stage_loop:
  assumes "keeps_bounds I body" and "I x" and "sint (stage_max s) - sint (stage_cur s) \<le> int n"
  shows "kept_by I s (stage_loop n body (x, s))"
  using assms(2,3)
proof (induction n arbitrary: x s)
  case 0
  then show ?case by (subst stage_loop.simps) simp
next
  case (Suc n)
  show ?case
  proof (cases "sint (stage_cur s) < sint (stage_max s)")
    case True
    have "kept_by I s (cont (body (x, s)) (\<lambda>(x', s'). stage_loop n body (x', s'\<lparr>stage_cur := stage_cur s' + 1\<rparr>)))"
      unfolding cont_def kept_by_def
    proof (rule safe_bnd [OF assms(1) [unfolded keeps_bounds_def, rule_format, OF Suc.prems(1)]], goal_cases)
      case (1 r)
      obtain stop y t where r: "r = (stop, y, t)" by (cases r)
      show ?case
      proof (cases stop)
        case False
        let ?t = "t\<lparr>stage_cur := stage_cur t + 1\<rparr>"
        have t: "kept s t" "I y" "stage_cur t = stage_cur s" "stage_max t = stage_max s" using 1 r False by simp_all
        have "sint (stage_max ?t) - sint (stage_cur ?t) \<le> int n"
          using sint_inc [OF True] t(3,4) Suc.prems(2) by simp
        then have "kept_by I ?t (stage_loop n body (y, ?t))" by (rule Suc.IH [OF t(2)])
        moreover have "kept s ?t" using t(1) by simp
        ultimately have "kept_by I s (stage_loop n body (y, ?t))" by (blast intro: kept_by_trans)
        then show ?thesis using False r by (simp add: kept_by_def)
      qed (use 1 r in simp)
    qed
    then show ?thesis using True by (subst stage_loop.simps) simp
  qed (use Suc.prems in \<open>subst stage_loop.simps, simp\<close>)
qed

lemma keeps_run_stage:
  fixes body :: "'x \<times> 'a stage_st_scheme \<Rightarrow> (bool \<times> 'x \<times> 'a stage_st_scheme) res"
  assumes "keeps_bounds I body" shows "keeps I I (run_stage body)"
proof (rule keepsI)
  fix x and s :: "'a stage_st_scheme" assume i: "I x"
  let ?s = "s\<lparr>stage_cur := 0\<rparr>"
  have "kept_by I ?s (stage_loop (nat (sint (stage_max s))) body (x, ?s))"
    by (rule keeps_stage_loop [OF assms i]) simp
  then have "kept_by I s (stage_loop (nat (sint (stage_max s))) body (x, ?s))"
    by (rule kept_by_trans [rotated]) simp
  then show "kept_by I s (run_stage body (x, s))" by (simp add: run_stage_def)
qed

subsection \<open>The stages\<close>

locale sure_executor = executor +
  assumes run_ends: "ends (run b s)"
begin

lemma run_safe: "safe (\<lambda>(stop, t). kept s t \<and> stage_cur t = stage_cur s \<and> stage_max t = stage_max s) (run b s)"
  by (auto intro!: safeI steady_kept run_ends dest: run_keeps)

lemma outcome_kept_by:
  assumes "stage_outcome run k cands J s r" shows "kept_by any s r"
proof -
  have "run b u \<noteq> Inl Diverges" for b u using run_ends [of b u] by (simp add: ends_def)
  then show ?thesis using assms
    by (auto simp: kept_by_def safe_def post_def stage_outcome_def run_fails_def ends_def rooted_kept split: sum.splits)
qed

lemma keeps_bounds_flip: "keeps_bounds any (flip_body n run)"
  unfolding keeps_bounds_def flip_body_def Let_def prod.case
proof (intro allI impI, rule safe_bnd [OF run_safe], goal_cases)
  case (1 x s r)
  then show ?case by (cases r) auto
qed

lemma bitflips_kept_by: "kept_by any s (bitflip2 run (x, s))" "kept_by any s (bitflip4 run (x, s))"
  unfolding bitflip2_def bitflip4_def by (rule kept_by_staged [OF keeps_run_stage [OF keeps_bounds_flip]], simp)+

lemma keeps_bounds_flip1: "keeps_bounds (\<lambda>(out, l). token_ok l) (flip1_body E q run)"
  unfolding keeps_bounds_def
proof (intro allI impI)
  fix x :: "bytes \<times> token_loc" and s :: "'a stage_st_scheme"
  obtain out l where x: "x = (out, l)" by fastforce
  assume "case x of (out, l) \<Rightarrow> token_ok l"
  then have l: "token_ok l" by (simp add: x)
  show "safe (\<lambda>(stop, y, t). kept s t \<and> (\<not> stop \<longrightarrow> (case y of (out, l) \<Rightarrow> token_ok l) \<and>
      stage_cur t = stage_cur s \<and> stage_max t = stage_max s)) (flip1_body E q run (x, s))"
    unfolding flip1_body_def x prod.case
  proof (rule safe_bnd [OF keeps_bounds_flip [unfolded keeps_bounds_def, rule_format]], simp, goal_cases)
    case (1 r)
    obtain stop o' t where r: "r = (stop, o', t)" by (cases r)
    show ?case
    proof (cases "\<not> stop \<and> dumb_mode t = 0 \<and> unat (stage_cur t) mod 8 = 7")
      case True
      obtain l' u where u: "token_step E (exec_cksum (ent t q)) (trace_cksum t) (stage_cur t = stage_max t - 1)
          (o' ! (unat (stage_cur t) div 8)) l t = Inr (l', u)" "token_ok l'" "collects t u"
        "stage_cur u = stage_cur t" "stage_max u = stage_max t"
        using token_step_collects [OF l] by metis
      have "kept s u" using 1 r collects_kept [OF u(3)] kept_trans by auto
      then show ?thesis using True 1 r u by simp
    qed (use 1 r l in auto)
  qed
qed

lemma bitflip1_kept_by: "kept_by any s (bitflip1 E q run (out, s))"
proof -
  let ?l = "\<lparr>a_collect = [], a_len = 0, prev_cksum = exec_cksum (ent s q)\<rparr>"
  let ?s = "s\<lparr>stage_val_type := STAGE_VAL_NONE\<rparr>"
  have "kept_by (\<lambda>(out, l). token_ok l) ?s (staged STAGE_FLIP1 ''flip1'' (of_nat (length out) * 8)
      (run_stage (flip1_body E q run)) ((out, ?l), ?s))"
    by (rule kept_by_staged [OF keeps_run_stage [OF keeps_bounds_flip1]]) (simp add: token_ok_def)
  then have "kept_by (\<lambda>(out, l). token_ok l) s (staged STAGE_FLIP1 ''flip1'' (of_nat (length out) * 8)
      (run_stage (flip1_body E q run)) ((out, ?l), ?s))"
    by (rule kept_by_trans [rotated]) simp
  then show ?thesis
    unfolding bitflip1_def prod.case Let_def kept_by_def by (rule safe_bnd) auto
qed

lemma keeps_bounds_flip8: "keeps_bounds any (flip8_body q run)"
  unfolding keeps_bounds_def
proof (intro allI impI)
  fix x :: "bytes \<times> bool list \<times> nat" and s :: "'a stage_st_scheme"
  obtain out eff cnt where x: "x = (out, eff, cnt)" by (cases x)
  show "safe (\<lambda>(stop, y, t). kept s t \<and> (\<not> stop \<longrightarrow> True \<and> stage_cur t = stage_cur s \<and> stage_max t = stage_max s))
      (flip8_body q run (x, s))"
    unfolding flip8_body_def x prod.case Let_def
  proof (rule safe_bnd [OF run_safe], goal_cases)
    case (1 r)
    then show ?case by (cases r) auto
  qed
qed

lemma byteflip1_kept_by: "kept_by any s (byteflip1 q run (out, s))"
proof (cases "eff_init (length out)")
  case (Inl e)
  then show ?thesis by (auto simp: byteflip1_def kept_by_def safe_def eff_init_def Let_def split: if_splits)
next
  case (Inr z)
  obtain eff0 cnt0 where z: "z = (eff0, cnt0)" by fastforce
  let ?loop = "\<lambda>w. cont (run_stage (flip8_body q run) w) (\<lambda>((out', eff, cnt), s').
      let (eff', sel) = eff_finish (length out) eff cnt in
      Inr (False, (out', eff', cnt), s'\<lparr>blocks_eff_select := blocks_eff_select s' + of_nat sel,
        blocks_eff_total := blocks_eff_total s' + of_nat (EFF_ALEN (length out))\<rparr>))"
  have "keeps any any ?loop"
    by (rule keeps_cont [OF keeps_run_stage [OF keeps_bounds_flip8]]) (auto simp: keeps_def split: prod.splits)
  then have "kept_by any s (staged STAGE_FLIP8 ''flip8'' (of_nat (length out)) ?loop ((out, eff0, cnt0), s))"
    by (rule kept_by_staged) simp
  then show ?thesis
    unfolding byteflip1_def prod.case Let_def Inr z bnd_simps kept_by_def by (rule safe_bnd) auto
qed

text \<open>The dictionary stages.\<close>

lemma keeps_over_try: "keeps any any (over_try run eff i d)"
proof (rule keepsI)
  fix x :: "bytes \<times> nat" and s :: "'a stage_st_scheme"
  obtain out l where x: "x = (out, l)" by fastforce
  have "kept_by any s (bnd (run (put i d out) s) (\<lambda>(stop, s').
      if stop then Inr (True, (put i d out, length d), s')
      else Inr (False, (put i d out, length d), s'\<lparr>stage_cur := stage_cur s' + 1\<rparr>)))"
    unfolding kept_by_def by (rule safe_bnd [OF run_safe]) auto
  then show "kept_by any s (over_try run eff i d (x, s))"
    by (simp add: over_try_def x Let_def drop_slots_def)
qed

lemma keeps_user_over_try: "keeps any any (user_over_try E run eff i j)"
proof (rule keepsI)
  fix x :: "bytes \<times> nat" and s :: "'a stage_st_scheme"
  have o: "kept_by any t (over_try run eff i d (x, t))" for d and t :: "'a stage_st_scheme"
    by (rule keepsD [OF keeps_over_try]) simp
  have "safe (\<lambda>(r, t). kept s t) (UR E n s)" for n
    by (cases "n = 0") (auto intro!: safeI steady_kept rng_only_steady(1) UR_rng_only simp: UR_def Let_def)
  then have "kept_by any s (bnd (UR E (of_nat (length (extras s))) s) (\<lambda>(r, s1).
      if unat r \<ge> MAX_DET_EXTRAS then Inr (False, x, drop_slots 1 s1)
      else over_try run eff i (x_data (extras s1 ! j)) (x, s1)))"
    unfolding kept_by_def
  proof (rule safe_bnd, goal_cases)
    case (1 r)
    obtain k t where r: "r = (k, t)" by fastforce
    have "kept_by any s (over_try run eff i (x_data (extras t ! j)) (x, t))"
      by (rule kept_by_trans [OF _ o]) (use 1 r in simp)
    then show ?case using 1 by (simp add: r drop_slots_def kept_by_def)
  qed
  then show "kept_by any s (user_over_try E run eff i j (x, s))"
    using o by (simp add: user_over_try_def)
qed

lemma keeps_auto_over_try: "keeps any any (auto_over_try run eff i j)"
  using keeps_over_try by (auto simp: keeps_def auto_over_try_def)

lemma keeps_over_body:
  fixes f :: "nat \<Rightarrow> nat \<Rightarrow> (bytes \<times> nat) \<times> 'a stage_st_scheme \<Rightarrow> (bool \<times> (bytes \<times> nat) \<times> 'a stage_st_scheme) res"
  assumes "\<And>i j. keeps any any (f i j)"
  shows "keeps any any (over_body f n in_buf i)"
proof (rule keepsI)
  fix out and s :: "'a stage_st_scheme"
  have "kept_by any (set_byte i s) (for_each [0..<n] (f i) ((out, 0), set_byte i s))"
    by (rule keepsD [OF keeps_for_each [OF assms]]) simp
  then have "kept_by any s (for_each [0..<n] (f i) ((out, 0), set_byte i s))"
    by (rule kept_by_trans [rotated]) (simp add: set_byte_def)
  then show "kept_by any s (over_body f n in_buf i (out, s))"
    unfolding over_body_def prod.case kept_by_def by (rule safe_bnd) auto
qed

lemma overs_kept_by: "kept_by any s (extras_over E run eff in_buf (out, s))" "kept_by any s (auto_extras_over run eff in_buf (out, s))"
proof -
  have "kept_by any s (staged k short m (for_each is (over_body f n in_buf)) (val_type_is ty (out, s)))"
    if "\<And>i j. keeps any any (f i j)" for k short m "is" f n ty
  proof -
    have "kept_by any (s\<lparr>stage_val_type := ty\<rparr>) (staged k short m (for_each is (over_body f n in_buf)) (out, s\<lparr>stage_val_type := ty\<rparr>))"
      by (rule kept_by_staged [OF keeps_for_each [OF keeps_over_body [OF that]]]) simp
    then have "kept_by any s (staged k short m (for_each is (over_body f n in_buf)) (out, s\<lparr>stage_val_type := ty\<rparr>))"
      by (rule kept_by_trans [rotated]) simp
    then show ?thesis by (simp add: val_type_is_def)
  qed
  from this [OF keeps_user_over_try] this [OF keeps_auto_over_try]
  show "kept_by any s (extras_over E run eff in_buf (out, s))" "kept_by any s (auto_extras_over run eff in_buf (out, s))"
    by (simp_all add: extras_over_def auto_extras_over_def Let_def)
qed

lemma keeps_insert_try: "keeps any any (insert_try run out i j)"
proof (rule keepsI)
  fix ex and s :: "'a stage_st_scheme"
  have "kept_by any s (bnd (run b s) (\<lambda>(stop, s').
      if stop then Inr (True, e, s') else Inr (False, e, s'\<lparr>stage_cur := stage_cur s' + 1\<rparr>)))" for b and e :: bytes
    unfolding kept_by_def by (rule safe_bnd [OF run_safe]) auto
  then show "kept_by any s (insert_try run out i j (ex, s))"
    by (simp add: insert_try_def Let_def drop_slots_def)
qed

lemma keeps_insert_body: "keeps any any (insert_body run out n i)"
proof (rule keepsI)
  fix ex and s :: "'a stage_st_scheme"
  have "kept_by any (set_byte i s) (for_each [0..<n] (insert_try run out i) (ex, set_byte i s))"
    by (rule keepsD [OF keeps_for_each [OF keeps_insert_try]]) simp
  then have "kept_by any s (for_each [0..<n] (insert_try run out i) (ex, set_byte i s))"
    by (rule kept_by_trans [rotated]) (simp add: set_byte_def)
  then show "kept_by any s (insert_body run out n i (ex, s))"
    unfolding insert_body_def prod.case by (rule kept_by_cont) (simp add: keeps_def)
qed

lemma extras_insert_kept_by: "kept_by any s (extras_insert run (out, s))"
proof -
  have "kept_by any s (staged STAGE_EXTRAS_UI ''ext_UI'' m (for_each is (insert_body run out n)) (ex, s))" for m "is" n ex
    by (rule kept_by_staged [OF keeps_for_each [OF keeps_insert_body]]) simp
  then show ?thesis
    unfolding extras_insert_def prod.case Let_def kept_by_def by (rule safe_bnd) auto
qed

subsection \<open>The deterministic part\<close>

lemma keeps_stages:
  "keeps any any (byteflip2 run eff)" "keeps any any (byteflip4 run eff)"
  "keeps any any (arith8 run eff)" "keeps any any (arith16 run eff)" "keeps any any (arith32 run eff)"
  "keeps any any (interest8 run eff)" "keeps any any (interest16 run eff)" "keeps any any (interest32 run eff)"
  "keeps any any (bitflip1 E q run)" "keeps any any (bitflip2 run)" "keeps any any (bitflip4 run)"
  "keeps any any (byteflip1 q run)" "keeps any any (extras_over E run eff in_buf)"
  "keeps any any (auto_extras_over run eff in_buf)" "keeps any any (extras_insert run)"
  by (rule keepsI, (rule outcome_kept_by [OF wordflip_outcomes(1)] outcome_kept_by [OF wordflip_outcomes(2)]
      outcome_kept_by [OF arith_outcomes(1)] outcome_kept_by [OF arith_outcomes(2)] outcome_kept_by [OF arith_outcomes(3)]
      outcome_kept_by [OF interest_outcomes(1)] outcome_kept_by [OF interest_outcomes(2)]
      outcome_kept_by [OF interest_outcomes(3)] bitflip1_kept_by bitflips_kept_by byteflip1_kept_by overs_kept_by
      extras_insert_kept_by))+

lemma keeps_ariths: "keeps any any (ariths noar run eff)"
proof (rule keepsI)
  fix out and s :: "'a stage_st_scheme"
  have "keeps any any (unless noar (\<lambda>w. cont (arith8 run eff w) (unless b (\<lambda>w.
      cont (arith16 run eff w) (unless c (arith32 run eff))))))" for b c
    by (intro keeps_unless keeps_seq keeps_stages)
  then show "kept_by any s (ariths noar run eff (out, s))" by (simp add: ariths_def keeps_def Let_def)
qed

lemma keeps_interests: "keeps any any (interests noar run eff)"
proof (rule keepsI)
  fix out and s :: "'a stage_st_scheme"
  have "keeps any any (\<lambda>w. cont (interest8 run eff w) (unless b (\<lambda>w.
      cont (interest16 run eff w) (unless c (interest32 run eff)))))" for b c
    by (intro keeps_unless keeps_seq keeps_stages)
  then show "kept_by any s (interests noar run eff (out, s))" by (simp add: interests_def keeps_def Let_def)
qed

lemma keeps_dictionary: "keeps any any (dictionary E run eff in_buf)"
proof (rule keepsI)
  fix out and s :: "'a stage_st_scheme"
  have a: "keeps any any (\<lambda>w. unless (a_extras (snd w) = []) (auto_extras_over run eff in_buf) w)"
    using keeps_stages(14) by (simp add: keeps_def unless_def)
  have "keeps any any (unless b (\<lambda>w. cont (extras_over E run eff in_buf w) (extras_insert run)))" for b
    by (intro keeps_unless keeps_seq keeps_stages)
  then show "kept_by any s (dictionary E run eff in_buf (out, s))"
    unfolding dictionary_def by (intro kept_by_cont [OF keepsD a]) simp_all
qed

lemma bitflips_kept_by_all: "kept_by any s (bitflips E q run (out, s))"
proof -
  have "keeps any any (\<lambda>w. cont (bitflip1 E q run w) (\<lambda>w. cont (bitflip2 run w) (bitflip4 run)))"
    by (intro keeps_seq keeps_stages)
  then have f: "kept_by any s (cont (bitflip1 E q run (out, s)) (\<lambda>w. cont (bitflip2 run w) (bitflip4 run)))"
    by (rule keepsD) simp
  let ?w = "\<lambda>((out, eff), s). bnd (unless (length out < 2) (\<lambda>w. cont (byteflip2 run eff w)
      (unless (length out < 4) (byteflip4 run eff))) (out, s)) (\<lambda>(stop, out, s). Inr (stop, (out, eff), s))"
  have w: "keeps any any ?w"
  proof (rule keepsI)
    fix x :: "bytes \<times> bool list" and s :: "'a stage_st_scheme"
    obtain out eff where x: "x = (out, eff)" by fastforce
    have "keeps any any (unless b (\<lambda>w. cont (byteflip2 run eff w) (unless c (byteflip4 run eff))))" for b c
      by (intro keeps_unless keeps_seq keeps_stages)
    then have "kept_by any s (unless (length out < 2) (\<lambda>w. cont (byteflip2 run eff w)
      (unless (length out < 4) (byteflip4 run eff))) (out, s))" by (rule keepsD) simp
    then show "kept_by any s (?w (x, s))" unfolding x prod.case kept_by_def by (rule safe_bnd) auto
  qed
  have "kept_by any t (cont (byteflip1 q run (out, t)) ?w)" for out and t :: "'a stage_st_scheme"
    by (rule kept_by_cont [OF _ w]) (rule keepsD [OF keeps_stages(12)], simp)
  note this [THEN kept_by_trans [rotated]]
  then show ?thesis
    using f unfolding bitflips_def kept_by_def Let_def
    by (elim safe_bnd) (auto simp: split_def)
qed

lemma deterministic_kept_by: "kept_by any s (deterministic E q noar run in_buf (out, s))"
proof -
  have "keeps any any (\<lambda>w. cont (ariths noar run eff w) (\<lambda>w. cont (interests noar run eff w) (dictionary E run eff in_buf)))" for eff
    by (intro keeps_seq keeps_ariths keeps_interests keeps_dictionary)
  then have "kept_by any t (cont (ariths noar run eff (out, t)) (\<lambda>w. cont (interests noar run eff w) (dictionary E run eff in_buf)))"
    for eff out t by (rule keepsD) simp
  note this [THEN kept_by_trans [rotated]]
  then show ?thesis
    using bitflips_kept_by_all unfolding deterministic_def kept_by_def
    by (intro safe_bnd [OF bitflips_kept_by_all [unfolded kept_by_def]]) (auto simp: split_def)
qed

end

subsection \<open>Havoc\<close>

text \<open>Without any assumption the tweaks may fail, but end, and only draw.\<close>

definition drawn :: "'a world_scheme \<Rightarrow> ('x \<times> 'a world_scheme) res \<Rightarrow> bool" where
  "drawn s r \<longleftrightarrow> (case r of Inl e \<Rightarrow> e \<noteq> Diverges | Inr (x, t) \<Rightarrow> rng_only s t)"

lemma drawn_simps [simp]: "drawn s (Inr (x, s))" "drawn s (Inl e) \<longleftrightarrow> e \<noteq> Diverges"
  by (simp_all add: drawn_def)

lemma drawn_bnd:
  assumes "drawn s m" and "\<And>p. drawn (snd p) (f p)"
  shows "drawn s (bnd m f)"
proof (cases m)
  case (Inr p)
  have "rng_only s (snd p)" using assms(1) Inr by (cases p) (simp add: drawn_def)
  then show ?thesis using assms(2) [of p] Inr rng_only_trans by (auto simp: drawn_def split: sum.splits)
qed (use assms(1) in simp)

lemma drawn_if: "drawn s m \<Longrightarrow> drawn s n \<Longrightarrow> drawn s (if b then m else n)"
  by simp

lemma drawn_UR: "drawn s (UR E n s)"
  by (cases "n = 0") (auto simp: drawn_def UR_def Let_def rng_only_def no_rng_def)

lemmas drawn_intros = drawn_bnd drawn_if drawn_UR drawn_simps(1)

lemma drawn_UR_nat: "drawn s (UR_nat E n s)"
  unfolding UR_nat_def split_def by (intro drawn_intros)

lemma drawn_block: "drawn s (choose_block_len E n s)"
  unfolding choose_block_len_def Let_def split_def by (intro drawn_intros)

lemma drawn_fill: "drawn s (fill_byte E out s)"
  unfolding fill_byte_def split_def by (intro drawn_intros drawn_UR_nat)

lemma drawn_pick: "drawn s (pick_extra E s)"
  unfolding pick_extra_def Let_def split_def by (intro drawn_intros drawn_UR_nat)

lemma drawn_source: "drawn s (clone_source E c out s)"
  unfolding clone_source_def split_def by (intro drawn_intros drawn_UR_nat drawn_block)

lemma drawn_clone: "drawn s (tweak_clone E out s)"
proof (cases "length out + unat HAVOC_BLK_XL < MAX_FILE")
  case True
  show ?thesis unfolding tweak_clone_eq [OF True] split_def
    by (intro drawn_intros drawn_UR_nat drawn_fill drawn_source)
qed (simp add: tweak_clone_def)

lemma drawn_one_tweak: "drawn s (one_tweak E out s)"
  unfolding one_tweak_def tweak_def tweak_flip_def tweak_int8_def tweak_int16_def tweak_int32_def tweak_add8_def
    tweak_add16_def tweak_add32_def tweak_xor_def tweak_delete_def tweak_copy_def tweak_extra_over_def
    tweak_extra_insert_def Let_def split_def
  by (intro drawn_intros drawn_UR_nat drawn_block drawn_fill drawn_pick drawn_clone)

lemma drawn_stacked: "drawn s (stacked E n out s)"
proof -
  have "drawn s (fold_res (\<lambda>i (out, s). one_tweak E out s) is (out, s))" for "is" :: "nat list"
  proof (induction "is" arbitrary: out s)
    case (Cons i "is")
    have "drawn s (bnd (one_tweak E out s) (\<lambda>p. fold_res (\<lambda>i (out, s). one_tweak E out s) is (fst p, snd p)))"
      by (rule drawn_bnd [OF drawn_one_tweak Cons.IH])
    then show ?case by simp
  qed simp
  then show ?thesis by (simp add: stacked_def)
qed

lemma stacks_any: "stacks E (\<lambda>e. e \<noteq> Diverges) any in_buf s"
proof -
  have "tweaked (\<lambda>e. e \<noteq> Diverges) any t (stacked E n in_buf t)" for n and t :: "'a stage_st_scheme"
    using drawn_stacked [of t E n in_buf] by (auto simp: drawn_def tweaked_def split: sum.splits)
  then show ?thesis by (simp add: stacks_def)
qed

lemma booked_safe:
  assumes "havoc_booked (\<lambda>e. e \<noteq> Diverges) any run k s r" and "\<And>b u. ends (run b u)"
  shows "safe (\<lambda>(stop, t). kept s t) r"
  using assms by (auto simp: havoc_booked_def safe_def post_def ends_def rooted_kept split: sum.splits)

lemma havoc_stage_safe:
  assumes "2 \<le> perf" and "perf \<le> HAVOC_MAX_MULT * 100"
  shows "safe (\<lambda>(stop, t). kept s t) (havoc_stage E (common_fuzz_stuff E) sp det perf hdiv in_buf s)"
proof (cases "hdiv = 0")
  case False
  have "1 \<le> unat perf" "unat perf \<le> 1600" using assms by (simp_all add: word_le_nat_alt HAVOC_MAX_MULT_def)
  then show ?thesis
    using booked_safe [OF fuzz_run.havoc_stage_outcome [OF stacks_any _ _ False, where E = E] common_fuzz_stuff_ends] by blast
qed (simp add: havoc_stage_def safe_def)

interpretation fuzz_sure: sure_executor "common_fuzz_stuff E" for E
  by unfold_locales simp

end
