(* ===== verification/FuzzRuns.thy ===== *)
theory FuzzRuns
  imports Ending
begin

unbundle bit_operations_syntax

section \<open>fuzz_one returns\<close>

text \<open>
  \<open>pick_tid\<close> draws until it gets another entry than the current one; it returns when the random
  sequence of no seed repeats itself for 5000 draws (\<open>lively\<close>), the least number of draws between two
  seeds. With that, \<open>fuzz_one\<close> as a whole returns and leaves the relation \<open>kept\<close>.
\<close>

subsection \<open>Computations that end under a condition\<close>

definition sure :: "bool \<Rightarrow> ('a \<Rightarrow> bool) \<Rightarrow> 'a res \<Rightarrow> bool" where
  "sure b P m \<longleftrightarrow> (b \<longrightarrow> ends m) \<and> post P m"

lemma sure_simps [simp]: "sure b P (Inr x) \<longleftrightarrow> P x" "sure b P (Inl e) \<longleftrightarrow> (b \<longrightarrow> e \<noteq> Diverges)"
  by (auto simp: sure_def)

lemma safe_sure: "safe P m \<Longrightarrow> sure b P m"
  by (simp add: safe_def sure_def)

lemma sure_safe: "sure True P m \<longleftrightarrow> safe P m"
  by (simp add: safe_def sure_def)

lemma sure_bnd: "sure b Q m \<Longrightarrow> (\<And>x. Q x \<Longrightarrow> sure b P (f x)) \<Longrightarrow> sure b P (bnd m f)"
  by (cases m) (auto simp: sure_def)

lemma sure_mono: "sure b P m \<Longrightarrow> (\<And>x. P x \<Longrightarrow> Q x) \<Longrightarrow> sure b Q m"
  unfolding sure_def using post_mono by blast

lemma sureI: "(b \<Longrightarrow> ends m) \<Longrightarrow> (\<And>x. m = Inr x \<Longrightarrow> P x) \<Longrightarrow> sure b P m"
  by (simp add: sure_def postI)

subsection \<open>Picking another entry\<close>

definition lively :: "env \<Rightarrow> bool" where
  "lively E \<longleftrightarrow> (\<forall>seed m c. 1 < m \<longrightarrow> (\<exists>k < 5000. random_of E seed k mod m \<noteq> c))"

definition picked :: "'a stage_st_scheme \<Rightarrow> (u32 \<times> 'a stage_st_scheme) res \<Rightarrow> bool" where
  "picked s r \<longleftrightarrow> (\<exists>tid t. r = Inr (tid, t) \<and> tid \<noteq> current_entry s \<and> tid < queued_paths s \<and> rng_only s t)"

lemma rng_only_queue:
  fixes s t :: "'a stage_st_scheme"
  assumes "rng_only s t"
  shows "current_entry t = current_entry s" "queued_paths t = queued_paths s" "queue t = queue s" "entries t = entries s"
proof -
  have e: "no_rng s = no_rng t" using assms by (simp add: rng_only_def)
  show "current_entry t = current_entry s" using arg_cong [OF e, of current_entry] by (simp add: no_rng_def)
  show "queued_paths t = queued_paths s" using arg_cong [OF e, of queued_paths] by (simp add: no_rng_def)
  show "queue t = queue s" using arg_cong [OF e, of queue] by (simp add: no_rng_def)
  show "entries t = entries s" using arg_cong [OF e, of entries] by (simp add: no_rng_def)
qed

lemma picked_step:
  fixes s t :: "'a stage_st_scheme"
  assumes u: "UR E (queued_paths s) s = Inr (tid, t)"
    and again: "tid = current_entry s \<Longrightarrow> \<exists>r. pick_tid E t = Some r \<and> picked t r"
  shows "\<exists>r. pick_tid E s = Some r \<and> picked s r"
proof -
  have o: "rng_only s t" using u by (rule UR_rng_only)
  show ?thesis
  proof (cases "tid = current_entry s")
    case True
    have "picked s r" if "picked t r" for r
      using that o rng_only_queue(1,2) [OF o] rng_only_trans by (fastforce simp: picked_def)
    then show ?thesis using again [OF True] u True rng_only_queue(1) [OF o] by (subst pick_tid.simps) auto
  next
    case False
    then show ?thesis using u o rng_only_queue(1) [OF o] UR_bound [OF u]
      by (subst pick_tid.simps) (auto simp: picked_def)
  qed
qed

text \<open>While no new seed is due, the draw at position \<open>k\<close> is reached.\<close>

lemma pick_tid_before_reseed:
  fixes s :: "'a stage_st_scheme"
  assumes "random_of E (rng_seed s) k mod queued_paths s \<noteq> current_entry s" and "queued_paths s \<noteq> 0"
    and "rng_pos s \<le> k" and "k - rng_pos s < unat (rand_cnt s)"
  shows "\<exists>r. pick_tid E s = Some r \<and> picked s r"
  using assms
proof (induction "k - rng_pos s" arbitrary: s)
  case 0
  let ?t = "s\<lparr>rand_cnt := rand_cnt s - 1, rng_pos := Suc (rng_pos s)\<rparr>"
  have "rand_cnt s \<noteq> 0" using "0.prems"(4) by auto
  then have "UR E (queued_paths s) s = Inr (random_of E (rng_seed s) (rng_pos s) mod queued_paths s, ?t)"
    using "0.prems"(2) by (simp add: UR_def Let_def)
  then show ?case by (rule picked_step) (use 0 in simp)
next
  case (Suc d)
  let ?t = "s\<lparr>rand_cnt := rand_cnt s - 1, rng_pos := Suc (rng_pos s)\<rparr>"
  have c: "rand_cnt s \<noteq> 0" using Suc.prems(4) by auto
  then have "unat (rand_cnt s - 1) = unat (rand_cnt s) - 1" by (simp add: unat_minus_one)
  then have "\<exists>r. pick_tid E ?t = Some r \<and> picked ?t r"
    using Suc.hyps(2) Suc.prems by (intro Suc.hyps(1)) auto
  moreover have "UR E (queued_paths s) s = Inr (random_of E (rng_seed s) (rng_pos s) mod queued_paths s, ?t)"
    using c Suc.prems(2) by (simp add: UR_def Let_def)
  ultimately show ?case using picked_step by blast
qed

lemma pick_tid_returns:
  fixes s :: "'a stage_st_scheme"
  assumes l: "lively E" and q: "1 < queued_paths s"
  shows "\<exists>r. pick_tid E s = Some r \<and> picked s r"
  using q
proof (induction "unat (rand_cnt s)" arbitrary: s)
  case 0
  then have c: "rand_cnt s = 0" by (simp add: unat_eq_0)
  define seed where "seed = urandom E (urandom_pos s)"
  let ?c = "RESEED_RNG div 2 + snd seed mod RESEED_RNG"
  let ?t = "s\<lparr>rand_cnt := ?c, urandom_pos := Suc (urandom_pos s), rng_seed := fst seed, rng_pos := Suc 0\<rparr>"
  have q0: "queued_paths s \<noteq> 0" using "0.prems" by auto
  have u: "UR E (queued_paths s) s = Inr (random_of E (fst seed) 0 mod queued_paths s, ?t)"
    using c q0 by (simp add: UR_def Let_def seed_def)
  obtain k where k: "k < 5000" "random_of E (fst seed) k mod queued_paths s \<noteq> current_entry s"
    using l "0.prems" unfolding lively_def by blast
  have "unat (snd seed mod RESEED_RNG) < 10000"
    by (simp add: unat_mod RESEED_RNG_def)
  then have r: "5000 \<le> unat ?c" by (simp add: unat_word_ariths RESEED_RNG_def)
  show ?case
  proof (rule picked_step [OF u])
    assume e: "random_of E (fst seed) 0 mod queued_paths s = current_entry s"
    have "0 < k" using k(2) e by (cases k) auto
    then show "\<exists>r. pick_tid E ?t = Some r \<and> picked ?t r"
      using k q0 r by (intro pick_tid_before_reseed [where k = k]) auto
  qed
next
  case (Suc n)
  let ?t = "s\<lparr>rand_cnt := rand_cnt s - 1, rng_pos := Suc (rng_pos s)\<rparr>"
  have c: "rand_cnt s \<noteq> 0" using Suc.hyps(2) by auto
  have q0: "queued_paths s \<noteq> 0" using Suc.prems by auto
  have "n = unat (rand_cnt ?t)" using Suc.hyps(2) c by (simp add: unat_minus_one)
  then have "\<exists>r. pick_tid E ?t = Some r \<and> picked ?t r" using Suc.prems by (intro Suc.hyps(1)) simp_all
  moreover have "UR E (queued_paths s) s = Inr (random_of E (rng_seed s) (rng_pos s) mod queued_paths s, ?t)"
    using c q0 by (simp add: UR_def Let_def)
  ultimately show ?case using picked_step by blast
qed

text \<open>Whatever the sequence, an answer is another entry.\<close>

lemma pick_tid_answer:
  assumes "pick_tid E s = Some r" shows "r = Inl DivByZero \<or> picked s r"
proof (rule pick_tid.raw_induct [OF _ assms, where P = "\<lambda>E s r. r = Inl DivByZero \<or> picked s r"], goal_cases)
  case (1 pick E s r)
  show ?case
  proof (cases "UR E (queued_paths s) s")
    case (Inl e)
    then show ?thesis using 1(2) by (cases "queued_paths s = 0") (auto simp: UR_def Let_def)
  next
    case (Inr p)
    obtain tid t where p: "p = (tid, t)" by fastforce
    have o: "rng_only s t" using Inr p UR_rng_only by blast
    show ?thesis
    proof (cases "tid = current_entry t")
      case True
      then have "r = Inl DivByZero \<or> picked t r" using 1 Inr p by simp
      then show ?thesis using o rng_only_queue(1,2) [OF o] rng_only_trans by (fastforce simp: picked_def)
    next
      case False
      then show ?thesis using 1(2) Inr p o UR_bound [of E "queued_paths s" s tid t] rng_only_queue(1) [OF o]
        by (auto simp: picked_def)
    qed
  qed
qed

lemma sure_weaken: "sure c P m \<Longrightarrow> (b \<Longrightarrow> c) \<Longrightarrow> sure b P m"
  by (auto simp: sure_def)

lemma rng_only_kept: "rng_only s t \<Longrightarrow> kept s t"
  by (rule steady_kept [OF rng_only_steady(1)])

lemma drawn_sure: "drawn s m \<Longrightarrow> sure b (\<lambda>(x, t). kept s t) m"
  by (auto simp: drawn_def sure_def post_def ends_def intro: rng_only_kept split: sum.splits)

lemma pick_tid_sure:
  "sure (lively E \<and> 1 < queued_paths s) (\<lambda>(tid, t). rng_only s t) (case pick_tid E s of None \<Rightarrow> Inl Diverges | Some r \<Rightarrow> r)"
proof (cases "pick_tid E s")
  case None
  then show ?thesis using pick_tid_returns [of E s] by auto
next
  case (Some r)
  then show ?thesis using pick_tid_answer [OF Some] by (auto simp: picked_def)
qed

subsection \<open>Finding the entry\<close>

definition in_queue :: "'a queue_st_scheme \<Rightarrow> nat option \<Rightarrow> bool" where
  "in_queue s r \<longleftrightarrow> (\<forall>p. r = Some p \<longrightarrow> p < length (entries s))"

lemma list_top_steps:
  assumes "list_top s" and "p < length (entries s)"
  shows "q_next (ent s p) = (if Suc p < length (entries s) then Some (Suc p) else None)"
    and "in_queue s (q_next (ent s p))" and "in_queue s (next_100 (ent s p))" and "in_queue s (queue s)"
proof -
  show n: "q_next (ent s p) = (if Suc p < length (entries s) then Some (Suc p) else None)"
    using assms by (simp add: list_top_def list_wf_def)
  then show "in_queue s (q_next (ent s p))" by (simp add: in_queue_def)
  have "next_100 (ent s p) \<in> set (map next_100 (entries s))" using assms(2) by (simp add: ent_def)
  then show "in_queue s (next_100 (ent s p))" using assms(1) by (auto simp: list_top_def in_queue_def)
  show "in_queue s (queue s)" using assms by (auto simp: list_top_def list_wf_def in_queue_def)
qed

lemma seek_entry_sure:
  assumes "in_queue s tgt" and "list_top s"
  shows "safe (in_queue s) (seek_entry s tid tgt)"
  using assms(1)
proof (induction tid arbitrary: tgt rule: less_induct)
  case (less tid)
  show ?case
  proof (cases "tid = 0 \<or> tgt = None")
    case False
    then obtain p where p: "tgt = Some p" "p < length (entries s)" "tid \<noteq> 0" using less.prems by (auto simp: in_queue_def)
    then show ?thesis using less.IH list_top_steps(2,3) [OF assms(2) p(2)] by (subst seek_entry.simps) simp
  qed (use less.prems in \<open>subst seek_entry.simps, auto simp: safe_def\<close>)
qed

lemma skip_short_kept: "post (\<lambda>(r, t). kept s t) (skip_short n q tgt s)"
proof (induction n arbitrary: tgt s)
  case 0
  then show ?case by (cases tgt) simp_all
next
  case (Suc n)
  show ?case
  proof (cases tgt)
    case (Some p)
    have "post (\<lambda>(r, t). kept s t) (skip_short n q (q_next (ent s p)) (s\<lparr>splicing_with := splicing_with s + 1\<rparr>))"
      by (rule post_mono [OF Suc]) (auto intro: kept_trans [rotated])
    then show ?thesis using Some by simp
  qed simp
qed

lemma skip_short_ends:
  assumes "list_top s" and "in_queue s tgt" and "\<And>p. tgt = Some p \<Longrightarrow> length (entries s) \<le> n + p"
  shows "ends (skip_short n q tgt s)"
  using assms
proof (induction n arbitrary: tgt s)
  case 0
  then show ?case by (cases tgt) (auto simp: in_queue_def)
next
  case (Suc n)
  show ?case
  proof (cases tgt)
    case (Some p)
    let ?s = "s\<lparr>splicing_with := splicing_with s + 1\<rparr>"
    have l: "list_top ?s \<longleftrightarrow> list_top s" by (rule links_top) simp
    have p: "p < length (entries s)" using Suc.prems(2) Some by (simp add: in_queue_def)
    have "ends (skip_short n q (q_next (ent s p)) ?s)"
    proof (rule Suc.IH)
      show "list_top ?s" using l Suc.prems(1) by (simp only:)
      show "in_queue ?s (q_next (ent s p))" using list_top_steps(2) [OF Suc.prems(1) p] by (simp add: in_queue_def)
      fix r assume "q_next (ent s p) = Some r"
      then have "r = Suc p" using list_top_steps(1) [OF Suc.prems(1) p] by (simp split: if_splits)
      then show "length (entries ?s) \<le> n + r" using Suc.prems(3) [OF Some] by simp
    qed
    then show ?thesis using Some by simp
  qed simp
qed

lemma read_target_ends [simp]: "ends (read_target p s)"
  by (simp add: read_target_def split: option.split)

lemma kept_splicing [simp]: "kept (s\<lparr>splicing_with := w\<rparr>) t \<longleftrightarrow> kept s t"
  by (simp add: kept_def queue_wf_def list_top_def list_wf_def ent_def)

lemma find_target_sure:
  "sure (list_top s) (\<lambda>(r, t). kept s t)
     (bnd (seek_entry s tid (queue s)) (\<lambda>tgt. skip_short (length (entries s)) q tgt s))"
proof (cases "list_top s \<and> entries s \<noteq> []")
  case True
  then have "in_queue s (queue s)" using list_top_steps(4) [of s 0] by simp
  then have "safe (in_queue s) (seek_entry s tid (queue s))" using True by (intro seek_entry_sure) simp_all
  then have "safe (\<lambda>(r, t). kept s t) (bnd (seek_entry s tid (queue s)) (\<lambda>tgt. skip_short (length (entries s)) q tgt s))"
    by (rule safe_bnd) (use True skip_short_ends [of s] skip_short_kept in \<open>auto simp: safe_def\<close>)
  then show ?thesis by (rule safe_sure)
next
  case False
  have "list_top s \<Longrightarrow> queue s = None" using False by (simp add: list_top_def list_wf_def)
  then have "list_top s \<Longrightarrow> ends (bnd (seek_entry s tid (queue s)) (\<lambda>tgt. skip_short (length (entries s)) q tgt s))"
    by (subst seek_entry.simps) simp
  moreover have "post (\<lambda>(r, t). kept s t) (bnd (seek_entry s tid (queue s)) (\<lambda>tgt. skip_short (length (entries s)) q tgt s))"
    by (rule post_bnd_any) (rule skip_short_kept)
  ultimately show ?thesis by (simp add: sure_def)
qed

subsection \<open>Splicing and havoc\<close>

lemma splice_attempt_sure:
  "sure (lively E \<and> 1 < queued_paths s \<and> list_top s) (\<lambda>(b, t). kept s t) (splice_attempt E q in_buf s)"
  (is "sure ?b _ _")
  unfolding splice_attempt_def Let_def
proof (rule sure_bnd [OF sure_weaken [OF pick_tid_sure]], blast, goal_cases)
  case (1 x)
  obtain tid t where x: "x = (tid, t)" by fastforce
  let ?t = "t\<lparr>splicing_with := tid\<rparr>"
  have k: "kept s ?t" using 1 x rng_only_kept by simp
  have f: "sure ?b (\<lambda>(r, u). kept ?t u)
     (bnd (seek_entry ?t (unat tid) (queue ?t)) (\<lambda>tgt. skip_short (length (entries ?t)) q tgt ?t))"
    by (rule sure_weaken [OF find_target_sure]) (use k in \<open>simp only: kept_def\<close>)
  show ?case
    unfolding x prod.case bnd_assoc [symmetric]
  proof (rule sure_bnd [OF f], goal_cases)
    case (1 y)
    obtain tgt u where y: "y = (tgt, u)" by fastforce
    have u: "kept s u" using 1 k kept_trans y by auto
    show ?case
    proof (cases tgt)
      case (Some p)
      have "sure ?b (\<lambda>_. True) (read_target p u)" by (auto intro: sureI)
      moreover have "sure ?b (\<lambda>(b, w). kept s w) (bnd (UR_nat E n u) (\<lambda>(r, v). Inr (g r, v)))" for n and g :: "nat \<Rightarrow> bytes option"
        by (rule sure_bnd [OF drawn_sure [OF drawn_UR_nat]]) (auto intro: kept_trans [OF u])
      ultimately show ?thesis
        using u Some y by (auto intro!: sure_bnd [where Q = "\<lambda>_. True"] split: prod.split option.split)
    qed (use u y in simp)
  qed
qed

lemma fuzz_st_kept:
  fixes s t :: "'a fuzz_st_scheme"
  assumes "kept s t"
  shows "queue_cur t = queue_cur s" "havoc_div t = havoc_div s" "fuzz_st.more t = fuzz_st.more s"
proof -
  have m: "stage_st.more t = stage_st.more s" using assms by (simp only: kept_def)
  show "queue_cur t = queue_cur s" "havoc_div t = havoc_div s" "fuzz_st.more t = fuzz_st.more s"
    using m by (cases s; cases t; simp)+
qed

lemma splicing_sure:
  fixes s :: "'a fuzz_st_scheme"
  shows "sure (lively E \<and> list_top s) (\<lambda>(b, t). kept s t \<and> (\<forall>buf l. b = Some (buf, l) \<longrightarrow> l < left))
    (splicing E q in_buf left s)"
proof (induction left arbitrary: s)
  case 0
  then show ?case by (subst splicing.simps) simp
next
  case (Suc n)
  show ?case
  proof (cases "use_splicing s \<and> 1 < queued_paths s \<and> 1 < q_len (ent s q)")
    case True
    have "sure (lively E \<and> list_top s) (\<lambda>(b, t). kept s t \<and> (\<forall>buf l. b = Some (buf, l) \<longrightarrow> l < Suc n))
      (bnd (splice_attempt E q in_buf s) (\<lambda>(b, s'). case b of Some buf \<Rightarrow> Inr (Some (buf, Suc n - 1), s')
         | None \<Rightarrow> splicing E q in_buf (Suc n - 1) s'))"
    proof (rule sure_bnd [OF sure_weaken [OF splice_attempt_sure]], use True in blast, goal_cases)
      case (1 x)
      obtain b t where x: "x = (b, t)" by fastforce
      have k: "kept s t" using 1 x by simp
      show ?case
      proof (cases b)
        case None
        have "sure (lively E \<and> list_top s) (\<lambda>(b, u). kept t u \<and> (\<forall>buf l. b = Some (buf, l) \<longrightarrow> l < n)) (splicing E q in_buf n t)"
          by (rule sure_weaken [OF Suc]) (use k in \<open>simp only: kept_def\<close>)
        then have "sure (lively E \<and> list_top s) (\<lambda>(b, u). kept s u \<and> (\<forall>buf l. b = Some (buf, l) \<longrightarrow> l < Suc n)) (splicing E q in_buf n t)"
          by (rule sure_mono) (use k kept_trans less_Suc_eq in \<open>fastforce\<close>)
        then show ?thesis by (simp add: x None)
      qed (use k x in simp)
    qed
    then show ?thesis using True by (subst splicing.simps) simp
  next
    case False
    then show ?thesis by (subst splicing.simps) auto
  qed
qed

lemma havoc_rounds_sure:
  fixes s :: "'a fuzz_st_scheme"
  assumes "2 \<le> perf" and "perf \<le> HAVOC_MAX_MULT * 100" and "left < n"
  shows "sure (lively E \<and> list_top s) (\<lambda>(stop, t). kept s t)
    (havoc_rounds E (common_fuzz_stuff E) q det perf orig_in n in_buf left s)"
  using assms(3)
proof (induction n arbitrary: in_buf left s)
  case (Suc n)
  have h: "sure (lively E \<and> list_top s) (\<lambda>(stop, t). kept s t)
      (havoc_stage E (common_fuzz_stuff E) (left < SPLICE_CYCLES) det perf (havoc_div s) in_buf s)"
    by (rule safe_sure [OF havoc_stage_safe [OF assms(1,2)]])
  show ?case
    unfolding havoc_rounds.simps cont_def
  proof (rule sure_bnd [OF h], goal_cases)
    case (1 x)
    obtain stop t where x: "x = (stop, t)" by fastforce
    have t: "kept s t" using 1 x by simp
    have "sure (lively E \<and> list_top s) (\<lambda>(stop, w). kept s w) (bnd (splicing E q orig_in left t) (\<lambda>(b, s2). case b of
         None \<Rightarrow> Inr (False, s2)
       | Some (buf, left') \<Rightarrow> havoc_rounds E (common_fuzz_stuff E) q det perf orig_in n buf left' s2))"
    proof (rule sure_bnd [OF sure_weaken [OF splicing_sure]], use t in \<open>simp only: kept_def\<close>, goal_cases)
      case (1 y)
      obtain b u where y: "y = (b, u)" by fastforce
      have u: "kept s u" using 1 y t kept_trans by auto
      show ?case
      proof (cases b)
        case (Some p)
        obtain buf l where p: "p = (buf, l)" by fastforce
        have "l < left" using 1 y Some p by simp
        then have "sure (lively E \<and> list_top s) (\<lambda>(stop, w). kept u w)
            (havoc_rounds E (common_fuzz_stuff E) q det perf orig_in n buf l u)"
          by (intro sure_weaken [OF Suc.IH]) (use Suc.prems u in \<open>simp_all only: kept_def, linarith?\<close>)
        then have "sure (lively E \<and> list_top s) (\<lambda>(stop, w). kept s w)
            (havoc_rounds E (common_fuzz_stuff E) q det perf orig_in n buf l u)"
          by (rule sure_mono) (use u kept_trans in auto)
        then show ?thesis by (simp add: y Some p)
      qed (use u y in simp)
    qed
    then show ?case using t x by (cases stop) simp_all
  qed
qed simp

subsection \<open>The whole routine\<close>

lemma links_kept:
  assumes "cal_view t = cal_view s" and "links t = links s" shows "kept s t"
proof -
  have v: "extras t = extras s" "a_extras t = a_extras s" "dumb_mode t = dumb_mode s" "TF_switch t = TF_switch s"
    "current_entry t = current_entry s" "queue_cycle t = queue_cycle s" "stage_st.more t = stage_st.more s"
    using assms(1) by (simp_all add: cal_view_def)
  show ?thesis using v links_wf(1,2) [OF assms(2)] links_top [OF assms(2)] by (simp add: kept_def)
qed

lemma upd_kept:
  assumes "\<And>e. q_next (f e) = q_next e" and "\<And>e. next_100 (f e) = next_100 e"
  shows "kept s (upd q f s)"
  by (rule links_kept) (simp_all add: assms)

lemma kept_links_update:
  assumes "kept s t" and "cal_view u = cal_view t" and "links u = links t" shows "kept s u"
  using assms(1) links_kept [OF assms(2,3)] by (rule kept_trans)

lemma skip_entry_sure: "sure b (\<lambda>(skip, t). rng_only s t) (skip_entry E q s)"
proof -
  have "sure b (\<lambda>(skip, t). rng_only s t) (chance E p s)" for p
    by (auto simp: chance_def UR_def Let_def rng_only_def no_rng_def)
  then show ?thesis by (simp add: skip_entry_def)
qed

lemma recalibrate_sure: "sure b (\<lambda>(stop, t). kept s t \<and> sizes t = sizes s) (recalibrate E q in_buf s)"
proof (cases "cal_failed (ent s q) = 0")
  case False
  have c: "sure b (\<lambda>(f, t). same s t) (if cal_failed (ent s q) < CAL_CHANCES then
      calibrate_case E q in_buf (ucast (queue_cycle s - 1)) False s else Inr (FAULT_TMOUT, s))"
    using calibrate_case_same by (auto simp: sure_def)
  have "sure b (\<lambda>(stop, t). kept s t \<and> sizes t = sizes s) (if res = FAULT_ERROR then Inl (Fatal ''Unable to execute target application'')
          else if stop_soon u \<or> res \<noteq> crash_mode u then Inr (True, u\<lparr>cur_skipped_paths := cur_skipped_paths u + 1\<rparr>)
          else Inr (False, u))" if "same s u" for res u
    using that same_kept [OF that] same_sizes [OF that] by simp
  then show ?thesis using False unfolding recalibrate_def
    by (simp only: if_False) (rule sure_bnd [OF c], auto simp: split_def)
qed (simp add: recalibrate_def)

lemma trim_case_sure:
  assumes "q < length (entries s)" and "length buf = unat (q_len (ent s q))"
  shows "sure (unat (q_len (ent s q)) \<le> 2 ^ 31) (\<lambda>(f, buf', t). kept s t) (trim_case E q buf s)"
proof (cases "unat (q_len (ent s q)) \<le> 2 ^ 31")
  case True
  then have "trim_outcome E q buf s (trim_case E q buf s)" using assms by (intro trim_case_outcome) simp_all
  then show ?thesis
    by (auto simp: trim_outcome_def resized_def sure_def post_def ends_def Let_def intro: links_kept split: sum.splits)
next
  case False
  then have "\<not> q_len (ent s q) < 5" by (simp add: word_less_nat_alt)
  then show ?thesis using False next_p2_diverges [of "q_len (ent s q)"]
    by (simp add: trim_case_def Let_def sure_def ent_def)
qed

lemma trim_entry_sure:
  assumes "q < length (entries s)" and "length buf = unat (q_len (ent s q))"
  shows "sure (unat (q_len (ent s q)) \<le> 2 ^ 31) (\<lambda>(stop, buf', t). kept s t) (trim_entry E q buf s)"
proof (cases "dumb_mode s = 0 \<and> \<not> trim_done (ent s q)")
  case True
  have "kept s (upd q (trim_done_update (\<lambda>_. True)) t)" if "kept s t" for t
    using that by (rule kept_trans) (rule upd_kept, simp_all)
  then show ?thesis unfolding trim_entry_def if_P [OF True]
    by (intro sure_bnd [OF trim_case_sure [OF assms]]) (auto simp: split_def)
next
  case False
  then show ?thesis by (auto simp: trim_entry_def)
qed

lemma mark_as_det_done_kept: "sure b (\<lambda>t. kept s t) (mark_as_det_done E q s)"
proof (cases "after_last CHR ''/'' (fname (ent s q))")
  case (Some fn)
  have "sure b (\<lambda>t. kept s t) (create_excl E f d s)" for f d
    by (rule sureI) (auto intro: same_kept create_excl_same)
  then show ?thesis
    unfolding mark_as_det_done_def Some option.case by (rule sure_bnd) (auto intro!: kept_trans [OF _ upd_kept])
qed (simp add: mark_as_det_done_def)

lemma fuzz_stages_sure:
  fixes s :: "'a fuzz_st_scheme"
  shows "sure (lively E \<and> list_top s) (\<lambda>(stop, t). kept s t) (fuzz_stages E q in_buf s)"
  (is "sure ?b _ _")
proof -
  have c: "sure ?b (\<lambda>(perf, t). 2 \<le> perf \<and> perf \<le> HAVOC_MAX_MULT * 100 \<and> kept s t) (calculate_score q s)"
    using calculate_score_outcome [of q s] by (auto simp: score_outcome_def intro: upd_kept split: sum.splits)
  have h: "sure ?b (\<lambda>(stop, w). kept s w)
      (havoc_rounds E (common_fuzz_stuff E) q det perf in_buf (Suc SPLICE_CYCLES) in_buf SPLICE_CYCLES t)"
    if "2 \<le> perf" "perf \<le> HAVOC_MAX_MULT * 100" "kept s t" for det perf and t :: "'a fuzz_st_scheme"
    by (rule sure_mono, rule sure_weaken [OF havoc_rounds_sure [OF that(1,2)]])
      (use that(3) in \<open>auto simp: kept_def intro: kept_trans [OF that(3)]\<close>)
  show ?thesis
    unfolding fuzz_stages_def Let_def
  proof (rule sure_bnd [OF c], goal_cases)
    case (1 x)
    obtain perf t where x: "x = (perf, t)" by fastforce
    have p: "2 \<le> perf" "perf \<le> HAVOC_MAX_MULT * 100" "kept s t" using 1 x by simp_all
    have d: "sure ?b (\<lambda>(stop, out, u). kept s u)
        (deterministic E q (no_arith t) (common_fuzz_stuff E) in_buf (in_buf, t))"
    proof -
      have "kept_by any t (deterministic E q (no_arith t) (common_fuzz_stuff E) in_buf (in_buf, t))"
        by (rule fuzz_sure.deterministic_kept_by)
      then show ?thesis unfolding kept_by_def
        by (intro safe_sure, elim safe_mono) (auto intro: kept_trans [OF p(3)])
    qed
    show ?case
    proof (cases "skip_det q t")
      case False
      have "sure ?b (\<lambda>(stop, w). kept s w)
          (bnd (deterministic E q (no_arith t) (common_fuzz_stuff E) in_buf (in_buf, t)) (\<lambda>(stop, out, s1).
         if stop then Inr (True, s1)
         else
           bnd (if passed_det (ent s1 q) then Inr s1 else mark_as_det_done E q s1) (\<lambda>s2.
             havoc_rounds E (common_fuzz_stuff E) q True perf in_buf (Suc SPLICE_CYCLES) in_buf SPLICE_CYCLES s2)))"
      proof (rule sure_bnd [OF d], goal_cases)
        case (1 y)
        obtain stop out u where y: "y = (stop, out, u)" by (cases y)
        have u: "kept s u" using 1 y by simp
        have m: "sure ?b (\<lambda>w. kept s w) (if passed_det (ent u q) then Inr u else mark_as_det_done E q u)"
          using u mark_as_det_done_kept [of ?b u E q] by (auto elim!: sure_mono intro: kept_trans)
        have "sure ?b (\<lambda>(stop, w). kept s w) (bnd (if passed_det (ent u q) then Inr u else mark_as_det_done E q u)
            (\<lambda>s2. havoc_rounds E (common_fuzz_stuff E) q True perf in_buf (Suc SPLICE_CYCLES) in_buf SPLICE_CYCLES s2))"
          by (rule sure_bnd [OF m]) (rule h [OF p(1,2)])
        then show ?case unfolding y prod.case using u by (cases stop) (simp_all only: if_True if_False sure_simps prod.case)
      qed
      then show ?thesis using False by (simp add: x)
    qed (use h p x in simp)
  qed
qed

lemma abandon_entry_kept: "kept s t \<Longrightarrow> kept s (abandon_entry q t)"
proof -
  assume "kept s t"
  then have k: "kept s (t\<lparr>splicing_with := -1\<rparr>)" by simp
  show ?thesis
    unfolding abandon_entry_def Let_def by (rule kept_links_update [OF k]) simp_all
qed

lemma fuzz_one_sure:
  fixes s :: "'a fuzz_st_scheme"
  assumes "queue_cur s = Some q" and "q < length (entries s)"
  shows "sure (lively E \<and> list_top s \<and> unat (q_len (ent s q)) \<le> 2 ^ 31) (\<lambda>(stop, t). kept s t) (fuzz_one E s)"
  (is "sure ?b _ _")
proof -
  have main: "sure ?b (\<lambda>(stop, t). kept s t) (cont (recalibrate E q in_buf u) (\<lambda>s2.
      bnd (trim_entry E q in_buf s2) (\<lambda>(stop, buf, s3).
        if stop then Inr (True, s3) else fuzz_stages E q buf s3)))"
    if u: "kept s u" "entries u = entries s" and len: "length in_buf = unat (q_len (ent s q))" for in_buf and u :: "'a fuzz_st_scheme"
    unfolding cont_def
  proof (rule sure_bnd [OF recalibrate_sure], goal_cases)
    case (1 x)
    obtain stop t where x: "x = (stop, t)" by fastforce
    have t: "kept s t" "sizes t = sizes s" using 1 x u kept_trans by (auto simp: sizes_def)
    have q: "q < length (entries t)" using t(1) assms(2) by (simp add: kept_def)
    have n: "q_len (ent t q) = q_len (ent s q)" using t(2) assms(2) by (rule sizes_ent)
    have "sure ?b (\<lambda>(stop, w). kept s w) (bnd (trim_entry E q in_buf t) (\<lambda>(stop, buf, s3).
        if stop then Inr (True, s3) else fuzz_stages E q buf s3))"
    proof (rule sure_bnd [OF sure_weaken [OF trim_entry_sure [OF q]]], use len n in simp, use n in simp, goal_cases)
      case (1 y)
      obtain stop buf v where y: "y = (stop, buf, v)" by (cases y)
      have v: "kept s v" using 1 y t(1) kept_trans by auto
      have "sure ?b (\<lambda>(stop, w). kept v w) (fuzz_stages E q buf v)"
        by (rule sure_weaken [OF fuzz_stages_sure]) (use v in \<open>simp add: kept_def\<close>)
      then have "sure ?b (\<lambda>(stop, w). kept s w) (fuzz_stages E q buf v)"
        by (rule sure_mono) (auto intro: kept_trans [OF v])
      then show ?case using v y by simp
    qed
    then show ?case using t x by simp
  qed
  show ?thesis
    unfolding fuzz_one_def assms(1) option.case Let_def
  proof (rule sure_bnd [OF skip_entry_sure], goal_cases)
    case (1 x)
    obtain skip t where x: "x = (skip, t)" by fastforce
    have o: "rng_only s t" using 1 x by simp
    have k: "kept s t" and e: "entries t = entries s" using rng_only_kept [OF o] rng_only_queue(4) [OF o] by simp_all
    let ?u = "t\<lparr>subseq_tmouts := 0, cur_depth := ucast (depth (ent t q))\<rparr>"
    have m: "sure ?b (\<lambda>b. length b = unat (q_len (ent s q))) (map_entry q t)"
      using e by (auto simp: map_entry_def ent_def split: option.splits)
    have "sure ?b (\<lambda>(stop, w). kept s w) (bnd (map_entry q t) (\<lambda>in_buf. bnd (cont (recalibrate E q in_buf ?u) (\<lambda>s2.
                 bnd (trim_entry E q in_buf s2) (\<lambda>(stop, buf, s3).
                   if stop then Inr (True, s3) else fuzz_stages E q buf s3)))
              (\<lambda>(stop, s4). Inr (stop, abandon_entry q s4))))"
    proof (rule sure_bnd [OF m], rule sure_bnd [OF main], goal_cases)
      case (4 in_buf z)
      then show ?case using abandon_entry_kept by auto
    qed (use k e in simp_all)
    then show ?case using k x by simp
  qed
qed

subsection \<open>The position a seek ends at\<close>

lemma queue_wf_links:
  assumes "queue_wf s" and "p < length (entries s)"
  shows "q_next (ent s p) = (if Suc p < length (entries s) then Some (Suc p) else None)"
    and "next_100 (ent s p) = (if (p = 0 \<or> Suc p mod 100 = 0) \<and> next_mark p < length (entries s) then Some (next_mark p) else None)"
  using assms by (simp_all add: queue_wf_def list_wf_def)

lemma seek_singles:
  assumes "queue_wf s" and "p + k < length (entries s)" and "k < 100"
  shows "seek_entry s k (Some p) = Inr (Some (p + k))"
  using assms(2,3)
proof (induction k arbitrary: p)
  case 0
  then show ?case by (subst seek_entry.simps) simp
next
  case (Suc k)
  have "q_next (ent s p) = Some (Suc p)" using queue_wf_links(1) [OF assms(1), of p] Suc.prems by simp
  moreover have "seek_entry s k (Some (Suc p)) = Inr (Some (Suc p + k))" by (rule Suc.IH) (use Suc.prems in simp_all)
  ultimately show ?case using Suc.prems by (subst seek_entry.simps) simp
qed

lemma seek_marks:
  assumes "queue_wf s" and "p + k < length (entries s)" and "Suc p mod 100 = 0"
  shows "seek_entry s k (Some p) = Inr (Some (p + k))"
  using assms(2,3)
proof (induction k arbitrary: p rule: less_induct)
  case (less k)
  show ?case
  proof (cases "k < 100")
    case True
    then show ?thesis using seek_singles [OF assms(1) less.prems(1)] by simp
  next
    case False
    obtain c where c: "Suc p = 100 * c" using less.prems(2) by auto
    have m: "next_mark p = p + 100" using c by (simp add: next_mark_def)
    have "next_100 (ent s p) = Some (p + 100)"
      using queue_wf_links(2) [OF assms(1), of p] less.prems False m by simp
    moreover have "seek_entry s (k - 100) (Some (p + 100)) = Inr (Some (p + 100 + (k - 100)))"
    proof (rule less.IH)
      have "Suc (p + 100) = 100 * (c + 1)" using c by simp
      then show "Suc (p + 100) mod 100 = 0" by (simp only: mod_mult_self1_is_0)
    qed (use less.prems False in simp_all)
    ultimately show ?thesis using False by (subst seek_entry.simps) simp
  qed
qed

text \<open>
  C26: The seek of \<open>retry_splicing\<close> refines indexing the queue, with a slip: in a well-formed queue the
  \<open>next_100\<close> and \<open>next\<close> steps for the number \<open>tid\<close> never meet a null link and end at entry \<open>tid\<close> when
  \<open>tid < 100\<close>, but at entry \<open>tid - 1\<close> from 100 on, because the first \<open>next_100\<close> link leads 99 entries
  ahead; the entry used is not the one that \<open>splicing_with\<close> records.
\<close>

theorem seek_entry_position:
  assumes "queue_wf s" and "tid < length (entries s)"
  shows "seek_entry s tid (queue s) = Inr (Some (if tid < 100 then tid else tid - 1))"
proof -
  have q: "queue s = Some 0" using assms by (auto simp: queue_wf_def list_wf_def)
  show ?thesis
  proof (cases "tid < 100")
    case True
    then show ?thesis using seek_singles [OF assms(1), of 0 tid] assms(2) q by simp
  next
    case False
    have m: "next_mark 0 = 99" by (simp add: next_mark_def)
    have "entries s \<noteq> []" "99 < length (entries s)" using assms(2) False by auto
    then have "next_100 (ent s 0) = Some 99" using queue_wf_links(2) [OF assms(1), of 0] m by simp
    moreover have "seek_entry s (tid - 100) (Some 99) = Inr (Some (99 + (tid - 100)))"
      by (rule seek_marks [OF assms(1)]) (use assms(2) False in simp_all)
    ultimately show ?thesis using False q by (subst seek_entry.simps) simp
  qed
qed

definition demo_queue :: main_st where
  "demo_queue = demo_main\<lparr>entries := [(new_entry ''q/a'' 3 False 0)\<lparr>q_next := Some 1\<rparr>, new_entry ''q/b'' 4 False 0],
     queue := Some 0, queue_top := Some 1, q_prev100 := Some 0, queued_paths := 2, queue_cur := Some 0\<rparr>"

lemma demo_queue_wf: "queue_wf demo_queue"
  by (auto simp: demo_queue_def demo_main_def queue_wf_def list_wf_def last_mark_def next_mark_def ent_def
      new_entry_def less_Suc_eq)

theorem seek_entry_position_witness: "seek_entry demo_queue 1 (queue demo_queue) = Inr (Some 1)"
  using seek_entry_position [OF demo_queue_wf, of 1] by (simp add: demo_queue_def)

subsection \<open>The property of fuzz_one\<close>

text \<open>
  C2: \<open>fuzz_one\<close> returns: started on an entry of a queue that is a list, with an entry of at most
  \<open>2^31\<close> bytes (what \<open>next_p2\<close> can handle), it ends with an answer or a fatal error whatever the target
  does, provided the random numbers are \<open>lively\<close>; and it leaves the relation \<open>kept\<close>: the options, the
  user tokens, the position in the queue and the cycle are untouched, the automatic tokens keep their
  invariant, and the queue is still a list, well formed while its counter does not wrap.
\<close>

theorem fuzz_one_returns:
  fixes s :: "'a fuzz_st_scheme"
  assumes "lively E" and "list_top s" and "queue_cur s = Some q" and "q < length (entries s)"
    and "unat (q_len (ent s q)) \<le> 2 ^ 31"
  shows "fuzz_one E s \<noteq> Inl Diverges \<and> (\<forall>stop t. fuzz_one E s = Inr (stop, t) \<longrightarrow> kept s t)"
  using fuzz_one_sure [OF assms(3,4), of E] assms(1,2,5) by (auto simp: sure_def ends_def post_def)

lemma demo_lively: "lively demo_env"
proof -
  have "\<exists>k < 5000. (of_nat k :: u32) mod m \<noteq> c" if "1 < m" for m c :: u32
  proof (cases "c = 0")
    case True
    have "1 mod m = 1" using that by (rule mod_word_less)
    then show ?thesis using True by (intro exI [of _ 1]) simp
  qed (intro exI [of _ 0], simp)
  then show ?thesis by (simp add: lively_def demo_env_def)
qed

theorem fuzz_one_returns_witness: "fuzz_one demo_env demo_queue \<noteq> Inl Diverges"
proof -
  have "list_top demo_queue" by (rule queue_wf_top [OF demo_queue_wf])
  moreover have "queue_cur demo_queue = Some 0" "0 < length (entries demo_queue)" "unat (q_len (ent demo_queue 0)) \<le> 2 ^ 31"
    by (simp_all add: demo_queue_def ent_def new_entry_def)
  ultimately show ?thesis using fuzz_one_returns [OF demo_lively] by blast
qed

end
