(* ===== verification/MainRuns.thy ===== *)
theory MainRuns
  imports FuzzRuns Mainloop Demo
begin

unbundle bit_operations_syntax

section \<open>The main loop\<close>

text \<open>
  Culling, starting a cycle and synchronising end and keep the queue a list; with \<open>fuzz_one\<close> they
  make each turn of the main loop end, and the invariant \<open>main_inv\<close> hold in every state the loop
  reaches.
\<close>

subsection \<open>Culling\<close>

text \<open>Walking the whole list meets every entry once, whatever the body does to an entry but its links.\<close>

lemma walk_sure:
  fixes s :: "'a stage_st_scheme"
  assumes body: "\<And>p b (s :: 'a stage_st_scheme). sure b (same s) (body p s)"
    and start: "b \<Longrightarrow> list_top s \<and> in_queue s r \<and> (\<forall>p. r = Some p \<longrightarrow> length (entries s) \<le> n + p)"
  shows "sure b (same s) (walk n body r s)"
  using start
proof (induction n arbitrary: r s)
  case 0
  then show ?case by (cases r) (auto simp: in_queue_def)
next
  case (Suc n)
  show ?case
  proof (cases r)
    case (Some p)
    have "sure b (same s) (bnd (body p s) (\<lambda>t. walk n body (q_next (ent t p)) t))"
    proof (rule sure_bnd [OF body], goal_cases)
      case (1 t)
      have l: "links t = links s" using 1 by (simp add: same_def)
      have "sure b (same t) (walk n body (q_next (ent t p)) t)"
      proof (rule Suc.IH)
        assume b: b
        have p: "p < length (entries t)" "length (entries t) \<le> Suc n + p" and t: "list_top t"
          using Suc.prems [OF b] Some links_wf(2) [OF l] links_top [OF l] by (simp_all add: in_queue_def)
        show "list_top t \<and> in_queue t (q_next (ent t p)) \<and> (\<forall>q. q_next (ent t p) = Some q \<longrightarrow> length (entries t) \<le> n + q)"
          using t p list_top_steps(1,2) [OF t p(1)] by (auto split: if_splits)
      qed
      then show ?case by (rule sure_mono) (rule same_trans [OF 1])
    qed
    then show ?thesis using Some by simp
  qed simp
qed

lemma walk_queue_sure:
  fixes s :: "'a stage_st_scheme"
  assumes "\<And>p b (s :: 'a stage_st_scheme). sure b (same s) (body p s)"
  shows "sure (list_top s) (same s) (walk_queue body s)"
  unfolding walk_queue_def
proof (rule walk_sure [OF assms])
  assume t: "list_top s"
  show "list_top s \<and> in_queue s (queue s) \<and> (\<forall>p. queue s = Some p \<longrightarrow> length (entries s) \<le> length (entries s) + p)"
    using t by (auto simp: list_top_def list_wf_def in_queue_def)
qed

lemma upd_same:
  assumes "\<And>e. q_next (f e) = q_next e" and "\<And>e. next_100 (f e) = next_100 e" and "\<And>e. q_len (f e) = q_len e"
  shows "same s (upd p f s)"
  by (simp add: same_def assms)

lemma same_top: "same s t \<Longrightarrow> list_top t = list_top s"
  using links_top [of t s] by (simp add: same_def)

lemma create_excl_sure: "same s t \<Longrightarrow> sure b (same s) (create_excl E fn d t)"
  by (rule sureI) (auto intro: same_trans create_excl_same)

lemma unlink_same: "unlink_file fn t = Some u \<Longrightarrow> same s t \<Longrightarrow> same s u"
  by (auto simp: unlink_file_def same_def split: if_splits)

lemma mark_as_redundant_sure: "sure b (same s) (mark_as_redundant E q st s)"
proof -
  have r: "same s (upd q (fs_redundant_update f) s)" for f by (rule upd_same) simp_all
  show ?thesis
    unfolding mark_as_redundant_def Let_def
    by (simp only: split: if_split option.split) (auto intro: create_excl_sure [OF r] unlink_same [OF _ r])
qed

lemma reset_favored_sure: "sure (list_top s) (same s) (reset_favored s)"
proof -
  let ?s = "s\<lparr>queued_favored := 0, pending_favored := 0\<rparr>"
  have s: "same s ?s" by (simp add: same_def)
  have "sure (list_top ?s) (same ?s) (walk_queue clear_favored ?s)"
    by (rule walk_queue_sure) (simp add: clear_favored_def upd_same)
  then have "sure (list_top s) (same ?s) (walk_queue clear_favored ?s)" by (simp only: same_top [OF s])
  then show ?thesis unfolding reset_favored_def by (rule sure_mono) (rule same_trans [OF s])
qed

lemma note_redundant_sure: "sure (list_top s) (same s) (walk_queue (note_redundant E) s)"
  by (rule walk_queue_sure) (simp only: note_redundant_def mark_as_redundant_sure)

lemma grab_winners_sure:
  fixes s :: "'a stage_st_scheme"
  shows "sure b (same s) (grab_winners rated s)"
proof -
  have step: "sure b (\<lambda>(v', t). same s t) (grab_step rated i (v, s))" for i v and s :: "'a stage_st_scheme"
    by (auto simp: grab_step_def Let_def same_def split: option.split)
  have "sure b (\<lambda>(v', t). same s t) (fold_res (grab_step rated) is (v, s))" for "is" v
  proof (induction "is" arbitrary: v s)
    case (Cons i "is")
    have "sure b (\<lambda>(v', t). same s t) (bnd (grab_step rated i (v, s)) (fold_res (grab_step rated) is))"
    proof (rule sure_bnd [OF step], goal_cases)
      case (1 x)
      then show ?case using Cons.IH [of "snd x" "fst x"] by (cases x) (auto elim!: sure_mono intro: same_trans)
    qed
    then show ?case by simp
  qed simp
  then show ?thesis unfolding grab_winners_def by (rule sure_bnd) auto
qed

lemma tf_grab_same:
  fixes s :: "'a stage_st_scheme"
  shows "same s (fold tf_grab_step is s)"
proof (induction "is" arbitrary: s)
  case (Cons i "is")
  have "same s (tf_grab_step i s)" by (auto simp: tf_grab_step_def Let_def same_def split: option.split)
  then show ?case using Cons.IH [of "tf_grab_step i s"] same_trans by auto
qed simp

lemma sure_same_bnd:
  fixes s :: "'a stage_st_scheme"
  assumes "sure (list_top s) (same s) m" and "\<And>t :: 'a stage_st_scheme. sure (list_top t) (same t) (f t)"
  shows "sure (list_top s) (same s) (bnd m f)"
proof (rule sure_bnd [OF assms(1)], goal_cases)
  case (1 t)
  have "sure (list_top s) (same t) (f t)" using assms(2) [of t] by (simp only: same_top [OF 1])
  then show ?case by (rule sure_mono) (rule same_trans [OF 1])
qed

lemma cull_queue_sure:
  fixes s :: "'a stage_st_scheme"
  shows "sure (list_top s) (same s) (cull_queue E s)"
proof -
  have g: "sure (list_top t) (same t) (if TF_switch t then Inr (fold tf_grab_step [0..<length (trace_bits t)] t)
      else grab_winners (top_rated t) t)" for t :: "'a stage_st_scheme"
    by (simp add: tf_grab_same grab_winners_sure)
  have m: "sure (list_top s) (same s) (cull_main E s)" for s :: "'a stage_st_scheme"
  proof (cases "dumb_mode s \<noteq> 0 \<or> \<not> score_changed s")
    case False
    let ?s = "(if TF_top_null s \<and> score_changed s then s\<lparr>TF_top_null := False\<rparr> else s)\<lparr>score_changed := False\<rparr>"
    have s: "same s ?s" by (simp add: same_def)
    have "sure (list_top ?s) (same ?s) (bnd (reset_favored ?s) (\<lambda>s.
         bnd (if TF_switch s then Inr (fold tf_grab_step [0..<length (trace_bits s)] s)
              else grab_winners (top_rated s) s) (\<lambda>s.
         walk_queue (note_redundant E) s)))"
      by (intro sure_same_bnd reset_favored_sure g note_redundant_sure)
    note w = this [unfolded same_top [OF s]]
    show ?thesis unfolding cull_main_def if_not_P [OF False] Let_def
      by (rule sure_mono [OF w]) (rule same_trans [OF s])
  qed (simp add: cull_main_def)
  have "sure (list_top t) (same t) (cull_altern E t)" for t :: "'a stage_st_scheme"
  proof (cases "\<not> TF_switch t \<or> \<not> TF_top_null t")
    case False
    show ?thesis unfolding cull_altern_def if_not_P [OF False]
      by (intro sure_same_bnd reset_favored_sure grab_winners_sure note_redundant_sure)
  qed (simp add: cull_altern_def)
  then show ?thesis unfolding cull_queue_def by (intro sure_same_bnd m)
qed

subsection \<open>Synchronisation\<close>

text \<open>What the main loop relies on: the position, the list, and entries that are not too long.\<close>

definition held :: "'a main_st_scheme \<Rightarrow> 'a main_st_scheme \<Rightarrow> bool" where
  "held s t \<longleftrightarrow> queue_cur t = queue_cur s \<and> current_entry t = current_entry s \<and>
     length (entries s) \<le> length (entries t) \<and> (list_top s \<longrightarrow> list_top t) \<and>
     (queue_wf s \<and> length (entries t) < 2 ^ 32 \<longrightarrow> queue_wf t) \<and>
     extras t = extras s \<and> (auto_dict (a_extras s) \<longrightarrow> auto_dict (a_extras t))"

definition small :: "'a queue_st_scheme \<Rightarrow> bool" where
  "small s \<longleftrightarrow> (\<forall>n \<in> set (sizes s). unat n \<le> 2 ^ 31)"

definition grown :: "'a main_st_scheme \<Rightarrow> 'a main_st_scheme \<Rightarrow> bool" where
  "grown s t \<longleftrightarrow> held s t \<and> (small s \<longrightarrow> small t)"

lemma held_refl [simp]: "held s s" "grown s s"
  by (simp_all add: held_def grown_def)

lemma held_trans [trans]: "held s t \<Longrightarrow> held t u \<Longrightarrow> held s u"
  unfolding held_def by (simp only:) auto

lemma grown_trans [trans]: "grown s t \<Longrightarrow> grown t u \<Longrightarrow> grown s u"
  unfolding grown_def using held_trans by blast

lemma kept_held: "kept s t \<Longrightarrow> held s t"
  using fuzz_st_kept(1) [of s t] by (simp add: kept_def held_def)

lemma same_grown: "same s t \<Longrightarrow> grown s t"
  using kept_held [OF same_kept] same_sizes [of s t] by (simp add: grown_def small_def)

lemma held_updates [simp]:
  "held s (t\<lparr>stage_cur := c\<rparr>) \<longleftrightarrow> held s t" "held s (t\<lparr>stage_max := c\<rparr>) \<longleftrightarrow> held s t"
  "held s (t\<lparr>cur_depth := d\<rparr>) \<longleftrightarrow> held s t" "held s (t\<lparr>queued_imported := n\<rparr>) \<longleftrightarrow> held s t"
  "held s (t\<lparr>syncing_party := p\<rparr>) \<longleftrightarrow> held s t" "held s (t\<lparr>syncing_case := n\<rparr>) \<longleftrightarrow> held s t"
  "held s (t\<lparr>fs := f\<rparr>) \<longleftrightarrow> held s t" "held s (t\<lparr>sync_interval_cnt := n\<rparr>) \<longleftrightarrow> held s t"
  "held s (t\<lparr>prev_queued := n\<rparr>) \<longleftrightarrow> held s t" "held s (t\<lparr>use_splicing := b\<rparr>) \<longleftrightarrow> held s t"
  "held s (t\<lparr>cycles_wo_finds := m\<rparr>) \<longleftrightarrow> held s t" "held s (t\<lparr>stop_soon := b\<rparr>) \<longleftrightarrow> held s t"
  by (simp_all add: held_def queue_wf_def list_top_def list_wf_def ent_def)

lemma sizes_main [simp]:
  "sizes (t\<lparr>queued_imported := n\<rparr>) = sizes t" "sizes (t\<lparr>sync_interval_cnt := n\<rparr>) = sizes t"
  "sizes (t\<lparr>prev_queued := n\<rparr>) = sizes t" "sizes (t\<lparr>use_splicing := b\<rparr>) = sizes t"
  by (simp_all add: sizes_def)

lemma grown_updates [simp]:
  "grown s (t\<lparr>stage_cur := c\<rparr>) \<longleftrightarrow> grown s t" "grown s (t\<lparr>stage_max := c\<rparr>) \<longleftrightarrow> grown s t"
  "grown s (t\<lparr>cur_depth := d\<rparr>) \<longleftrightarrow> grown s t" "grown s (t\<lparr>queued_imported := n\<rparr>) \<longleftrightarrow> grown s t"
  "grown s (t\<lparr>syncing_party := p\<rparr>) \<longleftrightarrow> grown s t" "grown s (t\<lparr>syncing_case := n\<rparr>) \<longleftrightarrow> grown s t"
  "grown s (t\<lparr>fs := f\<rparr>) \<longleftrightarrow> grown s t" "grown s (t\<lparr>sync_interval_cnt := n\<rparr>) \<longleftrightarrow> grown s t"
  "grown s (t\<lparr>prev_queued := n\<rparr>) \<longleftrightarrow> grown s t" "grown s (t\<lparr>use_splicing := b\<rparr>) \<longleftrightarrow> grown s t"
  "grown s (t\<lparr>cycles_wo_finds := m\<rparr>) \<longleftrightarrow> grown s t"
  by (simp_all add: grown_def small_def)

lemma grown_safe: "safe (same s) m \<Longrightarrow> safe (grown s) m"
  by (erule safe_mono) (rule same_grown)

lemma safe_grown_from:
  assumes "grown s t" and "safe (grown t) m" shows "safe (grown s) m"
  by (rule safe_mono [OF assms(2)]) (rule grown_trans [OF assms(1)])

lemma show_stats_safe: "safe (same s) (show_stats E s)"
  by (rule safeI) (auto intro: show_stats_same)

lemma save_grown:
  fixes s :: "'a main_st_scheme"
  assumes "length mem \<le> MAX_FILE"
  shows "safe (\<lambda>(k, t). grown s t) (save_if_interesting E mem f s)"
proof (rule safeI)
  fix x assume r: "save_if_interesting E mem f s = Inr x"
  obtain k t where x: "x = (k, t)" by fastforce
  have "grows s t" using save_if_interesting_grows r x by (fastforce dest: postD)
  then have "kept s t" using grows_steady by (intro steady_kept) blast
  moreover have "sizes t = sizes s @ (if k then [of_nat (length mem)] else [])"
    using save_if_interesting_kept r x by (fastforce dest: postD)
  moreover have "unat (of_nat (length mem) :: u32) \<le> 2 ^ 31"
    using assms by (simp add: unat_of_nat MAX_FILE_def)
  ultimately show "case x of (k, t) \<Rightarrow> grown s t"
    using kept_held by (auto simp: x grown_def small_def)
qed simp

lemma sync_run_safe:
  fixes s :: "'a main_st_scheme"
  assumes "length mem \<le> MAX_FILE"
  shows "safe (\<lambda>(stop, t). grown s t) (sync_run E party mem s)"
  unfolding sync_run_def
proof (rule safe_bnd [where Q = "grown s"], goal_cases)
  case 1
  show ?case by (rule safeI) (auto intro: same_grown write_to_testcase_same)
next
  case (2 t)
  have r: "safe (\<lambda>(f, u). grown s u) (run_target E (exec_tmout t) t)"
    by (rule safeI) (use 2 in \<open>auto intro: grown_trans same_grown run_target_same\<close>)
  show ?case
  proof (rule safe_bnd [OF r], goal_cases)
    case (1 x)
    obtain f u where x: "x = (f, u)" by fastforce
    have u: "grown s (u\<lparr>syncing_party := Some party\<rparr>)" using 1 x by simp
    have "safe (\<lambda>(stop, t). grown s t) (bnd (save_if_interesting E mem f (u\<lparr>syncing_party := Some party\<rparr>)) (\<lambda>(kept, s2).
         let s3 = s2\<lparr>queued_imported := queued_imported s2 + (if kept then 1 else 0), syncing_party := None\<rparr> in
         bnd (every (stage_cur s3) s3) (\<lambda>now.
         let s4 = s3\<lparr>stage_cur := stage_cur s3 + 1\<rparr> in
         bnd (if now then show_stats E s4 else Inr s4) (\<lambda>s5. Inr (False, s5)))))"
    proof (rule safe_bnd [OF save_grown [OF assms]], goal_cases)
      case (1 y)
      obtain k v where y: "y = (k, v)" by fastforce
      let ?v = "v\<lparr>queued_imported := queued_imported v + (if k then 1 else 0), syncing_party := None\<rparr>"
      have v: "grown s ?v" using 1 y grown_trans [OF u] by simp
      have e: "safe (\<lambda>now. True) (every (stage_cur ?v) ?v)" by (rule safeI) simp_all
      have w: "grown s (?v\<lparr>stage_cur := stage_cur ?v + 1\<rparr>)" using v by (simp only: grown_updates)
      show ?case
        unfolding y prod.case Let_def
      proof (rule safe_bnd [OF e], rule safe_bnd [where Q = "grown s"], goal_cases)
        case (1 now)
        show ?case using w safe_grown_from [OF w grown_safe [OF show_stats_safe]] by (cases now) (simp_all only: if_True if_False safe_Inr)
      qed simp
    qed
    then show ?case using 1 x by (simp add: Let_def)
  qed
qed

lemma for_each_safe:
  assumes "\<And>i t. R s t \<Longrightarrow> safe (\<lambda>(stop, u). R s u) (body i t)" and "R s t"
  shows "safe (\<lambda>(stop, u). R s u) (for_each is body t)"
  using assms(2)
proof (induction "is" arbitrary: t)
  case (Cons i "is")
  show ?case
    unfolding for_each.simps
  proof (rule safe_bnd [OF assms(1) [OF Cons.prems]], goal_cases)
    case (1 x)
    then show ?case using Cons.IH [of "snd x"] by (cases x) simp
  qed
qed simp

lemma sync_file_safe:
  fixes s :: "'a main_st_scheme"
  shows "safe (\<lambda>(stop, next, t). grown s t) (sync_file E party qd min_accept name (next, s))"
proof -
  have "safe (\<lambda>(stop, next, t). grown s t) (bnd (sync_run E party mem (s\<lparr>syncing_case := c\<rparr>)) (\<lambda>(stop, s2). Inr (stop, nx, s2)))"
    if "length mem \<le> MAX_FILE" for mem c and nx :: u32
  proof (rule safe_bnd [OF sync_run_safe [OF that]], goal_cases)
    case (1 x)
    have g: "grown s (s\<lparr>syncing_case := c\<rparr>)" by simp
    show ?case using 1 grown_trans [OF g] by (cases x) auto
  qed
  then show ?thesis by (auto simp: sync_file_def Let_def split: option.split)
qed

lemma sync_party_safe:
  fixes s :: "'a main_st_scheme"
  shows "safe (\<lambda>(stop, t). grown s t) (sync_party E party s)"
proof -
  have f: "safe (\<lambda>(stop, w). grown s (snd w)) (for_each names (sync_file E party qd m) (nx, t))"
    if t: "grown s t" for names qd m nx and t :: "'a main_st_scheme"
  proof (rule for_each_safe [where R = "\<lambda>s w. grown s (snd w)" and s = s], goal_cases)
    case (1 i w)
    obtain n u where w: "w = (n, u)" by fastforce
    show ?case
      unfolding w by (rule safe_mono [OF sync_file_safe]) (use 1 w grown_trans in auto)
  qed (use t in simp)
  have "safe (\<lambda>(stop, t). grown s t)
     (bnd (for_each names (sync_file E party qd m) (m, t)) (\<lambda>(stop, next, s2).
        if stop then Inr (True, s2) else Inr (False, s2\<lparr>fs := (fs s2)(synced \<mapsto> Regular (st32 next @ drop 4 old))\<rparr>)))"
    if t: "grown s t" for names qd m synced old and t :: "'a main_st_scheme"
    by (rule safe_bnd [OF f [OF t]]) (auto split: prod.split)
  then show ?thesis by (auto simp: sync_party_def Let_def safe_def split: option.split)
qed

lemma sync_fuzzers_safe:
  fixes s :: "'a main_st_scheme"
  shows "safe (grown s) (sync_fuzzers E s)"
proof (cases "readdir E (sync_dir s)")
  case (Some parties)
  have "safe (\<lambda>(stop, t). grown s t) (for_each parties (sync_party E) (s\<lparr>stage_max := 0, stage_cur := 0, cur_depth := 0\<rparr>))"
  proof (rule for_each_safe [where R = grown and s = s], goal_cases)
    case (1 i t)
    show ?case by (rule safe_mono [OF sync_party_safe]) (use 1 grown_trans in auto)
  qed simp
  then show ?thesis unfolding sync_fuzzers_def Some option.case by (rule safe_bnd) auto
qed (simp add: sync_fuzzers_def safe_def)

subsection \<open>The invariant\<close>

text \<open>
  The list is a list, \<open>queue_cur\<close> is one of its entries and \<open>current_entry\<close> its number, and the
  automatic tokens are in order; while there are fewer than \<open>2^32\<close> entries the queue is well formed,
  so that \<open>queued_paths\<close> is their number.
\<close>

definition main_inv :: "'a main_st_scheme \<Rightarrow> bool" where
  "main_inv s \<longleftrightarrow> list_top s \<and> auto_dict (a_extras s) \<and>
     (length (entries s) < 2 ^ 32 \<longrightarrow> queue_wf s) \<and>
     (\<forall>p. queue_cur s = Some p \<longrightarrow> p < length (entries s) \<and> current_entry s = of_nat p)"

lemma main_inv_held: "main_inv s \<Longrightarrow> held s t \<Longrightarrow> main_inv t"
  unfolding main_inv_def held_def by (simp only:) auto

lemma main_inv_at:
  assumes "main_inv s" and "\<And>p. r = Some p \<Longrightarrow> p < length (entries s) \<and> c = of_nat p"
  shows "main_inv (s\<lparr>current_entry := c, queue_cur := r\<rparr>)"
  using assms by (cases r) (auto simp: main_inv_def queue_wf_def list_top_def list_wf_def ent_def)

lemma position_order:
  "s\<lparr>queue_cur := r, current_entry := c\<rparr> = s\<lparr>current_entry := c, queue_cur := r\<rparr>"
  "s\<lparr>current_entry := c, seek_to := n, queue_cur := r\<rparr> = s\<lparr>current_entry := c, queue_cur := r, seek_to := n\<rparr>"
  by simp_all

lemma main_inv_next:
  assumes "main_inv s" and "queue_cur s = Some q"
  shows "main_inv (s\<lparr>current_entry := current_entry s + 1, queue_cur := q_next (ent s q)\<rparr>)"
proof (rule main_inv_at [OF assms(1)])
  have q: "q < length (entries s)" "current_entry s = of_nat q" and t: "list_top s"
    using assms by (simp_all add: main_inv_def)
  fix p assume "q_next (ent s q) = Some p"
  then have "p = Suc q" "Suc q < length (entries s)"
    using list_top_steps(1) [OF t q(1)] by (simp_all split: if_splits)
  then show "p < length (entries s) \<and> current_entry s + 1 = of_nat p" using q(2) by simp
qed

text \<open>\<open>ready s t\<close>: the invariant holds of \<open>t\<close>, and its entries are as long as before.\<close>

definition ready :: "'a main_st_scheme \<Rightarrow> 'a main_st_scheme \<Rightarrow> bool" where
  "ready s t \<longleftrightarrow> main_inv t \<and> length (entries s) \<le> length (entries t) \<and> (small s \<longrightarrow> small t)"

lemma ready_grown: "ready s t \<Longrightarrow> grown t u \<Longrightarrow> ready s u"
  using main_inv_held [of t u] by (auto simp: ready_def grown_def held_def)

lemma safe_ready:
  assumes "ready s t" and "safe (grown t) m" shows "safe (ready s) m"
  by (rule safe_mono [OF assms(2)]) (rule ready_grown [OF assms(1)])

lemma sizes_cur [simp]: "sizes (s\<lparr>queue_cur := r\<rparr>) = sizes s" "sizes (s\<lparr>seek_to := n\<rparr>) = sizes s"
  by (simp_all add: sizes_def)

lemma main_inv_seek [simp]: "main_inv (s\<lparr>seek_to := n\<rparr>) \<longleftrightarrow> main_inv s"
  by (simp add: main_inv_def queue_wf_def list_top_def list_wf_def ent_def)

lemma seek_start_safe:
  assumes "ready s t" shows "safe (ready s) (seek_start n t)"
  using assms
proof (induction n arbitrary: t)
  case (Suc n)
  show ?case
  proof (cases "queue_cur t")
    case (Some q)
    let ?u = "t\<lparr>current_entry := current_entry t + 1, queue_cur := q_next (ent t q)\<rparr>"
    have "main_inv ?u" using Suc.prems Some by (intro main_inv_next) (simp_all add: ready_def)
    then have "ready s (?u\<lparr>seek_to := seek_to t - 1\<rparr>)"
      using Suc.prems by (simp add: ready_def small_def)
    from Suc.IH [OF this] show ?thesis using Some by (simp add: position_order)
  qed (simp add: safe_def)
qed simp

lemma cull_safe:
  fixes t :: "'a main_st_scheme"
  assumes "ready s t" shows "safe (ready s) (cull_queue E t)"
proof (rule safe_ready [OF assms])
  have "list_top t" using assms by (simp add: ready_def main_inv_def)
  then have "safe (same t) (cull_queue E t)" using cull_queue_sure [of t E] by (simp add: sure_def safe_def)
  then show "safe (grown t) (cull_queue E t)" by (rule grown_safe)
qed

lemma new_cycle_safe:
  assumes "ready s t" shows "safe (ready s) (new_cycle E t)"
proof -
  let ?t = "t\<lparr>current_entry := 0, queue_cur := queue t\<rparr>"
  have "main_inv ?t"
  proof (rule main_inv_at)
    show "main_inv t" using assms by (simp add: ready_def)
    fix p assume "queue t = Some p"
    then show "p < length (entries t) \<and> 0 = of_nat p"
      using assms by (auto simp: ready_def main_inv_def list_top_def list_wf_def split: if_splits)
  qed
  then have r: "ready s (?t\<lparr>queue_cycle := c, cur_skipped_paths := d, TF_top_null := b\<rparr>)" for c d b
    using assms by (simp add: ready_def small_def main_inv_def queue_wf_def list_top_def list_wf_def ent_def)
  have c: "ready s (cycle_finds u)" if "ready s u" for u :: "'a main_st_scheme"
    using that by (rule ready_grown) (simp add: cycle_finds_def Let_def)
  let ?s = "t\<lparr>queue_cycle := queue_cycle t + 1, current_entry := 0, cur_skipped_paths := 0, queue_cur := queue t\<rparr>"
  have e: "?s = ?t\<lparr>queue_cycle := queue_cycle t + 1, cur_skipped_paths := 0, TF_top_null := TF_top_null t\<rparr>"
    "?s\<lparr>TF_top_null := True\<rparr> = ?t\<lparr>queue_cycle := queue_cycle t + 1, cur_skipped_paths := 0, TF_top_null := True\<rparr>"
    by simp_all
  have "ready s ?s" unfolding e(1) by (rule r)
  moreover have "ready s (?s\<lparr>TF_top_null := True\<rparr>)" unfolding e(2) by (rule r)
  ultimately have m: "safe (ready s) (if TF_switch ?s then cull_queue E (?s\<lparr>TF_top_null := True\<rparr>) else Inr ?s)"
    using cull_safe by (cases "TF_switch ?s") (simp_all only: if_True if_False safe_Inr)
  show ?thesis
    unfolding new_cycle_def Let_def
  proof (rule safe_bnd [OF m], rule safe_bnd [OF seek_start_safe], assumption, rule safe_bnd [OF safe_ready], assumption,
      rule grown_safe [OF show_stats_safe], goal_cases)
    case (1 _ _ u)
    show ?case using c [OF 1(3)] safe_ready [OF c [OF 1(3)] sync_fuzzers_safe] by simp
  qed
qed

lemma maybe_sync_safe:
  fixes s :: "'a main_st_scheme"
  shows "safe (grown s) (maybe_sync E skipped s)"
proof -
  have "grown s (s\<lparr>sync_interval_cnt := c\<rparr>)" for c by simp
  from safe_grown_from [OF this sync_fuzzers_safe] show ?thesis by (simp add: maybe_sync_def Let_def)
qed

lemma main_turn_sure:
  fixes s :: "'a main_st_scheme"
  assumes "main_inv s"
  shows "sure (lively E \<and> small s) (\<lambda>(stop, t). main_inv t \<and> length (entries s) \<le> length (entries t)) (main_turn E s)"
  (is "sure ?b _ _")
proof -
  have s: "ready s s" using assms by (simp add: ready_def)
  show ?thesis
    unfolding main_turn_def
  proof (rule sure_bnd [OF safe_sure [OF cull_safe [OF s]]],
      rule sure_bnd [where Q = "ready s"], goal_cases)
    case (1 t)
    show ?case using 1 safe_sure [OF new_cycle_safe [OF 1]] by simp
  next
    case (2 _ t)
    show ?case
    proof (cases "queue_cur t")
      case (Some q)
      have q: "q < length (entries t)" and top: "list_top t" using 2(2) Some by (simp_all add: ready_def main_inv_def)
      have n: "unat (q_len (ent t q)) \<le> 2 ^ 31" if "small s"
        using that 2(2) q by (auto simp: ready_def small_def sizes_def ent_def)
      have f: "sure ?b (\<lambda>(stop, u). kept t u) (fuzz_one E t)"
        by (rule sure_weaken [OF fuzz_one_sure [OF Some q]]) (use top n in blast)
      show ?thesis
      proof (rule sure_bnd [OF f], goal_cases)
        case (1 x)
        obtain skipped u where x: "x = (skipped, u)" by fastforce
        have "held t u" using 1 x kept_held by simp
        then have u: "main_inv u" "length (entries s) \<le> length (entries u)"
          using main_inv_held 2(2) by (auto simp: ready_def held_def)
        show ?case
          unfolding x prod.case
        proof (rule sure_bnd [OF safe_sure [OF maybe_sync_safe]], goal_cases)
          case (1 v)
          have v: "main_inv v" "length (entries s) \<le> length (entries v)"
            using 1 u main_inv_held by (auto simp: grown_def held_def)
          let ?v = "if \<not> stop_soon v \<and> exit_1 v then v\<lparr>stop_soon := True\<rparr> else v"
          have "held v ?v" by simp
          then have w: "main_inv ?v" "length (entries s) \<le> length (entries ?v)"
            using main_inv_held [OF v(1)] v(2) by auto
          have "main_inv (?v\<lparr>current_entry := current_entry ?v + 1, queue_cur := q_next (ent ?v p)\<rparr>)"
            if "queue_cur ?v = Some p" for p using w(1) that by (rule main_inv_next)
          then show ?case using w unfolding Let_def by (auto split: option.split simp: sure_def position_order)
        qed
      qed
    qed (simp add: fuzz_one_def)
  qed
qed

end
