(* ===== verification/Startup.thy ===== *)
theory Startup
  imports MainRuns
begin

unbundle bit_operations_syntax

section \<open>From start-up to the main loop\<close>

text \<open>
  Every step of \<open>prepare\<close>, the part of \<open>main\<close> before its loop, ends and establishes the invariant of
  the main loop; so every turn of every run starts in a state with the invariant, and ends.
\<close>

lemma held_main_updates [simp]:
  "held s (t\<lparr>in_dir := d\<rparr>) \<longleftrightarrow> held s t" "held s (t\<lparr>last_path_time := m\<rparr>) \<longleftrightarrow> held s t"
  "held s (t\<lparr>queued_at_start := n\<rparr>) \<longleftrightarrow> held s t" "held s (t\<lparr>resuming_fuzz := b\<rparr>) \<longleftrightarrow> held s t"
  "held s (t\<lparr>exec_tmout := n\<rparr>) \<longleftrightarrow> held s t" "held s (t\<lparr>timeout_given := g\<rparr>) \<longleftrightarrow> held s t"
  "held s (t\<lparr>useless_at_start := n\<rparr>) \<longleftrightarrow> held s t" "held s (t\<lparr>start_time := m\<rparr>) \<longleftrightarrow> held s t"
  "held s (t\<lparr>havoc_div := n\<rparr>) \<longleftrightarrow> held s t" "held s (t\<lparr>hang_tmout := n\<rparr>) \<longleftrightarrow> held s t"
  "held s (t\<lparr>seek_to := n\<rparr>) \<longleftrightarrow> held s t" "held s (t\<lparr>max_depth := n\<rparr>) \<longleftrightarrow> held s t"
  by (simp_all add: held_def queue_wf_def list_top_def list_wf_def ent_def)

lemma same_held: "same s t \<Longrightarrow> held s t"
  using same_grown [of s t] by (simp add: grown_def)

lemma held_safe: "held s t \<Longrightarrow> safe (same t) m \<Longrightarrow> safe (held s) m"
  by (erule safe_mono) (auto intro: held_trans same_held)

lemma safe_fold_res:
  assumes "\<And>i t. R t \<Longrightarrow> safe R (f i t)" and "R s"
  shows "safe R (fold_res f is s)"
  using assms(2)
proof (induction "is" arbitrary: s)
  case (Cons i "is")
  show ?case unfolding fold_res.simps by (rule safe_bnd [OF assms(1) [OF Cons.prems]]) (rule Cons.IH)
qed simp

subsection \<open>Reading the test cases\<close>

lemma shuffle_safe:
  fixes ptrs :: "'p list"
  shows "safe (\<lambda>(l, t). rng_only s t) (shuffle_ptrs E ptrs cnt s)"
proof -
  have "safe (\<lambda>(l, t). rng_only s t) (shuffle_loop E n i cnt ptrs t)" if "rng_only s t"
    for n i and ptrs :: "'p list" and t
    using that
  proof (induction n arbitrary: i ptrs t)
    case (Suc n)
    have u: "safe (\<lambda>(r, u). rng_only s u) (UR E (cnt - i) t)"
    proof (rule safeI)
      show "ends (UR E (cnt - i) t)" by (simp add: UR_def Let_def)
      show "case x of (r, u) \<Rightarrow> rng_only s u" if "UR E (cnt - i) t = Inr x" for x
        using that rng_only_trans [OF Suc.prems UR_rng_only] by (cases x) simp
    qed
    show ?case
      unfolding shuffle_loop.simps by (rule safe_bnd [OF u]) (auto simp: Let_def safe_def [of _ "Inl _"] intro: Suc.IH split: prod.split)
  qed simp
  then show ?thesis by (simp add: shuffle_ptrs_def)
qed

lemma read_testcase_safe:
  fixes s :: "'a main_st_scheme"
  assumes "held s t" shows "safe (held s) (read_testcase E dir name t)"
proof -
  have "safe (held s) (add_to_queue E fn ln det t)" for fn ln det
    by (rule safeI) (auto intro: held_trans [OF assms] kept_held [OF steady_kept [OF grows_steady [OF add_to_queue_grows]]])
  then show ?thesis using assms
    by (auto simp: read_testcase_def Let_def safe_def [of _ "Inl _"] split: option.split fnode.split)
qed

lemma read_testcases_safe:
  fixes s :: "'a main_st_scheme"
  shows "safe (held s) (read_testcases E s)"
proof -
  have r: "safe (held s) (bnd (fold_res (read_testcase E d) nl t) (\<lambda>s.
      if queued_paths s = 0 then Inl (Fatal (m s)) else Inr (s\<lparr>last_path_time := 0, queued_at_start := queued_paths s\<rparr>)))"
    if "held s t" for t d nl m
    by (rule safe_bnd [OF safe_fold_res [where R = "held s", OF read_testcase_safe that]]) (auto simp: safe_def)
  have k: "held s t" if "rng_only u t" "held s u" for t u :: "'a main_st_scheme"
    using that kept_held rng_only_kept held_trans by blast
  let ?s = "s\<lparr>in_dir := in_dir s @ ''/queue''\<rparr>"
  define t where "t = (if readdir E (in_dir s @ ''/queue'') \<noteq> None \<or> fs s (in_dir s @ ''/queue'') \<noteq> None then ?s else s)"
  have t: "held s t" by (simp add: t_def)
  have "safe (\<lambda>(l, u). held s u) (shuffle_ptrs E nl n t)" for n and nl :: "string list"
    by (rule safe_mono [OF shuffle_safe]) (use k t in auto)
  then have sh: "safe (\<lambda>(l, u). held s u) (if b then shuffle_ptrs E nl n t else Inr (nl, t))" for b n and nl :: "string list"
    using t by simp
  show ?thesis
    unfolding read_testcases_def Let_def t_def [symmetric]
    by (cases "readdir E (in_dir t)", simp add: safe_def, simp only: option.case, rule safe_bnd [OF sh]) (auto intro!: r)
qed

subsection \<open>Tokens\<close>

lemma maybe_add_auto_held:
  fixes s :: "'a main_st_scheme"
  assumes "MIN_AUTO_EXTRA \<le> length mem" and "length mem \<le> MAX_AUTO_EXTRA"
  shows "safe (held s) (maybe_add_auto E mem s)"
proof -
  obtain t where m: "maybe_add_auto E mem s = Inr t" and a: "adds_auto s t"
    and d: "auto_dict (a_extras s) \<longrightarrow> auto_dict (a_extras t)"
    using maybe_add_auto_adds [OF assms, of E s] by auto
  obtain c sd p u b xs where t: "t = s\<lparr>rand_cnt := c, rng_seed := sd, rng_pos := p, urandom_pos := u,
     auto_changed := b, a_extras := xs\<rparr>" using a unfolding adds_auto_def by blast
  have "held s t" using d by (simp add: t held_def queue_wf_def list_top_def list_wf_def ent_def)
  then show ?thesis by (simp add: m)
qed

lemma load_auto_safe:
  fixes s :: "'a main_st_scheme"
  shows "safe (held s) (load_auto E d s)"
proof -
  have one: "safe (\<lambda>(stop, u). held s u) (load_auto_one E d i t)" if t: "held s t" for i and t :: "'a main_st_scheme"
  proof -
    have "safe (\<lambda>(stop, u). held s u) (bnd (maybe_add_auto E mem t) (\<lambda>s'. Inr (False, s')))"
      if "MIN_AUTO_EXTRA \<le> length mem" "length mem \<le> MAX_AUTO_EXTRA" for mem
      by (rule safe_bnd [OF maybe_add_auto_held [OF that]]) (auto intro: held_trans [OF t])
    then show ?thesis using t unfolding load_auto_one_def Let_def by (simp split: option.split)
  qed
  show ?thesis
    unfolding load_auto_def
    by (rule safe_bnd [OF for_each_safe [where R = held and s = s, OF one]]) auto
qed

lemma unescape_ends: "ends (unescape cs)"
  by (induction cs rule: unescape.induct) (auto simp: ends_bnd split: list.split)

lemma parse_line_ends: "ends (parse_line l line)"
  unfolding parse_line_def Let_def
  by (auto intro!: ends_bnd unescape_ends split: option.split list.split)

lemma load_lines_ends: "length f \<le> n \<Longrightarrow> ends (load_lines n l f xs)"
proof (induction n arbitrary: f xs)
  case (Suc n)
  have "length (snd (next_line f)) \<le> n" if "f \<noteq> []"
    using that Suc.prems by (cases f) (auto simp: next_line_def Let_def MAX_LINE_def)
  then show ?case
    by (cases "next_line f") (auto intro!: ends_bnd parse_line_ends Suc.IH)
qed simp

text \<open>Loading user tokens touches nothing else.\<close>

definition retokened :: "'a dict_st_scheme \<Rightarrow> 'a dict_st_scheme \<Rightarrow> bool" where
  "retokened s t \<longleftrightarrow> t = s\<lparr>extras := extras t\<rparr>"

lemma retokened_refl [simp]: "retokened s s"
  by (simp add: retokened_def)

lemma retokened_extras: "retokened s t \<Longrightarrow> retokened s (t\<lparr>extras := xs\<rparr>)"
proof -
  assume "retokened s t"
  then have "t\<lparr>extras := xs\<rparr> = s\<lparr>extras := extras t\<rparr>\<lparr>extras := xs\<rparr>"
    unfolding retokened_def by (rule arg_cong)
  then show ?thesis by (simp add: retokened_def)
qed

lemma load_extras_safe: "safe (retokened s) (load_extras E arg s)"
proof -
  have f: "safe (retokened s) (load_extras_file fn l s)" for fn l
  proof (cases "read_file fn s")
    case (Some cs)
    have "safe (\<lambda>_. True) (load_lines (length cs) l cs (extras s))" by (rule safeI [OF load_lines_ends]) simp_all
    then show ?thesis
      unfolding load_extras_file_def Some option.case by (rule safe_bnd) (simp add: retokened_extras)
  qed (simp add: load_extras_file_def safe_def)
  have e: "safe (retokened s) (load_extra_entry d n t)" if "retokened s t" for d n t
    using that retokened_extras [OF that]
    by (auto simp: load_extra_entry_def safe_def split: option.split fnode.split)
  have d: "safe (retokened s) (fold_res (load_extra_entry d) names s)" for d names
    by (rule safe_fold_res [where R = "retokened s", OF e]) simp_all
  have x: "safe (retokened s) (if extras t = [] then Inl (Fatal m) else Inr (t\<lparr>extras := g (extras t)\<rparr>))"
    if "retokened s t" for t g m
    using retokened_extras [OF that] by (simp add: safe_def)
  have "safe (retokened s) (case r of None \<Rightarrow> load_extras_file fn l s
      | Some names \<Rightarrow> if b then Inl (Fatal m) else fold_res (load_extra_entry fn) names s)" for r fn l b m
    using f d by (auto simp: safe_def [of _ "Inl _"] split: option.split)
  then show ?thesis unfolding load_extras_def Let_def by (rule safe_bnd [OF _ x])
qed

subsection \<open>Pivoting\<close>

lemma parent_depth_same:
  fixes s :: "'a stage_st_scheme"
  shows "same s (parent_depth q rsl s)"
proof -
  have u: "same s (upd q (depth_update f) s)" for f by (rule upd_same) simp_all
  have "same s (if ucast (max_depth t) < depth (ent t q) then t\<lparr>max_depth := ucast (depth (ent t q))\<rparr> else t)"
    if "same s t" for t using that by (simp add: same_def)
  then show ?thesis using u
    by (auto simp: parent_depth_def Let_def simp del: if_split split: list.split option.split)
qed

lemma mark_as_det_done_same: "same s t \<Longrightarrow> sure b (same s) (mark_as_det_done E q t)"
proof -
  assume s: "same s t"
  have u: "same v (upd q (passed_det_update f) v)" for f and v :: "'a stage_st_scheme" by (rule upd_same) simp_all
  have c: "sure b (same s) (create_excl E fn [] t)" for fn using s by (rule create_excl_sure)
  show ?thesis
  proof (cases "after_last CHR ''/'' (fname (ent t q))")
    case (Some fn)
    show ?thesis unfolding mark_as_det_done_def Some option.case
      by (rule sure_bnd [OF c]) (simp, rule same_trans [OF _ u], assumption)
  qed (simp add: mark_as_det_done_def)
qed

lemma link_or_copy_sure: "same s t \<Longrightarrow> sure b (same s) (link_or_copy E old new t)"
  using create_excl_sure by (auto simp: link_or_copy_def split: option.split)

lemma pivot_input_sure:
  fixes s :: "'a main_st_scheme"
  shows "sure b (same s) (pivot_input E q s)"
proof -
  have u: "same t (upd q (fname_update f) t)" for f and t :: "'a main_st_scheme" by (rule upd_same) simp_all
  have m: "sure b (same s) (if passed_det (ent t q) then mark_as_det_done E q t else Inr t)" if "same s t" for t :: "'a main_st_scheme"
    using that mark_as_det_done_same [OF that] by simp
  have r: "same s (s\<lparr>resuming_fuzz := v\<rparr>)" for v by (simp add: same_def)
  have l: "sure b (same s) (bnd (link_or_copy E old new t) (\<lambda>s2. let s3 = upd q (fname_update (\<lambda>_. f)) s2 in
         if passed_det (ent s3 q) then mark_as_det_done E q s3 else Inr s3))" if "same s t" for old new t f
    unfolding Let_def
    by (rule sure_bnd [OF link_or_copy_sure [OF that]], rule m, rule same_trans [OF _ u])
  show ?thesis
    unfolding pivot_input_def Let_def
    by (simp only: split: if_split prod.split)
      (auto simp only: prod.inject intro!: l [unfolded Let_def] same_trans [OF r parent_depth_same] same_refl)
qed

lemma pivot_inputs_sure:
  fixes s :: "'a main_st_scheme"
  shows "sure (list_top s) (same s) (pivot_inputs E s)"
  unfolding pivot_inputs_def by (rule walk_queue_sure [OF pivot_input_sure])

subsection \<open>The dry run\<close>

definition tested :: "'a main_st_scheme \<Rightarrow> 'a main_st_scheme \<Rightarrow> bool" where
  "tested s t \<longleftrightarrow> held s t \<and> links t = links s"

lemma same_tested: "same s t \<Longrightarrow> tested s t"
  using same_held [of s t] by (simp add: tested_def same_def)

lemma tested_trans: "tested s t \<Longrightarrow> tested t u \<Longrightarrow> tested s u"
  unfolding tested_def using held_trans by auto

lemma tested_useless [simp]: "tested s (t\<lparr>useless_at_start := n\<rparr>) \<longleftrightarrow> tested s t"
  by (simp add: tested_def links_def)

lemma dry_verdict_safe:
  fixes s :: "'a main_st_scheme"
  shows "safe (\<lambda>(f', t). tested s t) (dry_verdict q res f s)"
proof -
  have r: "tested s s" by (rule same_tested) simp
  have u: "same s (upd q (cal_failed_update g) s)" for g by (rule upd_same) simp_all
  have "safe (\<lambda>(f', t). tested s t) (tolerate q f s)"
    unfolding tolerate_def by (simp add: same_tested [OF u])
  then show ?thesis using r by (simp add: dry_verdict_def safe_def [of _ "Inl _"] split: fault.split)
qed

lemma dry_run_loop_safe:
  fixes s :: "'a main_st_scheme"
  assumes "list_top s" and "in_queue s r" and "\<And>p. r = Some p \<Longrightarrow> length (entries s) \<le> n + p"
  shows "safe (\<lambda>(st, f', t). held s t) (dry_run_loop E n r f s)"
  using assms
proof (induction n arbitrary: r f s)
  case 0
  then show ?case by (cases r) (auto simp: in_queue_def)
next
  case (Suc n)
  show ?case
  proof (cases r)
    case (Some q)
    have c: "safe (\<lambda>(res, t). same s t) (calibrate_case E q mem 0 True s)" for mem
      using calibrate_case_same by (auto simp: safe_def)
    have "safe (\<lambda>(st, f', t). held s t) (bnd (calibrate_case E q mem 0 True s) (\<lambda>(res, s1).
       if stop_soon s1 then Inr (True, f, s1)
       else bnd (dry_verdict q res f s1) (\<lambda>(failures', s2).
              dry_run_loop E n (q_next (ent s2 q)) failures' s2)))" for mem
    proof (rule safe_bnd [OF c], goal_cases)
      case (1 x)
      obtain res t where x: "x = (res, t)" by fastforce
      have t: "tested s t" using 1 x same_tested by simp
      have "safe (\<lambda>(st, f', t). held s t) (bnd (dry_verdict q res f t) (\<lambda>(failures', s2).
              dry_run_loop E n (q_next (ent s2 q)) failures' s2))"
      proof (rule safe_bnd [OF dry_verdict_safe], goal_cases)
        case (1 y)
        obtain f' u where y: "y = (f', u)" by fastforce
        have u: "held s u" "links u = links s" using tested_trans [OF t] 1 y by (auto simp: tested_def)
        have q: "q < length (entries u)" "length (entries u) \<le> Suc n + q" and top: "list_top u"
          using Suc.prems Some links_wf(2) [OF u(2)] links_top [OF u(2)] by (simp_all add: in_queue_def)
        have "safe (\<lambda>(st, f', w). held u w) (dry_run_loop E n (q_next (ent u q)) f' u)"
        proof (rule Suc.IH [OF top list_top_steps(2) [OF top q(1)]])
          show "length (entries u) \<le> n + p" if "q_next (ent u q) = Some p" for p
            using that q(2) list_top_steps(1) [OF top q(1)] by (simp split: if_splits)
        qed
        then have "safe (\<lambda>(st, f', w). held s w) (dry_run_loop E n (q_next (ent u q)) f' u)"
          by (rule safe_mono) (auto intro: held_trans [OF u(1)])
        then show ?case by (simp add: y)
      qed
      then show ?case using t by (simp add: x tested_def)
    qed
    moreover have "safe (\<lambda>_. True) (read_target q s)" by (rule safeI) simp_all
    ultimately show ?thesis unfolding Some dry_run_loop.simps by (rule_tac safe_bnd)
  qed simp
qed

lemma perform_dry_run_safe:
  fixes s :: "'a main_st_scheme"
  assumes "list_top s"
  shows "safe (held s) (perform_dry_run E s)"
proof -
  have "in_queue s (queue s)" using assms by (auto simp: list_top_def list_wf_def in_queue_def)
  then have "safe (\<lambda>(st, f', t). held s t) (dry_run_loop E (length (entries s)) (queue s) 0 s)"
    using assms by (intro dry_run_loop_safe) simp_all
  then show ?thesis unfolding perform_dry_run_def by (rule safe_bnd) (auto simp: safe_def)
qed

lemma max_exec_us_ends:
  assumes "list_top s" and "in_queue s r" and "\<And>p. r = Some p \<Longrightarrow> length (entries s) \<le> n + p"
  shows "ends (max_exec_us n r m s)"
  using assms(2,3)
proof (induction n arbitrary: r m)
  case 0
  then show ?case by (cases r) (auto simp: in_queue_def)
next
  case (Suc n)
  show ?case
  proof (cases r)
    case (Some q)
    then have q: "q < length (entries s)" using Suc.prems(1) by (simp add: in_queue_def)
    have "ends (max_exec_us n (q_next (ent s q)) (max m (exec_us (ent s q))) s)"
    proof (rule Suc.IH [OF list_top_steps(2) [OF assms(1) q]])
      show "length (entries s) \<le> n + p" if "q_next (ent s q) = Some p" for p
        using that Suc.prems(2) [OF Some] list_top_steps(1) [OF assms(1) q] by (simp split: if_splits)
    qed
    then show ?thesis by (simp add: Some)
  qed simp
qed

lemma show_init_stats_safe:
  fixes s :: "'a main_st_scheme"
  assumes "list_top s"
  shows "safe (held s) (show_init_stats s)"
proof -
  have "in_queue s (queue s)" using assms by (auto simp: list_top_def list_wf_def in_queue_def)
  then have m: "safe (\<lambda>_. True) (max_exec_us (length (entries s)) (queue s) 0 s)"
    using assms by (intro safeI max_exec_us_ends) simp_all
  show ?thesis unfolding show_init_stats_def Let_def by (rule safe_bnd [OF m]) simp
qed

subsection \<open>The whole program\<close>

text \<open>The state before \<open>read_testcases\<close>: no entries yet, no automatic tokens, no current entry.\<close>

definition fresh :: "'a main_st_scheme \<Rightarrow> bool" where
  "fresh s \<longleftrightarrow> entries s = [] \<and> queue s = None \<and> queue_top s = None \<and> q_prev100 s = None \<and>
     queued_paths s = 0 \<and> queue_cur s = None \<and> a_extras s = []"

lemma fresh_inv: "fresh s \<Longrightarrow> main_inv s"
  by (simp add: fresh_def main_inv_def queue_wf_def list_top_def list_wf_def auto_dict_def)

lemma main_inv_tokens: "main_inv s \<Longrightarrow> main_inv (s\<lparr>extras := xs\<rparr>)"
  by (simp add: main_inv_def queue_wf_def list_top_def list_wf_def ent_def)

lemma inv_safe: "main_inv s \<Longrightarrow> safe (held s) m \<Longrightarrow> safe main_inv m"
  by (erule safe_mono) (rule main_inv_held)

lemma inv_same_safe:
  fixes s :: "'a main_st_scheme"
  assumes "main_inv s" and "sure (list_top s) (same s) m" shows "safe main_inv m"
proof -
  have "safe (same s) m" using assms by (simp add: main_inv_def sure_def safe_def)
  then have "safe (held s) m" by (rule safe_mono) (rule same_held)
  with assms(1) show ?thesis by (rule inv_safe)
qed

lemma find_timeout_held: "held s (find_timeout s)"
  by (simp add: find_timeout_def Let_def split: option.split)

lemma prepare_safe:
  fixes s :: "'a main_st_scheme"
  assumes "fresh s" shows "safe main_inv (prepare E s dict)"
proof -
  have top: "list_top t" if "main_inv t" for t :: "'a main_st_scheme" using that by (simp add: main_inv_def)
  have d: "safe main_inv (case dict of None \<Rightarrow> Inr t | Some d \<Rightarrow> load_extras E d t)" if "main_inv t" for t :: "'a main_st_scheme"
  proof -
    have "main_inv u" if "retokened t u" for u
      using main_inv_tokens [OF \<open>main_inv t\<close>, of "extras u"] that by (simp add: retokened_def)
    then show ?thesis using that by (auto split: option.split intro: safe_mono [OF load_extras_safe])
  qed
  have time: "main_inv (u\<lparr>start_time := now\<rparr>)"
    if "main_inv t" "get_cur_time E (if timeout_given t = 0 then find_timeout t else t) = (now, u)" for t u :: "'a main_st_scheme" and now
  proof -
    have "held t u" using same_held [OF get_cur_time_same [OF that(2)]] held_trans find_timeout_held by (auto split: if_splits)
    then show ?thesis using main_inv_held [OF that(1)] by simp
  qed
  have sv: "safe main_inv (save_auto E (t\<lparr>seek_to := n\<rparr>))" if "main_inv t" for t :: "'a main_st_scheme" and n
  proof (rule inv_same_safe)
    show "main_inv (t\<lparr>seek_to := n\<rparr>)" using that by simp
    show "sure (list_top (t\<lparr>seek_to := n\<rparr>)) (same (t\<lparr>seek_to := n\<rparr>)) (save_auto E (t\<lparr>seek_to := n\<rparr>))"
      by (rule sureI) (auto simp: save_auto_same save_auto_def save_auto_one_def Let_def intro!: ends_fold_res)
  qed
  show ?thesis
    unfolding prepare_def
  proof (rule safe_bnd [OF inv_safe [OF fresh_inv [OF assms] read_testcases_safe]],
      rule safe_bnd [OF inv_safe [OF _ load_auto_safe]], assumption,
      rule safe_bnd [OF inv_same_safe [OF _ pivot_inputs_sure]], assumption,
      rule safe_bnd [OF d], assumption, goal_cases)
    case (1 _ _ _ t)
    obtain now u where g: "get_cur_time E (if timeout_given t = 0 then find_timeout t else t) = (now, u)" by fastforce
    have u: "main_inv (u\<lparr>start_time := now\<rparr>)" by (rule time [OF 1(4) g])
    show ?case
      unfolding g prod.case Let_def
    proof (rule safe_bnd [OF inv_safe [OF u perform_dry_run_safe [OF top [OF u]]]],
        rule safe_bnd [OF inv_same_safe [OF _ cull_queue_sure]], assumption, goal_cases)
      case (1 _ v)
      show ?case by (rule safe_bnd [OF inv_safe [OF 1(2) show_init_stats_safe [OF top [OF 1(2)]]]]) (rule sv)
    qed
  qed
qed

lemma main_reach_inv:
  assumes "main_reach E s0 s" and "main_inv s0" shows "main_inv s"
  using assms
proof (induction rule: main_reach.induct)
  case (main_next s t)
  then show ?case using main_turn_sure [of s E] by (auto simp: sure_def post_def)
qed

text \<open>
  C1: The whole program never hangs by itself: from a fresh state \<open>prepare\<close> ends, and if it succeeds,
  every state that turns of the main loop lead to has the invariant \<open>main_inv\<close> (the queue is a list,
  well formed below \<open>2^32\<close> entries, \<open>queue_cur\<close> is one of its entries and \<open>current_entry\<close> its number, the
  automatic tokens are in order), and the next turn ends as well, provided the random numbers are
  \<open>lively\<close> and no entry is longer than \<open>2^31\<close> bytes.
\<close>

theorem every_turn_ends:
  assumes "fresh s0"
  shows "prepare E s0 dict \<noteq> Inl Diverges \<and>
    (\<forall>s1 s. prepare E s0 dict = Inr s1 \<and> main_reach E s1 s \<longrightarrow>
       main_inv s \<and> (lively E \<and> small s \<longrightarrow> main_turn E s \<noteq> Inl Diverges))"
proof -
  have p: "safe main_inv (prepare E s0 dict)" using assms by (rule prepare_safe)
  have "main_inv s \<and> (lively E \<and> small s \<longrightarrow> main_turn E s \<noteq> Inl Diverges)"
    if "prepare E s0 dict = Inr s1" "main_reach E s1 s" for s1 s
  proof -
    have "main_inv s1" using p that(1) by (simp add: safe_def post_def)
    then have i: "main_inv s" using main_reach_inv [OF that(2)] by simp
    show ?thesis using i main_turn_sure [OF i, of E] by (auto simp: sure_def ends_def)
  qed
  then show ?thesis using p by (auto simp: safe_def ends_def)
qed

definition start_env :: env where
  "start_env = demo_env\<lparr>readdir := (\<lambda>d. if d = ''in'' then Some [''a'', ''b''] else None),
     target := (\<lambda>k d t p. quiet_run\<lparr>r_trace := [1, 0, 0, 0, 0, 0, 0, 0], r_hybrid := replicate 8 0\<rparr>)\<rparr>"

definition start_main :: main_st where
  "start_main = demo_main\<lparr>fs := (fs demo_main)(''in/a'' \<mapsto> Regular [65, 66, 67, 68, 69])\<rparr>"

theorem every_turn_ends_witness: "prepare start_env start_main None \<noteq> Inl Diverges"
proof -
  have "fresh start_main" by (simp add: fresh_def start_main_def demo_main_def)
  then show ?thesis using every_turn_ends [of start_main start_env None] by blast
qed

end
