(* ===== verification/Options.thy ===== *)
theory Options
  imports Mainloop
begin

unbundle bit_operations_syntax

section \<open>The command line\<close>

text \<open>
  The part of \<open>main\<close> of \<open>src/afl/hybrid_metric/afl-fuzz.c\<close> that reads the options and the environment,
  with \<open>read_bitmap\<close>, \<open>check_asan_opts\<close>, \<open>fix_up_sync\<close>, \<open>fix_up_banner\<close>, \<open>save_cmdline\<close> and
  \<open>detect_file_args\<close>. The environment is the argument \<open>getenv\<close>. \<open>usage\<close>, which prints and exits, is
  an error. \<open>LD_PRELOAD\<close> and the variables of the screen and of the processor checks concern the
  target and the terminal and are left out.
\<close>

subsection \<open>State\<close>

text \<open>
  \<open>in_arg\<close> and \<open>out_arg\<close> are the globals \<open>in_dir\<close> and \<open>out_dir\<close> while they may still be null.
\<close>

record opt_st = main_st +
  in_arg :: "string option"
  out_arg :: "string option"
  extras_dir :: "string option"
  in_bitmap :: "string option"
  use_banner :: "string option"
  orig_cmdline :: string
  mem_limit :: u64
  mem_limit_given :: bool
  force_deterministic :: bool
  qemu_mode :: bool

definition MEM_LIMIT_QEMU :: u64 where "MEM_LIMIT_QEMU = 200"

subsection \<open>getopt\<close>

text \<open>
  \<open>getopt\<close> with the option string \<open>+i:o:f:m:t:T:dnCB:S:M:x:Qs\<close>: the options in order, each with its
  argument, and the words from the first one on that is no option. What is no option, or has no
  argument where one is due, is \<open>?\<close>.
\<close>

fun cluster :: "string \<Rightarrow> string list \<Rightarrow> (char \<times> string) list \<times> string list" where
  "cluster [] rest = ([], rest)"
| "cluster (c # cs) rest =
     (if c \<in> set ''iofmtTBSMx'' then
        (if cs \<noteq> [] then ([(c, cs)], rest)
         else case rest of [] \<Rightarrow> ([(CHR ''?'', '''')], []) | a # as \<Rightarrow> ([(c, a)], as))
      else let (os, r) = cluster cs rest in ((if c \<in> set ''dnCQs'' then c else CHR ''?'', '''') # os, r))"

lemma cluster_rest: "length (snd (cluster cs rest)) \<le> length rest"
  by (induction cs) (auto split: list.split prod.split)

lemma cluster_shorter: "cluster cs rest = (os, r) \<Longrightarrow> length r < Suc (length rest)"
  using cluster_rest [of cs rest] by simp

function getopt :: "string list \<Rightarrow> (char \<times> string) list \<times> string list" where
  "getopt [] = ([], [])"
| "getopt (a # as) =
     (if a = ''--'' then ([], as)
      else if 2 \<le> length a \<and> hd a = CHR ''-'' then
        let (os, rest) = cluster (tl a) as; (os', rest') = getopt rest in (os @ os', rest')
      else ([], a # as))"
  by pat_completeness auto
termination
  by (relation "measure length") (auto dest!: cluster_shorter [OF sym])

subsection \<open>Numbers\<close>

text \<open>
  \<open>%u\<close> and \<open>%llu\<close> of \<open>sscanf\<close>: white space, a sign, digits; saturated at \<open>2^64 - 1\<close>, negated
  modulo \<open>2^64\<close>. The second component is what follows.
\<close>

definition scan_unsigned :: "bytes \<Rightarrow> (u64 \<times> bytes) option" where
  "scan_unsigned s =
     (let l = skip isspace s;
          m = (if l \<noteq> [] \<and> (hd l = 45 \<or> hd l = 43) then tl l else l);
          v = digits_val m
      in if takeWhile isdigit m = [] then None
         else Some (if v \<ge> 2 ^ 64 then - 1 else if hd l = 45 then - of_int v else of_int v, skip isdigit m))"

subsection \<open>Single options\<close>

definition opt_master :: "string \<Rightarrow> 'a opt_st_scheme \<Rightarrow> 'a opt_st_scheme res" where
  "opt_master arg s =
     (if sync_id s \<noteq> None then Inl (Fatal ''Multiple -S or -M options not supported'')
      else
        case dropWhile (\<lambda>c. c \<noteq> CHR '':'') arg of
          [] \<Rightarrow> Inr (s\<lparr>sync_id := Some arg, force_deterministic := True\<rparr>)
        | _ # ids \<Rightarrow>
            let s1 = s\<lparr>sync_id := Some (takeWhile (\<lambda>c. c \<noteq> CHR '':'') arg)\<rparr> in
            (case scan_unsigned (bytes_of ids) of
               None \<Rightarrow> Inl (Fatal ''Bogus master ID passed to -M'')
             | Some (i, r) \<Rightarrow>
                 (case (if take 1 r = [47] then scan_unsigned (drop 1 r) else None) of
                    None \<Rightarrow> Inl (Fatal ''Bogus master ID passed to -M'')
                  | Some (m, _) \<Rightarrow>
                      let s2 = s1\<lparr>master_id := ucast i, master_max := ucast m\<rparr> in
                      if master_id s2 = 0 \<or> master_max s2 = 0 \<or> master_id s2 > master_max s2 \<or>
                         master_max s2 > 1000000
                      then Inl (Fatal ''Bogus master ID passed to -M'')
                      else Inr (s2\<lparr>force_deterministic := True\<rparr>))))"

definition opt_timeout :: "string \<Rightarrow> 'a main_st_scheme \<Rightarrow> 'a main_st_scheme res" where
  "opt_timeout arg s =
     (if timeout_given s \<noteq> 0 then Inl (Fatal ''Multiple -t options not supported'')
      else case scan_unsigned (bytes_of arg) of
        None \<Rightarrow> Inl (Fatal ''Bad syntax used for -t'')
      | Some (v, r) \<Rightarrow>
          let s1 = s\<lparr>exec_tmout := ucast v\<rparr> in
          if take 1 arg = ''-'' then Inl (Fatal ''Bad syntax used for -t'')
          else if exec_tmout s1 < 5 then Inl (Fatal ''Dangerously low value of -t'')
          else Inr (s1\<lparr>timeout_given := (if take 1 r = [43] then 2 else 1)\<rparr>))"

definition mem_suffix :: "bytes \<Rightarrow> u64 \<Rightarrow> u64 option" where
  "mem_suffix r v =
     (let suffix = (case r of [] \<Rightarrow> 77 | c # _ \<Rightarrow> c) in
      if suffix = 84 then Some (v * (1024 * 1024))
      else if suffix = 71 then Some (v * 1024)
      else if suffix = 107 then Some (v div 1024)
      else if suffix = 77 then Some v
      else None)"

definition opt_mem :: "string \<Rightarrow> 'a opt_st_scheme \<Rightarrow> 'a opt_st_scheme res" where
  "opt_mem arg s0 =
     (if mem_limit_given s0 then Inl (Fatal ''Multiple -m options not supported'')
      else
        let s = s0\<lparr>mem_limit_given := True\<rparr> in
        if arg = ''none'' then Inr (s\<lparr>mem_limit := 0\<rparr>)
        else case scan_unsigned (bytes_of arg) of
          None \<Rightarrow> Inl (Fatal ''Bad syntax used for -m'')
        | Some (v, r) \<Rightarrow>
            if take 1 arg = ''-'' then Inl (Fatal ''Bad syntax used for -m'')
            else case mem_suffix r v of
              None \<Rightarrow> Inl (Fatal ''Unsupported suffix or bad syntax for -m'')
            | Some m \<Rightarrow>
                if m < 5 then Inl (Fatal ''Dangerously low value of -m'') else Inr (s\<lparr>mem_limit := m\<rparr>))"

text \<open>\<open>ck_read\<close> wants a whole map.\<close>

definition read_bitmap :: "string \<Rightarrow> 'a exec_st_scheme \<Rightarrow> 'a exec_st_scheme res" where
  "read_bitmap fn s =
     (case read_file fn s of
        None \<Rightarrow> Inl (Fatal (''Unable to open '' @ fn))
      | Some d \<Rightarrow> if length d < length (virgin_bits s) then Inl (Fatal (''Short read from '' @ fn))
                  else Inr (s\<lparr>virgin_bits := take (length (virgin_bits s)) d\<rparr>))"

definition opt_in :: "string \<Rightarrow> 'a opt_st_scheme \<Rightarrow> 'a opt_st_scheme res" where
  "opt_in arg s =
     (if in_arg s \<noteq> None then Inl (Fatal ''Multiple -i options not supported'')
      else Inr (if arg = ''-'' then s\<lparr>in_arg := Some arg, in_place_resume := True\<rparr> else s\<lparr>in_arg := Some arg\<rparr>))"

definition opt_out :: "string \<Rightarrow> 'a opt_st_scheme \<Rightarrow> 'a opt_st_scheme res" where
  "opt_out arg s =
     (if out_arg s \<noteq> None then Inl (Fatal ''Multiple -o options not supported'')
      else Inr (s\<lparr>out_arg := Some arg\<rparr>))"

text \<open>The loop body; \<open>getenv\<close> is only asked for \<open>AFL_DUMB_FORKSRV\<close>.\<close>

definition parse_opt :: "(string \<Rightarrow> string option) \<Rightarrow> char \<times> string \<Rightarrow> 'a opt_st_scheme \<Rightarrow> 'a opt_st_scheme res" where
  "parse_opt getenv opt s =
     (case opt of (c, arg) \<Rightarrow>
        if c = CHR ''s'' then Inr (s\<lparr>TF_switch := True\<rparr>)
        else if c = CHR ''i'' then opt_in arg s
        else if c = CHR ''o'' then opt_out arg s
        else if c = CHR ''M'' then opt_master arg s
        else if c = CHR ''S'' then
          (if sync_id s \<noteq> None then Inl (Fatal ''Multiple -S or -M options not supported'')
           else Inr (s\<lparr>sync_id := Some arg\<rparr>))
        else if c = CHR ''f'' then
          (if out_file s \<noteq> None then Inl (Fatal ''Multiple -f options not supported'')
           else Inr (s\<lparr>out_file := Some arg\<rparr>))
        else if c = CHR ''x'' then
          (if extras_dir s \<noteq> None then Inl (Fatal ''Multiple -x options not supported'')
           else Inr (s\<lparr>extras_dir := Some arg\<rparr>))
        else if c = CHR ''t'' then opt_timeout arg s
        else if c = CHR ''m'' then opt_mem arg s
        else if c = CHR ''d'' then
          (if skip_deterministic s then Inl (Fatal ''Multiple -d options not supported'')
           else Inr (s\<lparr>skip_deterministic := True, use_splicing := True\<rparr>))
        else if c = CHR ''B'' then
          (if in_bitmap s \<noteq> None then Inl (Fatal ''Multiple -B options not supported'')
           else read_bitmap arg (s\<lparr>in_bitmap := Some arg\<rparr>))
        else if c = CHR ''C'' then
          (if crash_mode s \<noteq> FAULT_NONE then Inl (Fatal ''Multiple -C options not supported'')
           else Inr (s\<lparr>crash_mode := FAULT_CRASH\<rparr>))
        else if c = CHR ''n'' then
          (if dumb_mode s \<noteq> 0 then Inl (Fatal ''Multiple -n options not supported'')
           else Inr (s\<lparr>dumb_mode := (if getenv ''AFL_DUMB_FORKSRV'' \<noteq> None then 2 else 1)\<rparr>))
        else if c = CHR ''T'' then
          (if use_banner s \<noteq> None then Inl (Fatal ''Multiple -T options not supported'')
           else Inr (s\<lparr>use_banner := Some arg\<rparr>))
        else if c = CHR ''Q'' then
          (if qemu_mode s then Inl (Fatal ''Multiple -Q options not supported'')
           else Inr (if mem_limit_given s then s\<lparr>qemu_mode := True\<rparr>
                     else s\<lparr>qemu_mode := True, mem_limit := MEM_LIMIT_QEMU\<rparr>))
        else Inl (Fatal ''usage''))"

subsection \<open>Checks and settings after the options\<close>

definition lacks :: "string option \<Rightarrow> string \<Rightarrow> bool" where
  "lacks x needle \<longleftrightarrow> (case x of None \<Rightarrow> False | Some t \<Rightarrow> strstr t needle = None)"

definition check_asan_opts :: "(string \<Rightarrow> string option) \<Rightarrow> unit res" where
  "check_asan_opts getenv =
     (let a = getenv ''ASAN_OPTIONS''; m = getenv ''MSAN_OPTIONS'' in
      if lacks a ''abort_on_error=1'' then Inl (Fatal ''Custom ASAN_OPTIONS set without abort_on_error=1'')
      else if lacks a ''symbolize=0'' then Inl (Fatal ''Custom ASAN_OPTIONS set without symbolize=0'')
      else if lacks m ''exit_code=86'' then Inl (Fatal ''Custom MSAN_OPTIONS set without exit_code'')
      else if lacks m ''symbolize=0'' then Inl (Fatal ''Custom MSAN_OPTIONS set without symbolize=0'')
      else Inr ())"

definition id_char :: "char \<Rightarrow> bool" where
  "id_char c \<longleftrightarrow> isalnum (of_char c) \<or> c = CHR ''_'' \<or> c = CHR ''-''"

definition fix_up_sync :: "string \<Rightarrow> 'a opt_st_scheme \<Rightarrow> 'a opt_st_scheme res" where
  "fix_up_sync x s =
     (if dumb_mode s \<noteq> 0 then Inl (Fatal ''-S / -M and -n are mutually exclusive'')
      else if skip_deterministic s then
        Inl (Fatal (if force_deterministic s then ''use -S instead of -M -d'' else ''-S already implies -d''))
      else if \<not> list_all id_char x then Inl (Fatal ''Non-alphanumeric fuzzer ID specified via -S or -M'')
      else if length x > 32 then Inl (Fatal ''Fuzzer ID too long'')
      else
        let s1 = s\<lparr>sync_dir := out_dir s, out_dir := out_dir s @ ''/'' @ x\<rparr> in
        Inr (if \<not> force_deterministic s1 then s1\<lparr>skip_deterministic := True, use_splicing := True\<rparr> else s1))"

definition fix_up_banner :: "string \<Rightarrow> 'a opt_st_scheme \<Rightarrow> 'a opt_st_scheme" where
  "fix_up_banner name s =
     (let b = (case use_banner s of
                 Some b \<Rightarrow> b
               | None \<Rightarrow> (case sync_id s of
                            Some i \<Rightarrow> i
                          | None \<Rightarrow> (case after_last CHR ''/'' name of None \<Rightarrow> name | Some t \<Rightarrow> t)))
      in s\<lparr>use_banner := Some (if length b > 40 then take 40 b @ ''...'' else b)\<rparr>)"

fun join_words :: "string list \<Rightarrow> string" where
  "join_words [] = ''''"
| "join_words [w] = w"
| "join_words (w # ws) = w @ '' '' @ join_words ws"

definition save_cmdline :: "string list \<Rightarrow> 'a opt_st_scheme \<Rightarrow> 'a opt_st_scheme" where
  "save_cmdline argv s = s\<lparr>orig_cmdline := join_words argv\<rparr>"

definition env_settings :: "(string \<Rightarrow> string option) \<Rightarrow> 'a main_st_scheme \<Rightarrow> 'a main_st_scheme res" where
  "env_settings getenv s0 =
     (let s = s0\<lparr>no_forkserver := no_forkserver s0 \<or> getenv ''AFL_NO_FORKSRV'' \<noteq> None,
                 no_arith := no_arith s0 \<or> getenv ''AFL_NO_ARITH'' \<noteq> None,
                 shuffle_queue := shuffle_queue s0 \<or> getenv ''AFL_SHUFFLE_QUEUE'' \<noteq> None,
                 fast_cal := fast_cal s0 \<or> getenv ''AFL_FAST_CAL'' \<noteq> None\<rparr>
      in bnd (case getenv ''AFL_HANG_TMOUT'' of
                None \<Rightarrow> Inr s
              | Some v \<Rightarrow>
                  if atoi (bytes_of v) = 0 then Inl (Fatal ''Invalid value of AFL_HANG_TMOUT'')
                  else Inr (s\<lparr>hang_tmout := atoi (bytes_of v)\<rparr>)) (\<lambda>s.
         if dumb_mode s = 2 \<and> no_forkserver s
         then Inl (Fatal ''AFL_DUMB_FORKSRV and AFL_NO_FORKSRV are mutually exclusive'')
         else if getenv ''AFL_LD_PRELOAD'' \<noteq> None
         then Inl (Fatal ''Use AFL_PRELOAD instead of AFL_LD_PRELOAD'')
         else Inr s))"

definition check_modes :: "'a opt_st_scheme \<Rightarrow> 'a opt_st_scheme res" where
  "check_modes s =
     (if in_dir s = out_dir s then Inl (Fatal ''Input and output directories can't be the same'')
      else if dumb_mode s \<noteq> 0 \<and> crash_mode s \<noteq> FAULT_NONE then Inl (Fatal ''-C and -n are mutually exclusive'')
      else if dumb_mode s \<noteq> 0 \<and> qemu_mode s then Inl (Fatal ''-Q and -n are mutually exclusive'')
      else Inr s)"

text \<open>\<open>main\<close> from the loop over the options to \<open>fix_up_banner\<close>; \<open>argv\<close> starts with the name of the fuzzer.\<close>

definition configure :: "(string \<Rightarrow> string option) \<Rightarrow> string list \<Rightarrow> 'a opt_st_scheme \<Rightarrow> 'a opt_st_scheme res" where
  "configure getenv argv s0 =
     (case getopt (tl argv) of (os, rest) \<Rightarrow>
        bnd (fold_res (parse_opt getenv) os (s0\<lparr>exit_1 := getenv ''AFL_BENCH_JUST_ONE'' \<noteq> None\<rparr>)) (\<lambda>s.
        case (rest, in_arg s, out_arg s) of
          (prog # _, Some i, Some out) \<Rightarrow>
            bnd (check_asan_opts getenv) (\<lambda>_.
            let s1 = s\<lparr>in_dir := i, out_dir := out\<rparr> in
            bnd (case sync_id s1 of None \<Rightarrow> Inr s1 | Some x \<Rightarrow> fix_up_sync x s1) (\<lambda>s.
            bnd (check_modes s) (\<lambda>s.
            bnd (env_settings getenv s) (\<lambda>s.
              Inr (fix_up_banner prog (save_cmdline argv s))))))
        | _ \<Rightarrow> Inl (Fatal ''usage'')))"

subsection \<open>detect_file_args\<close>

text \<open>One argument: the text up to the first \<open>@@\<close>, the full name of the input file, the rest.\<close>

definition detect_file_arg :: "string \<Rightarrow> string \<Rightarrow> 'a exec_st_scheme \<Rightarrow> string \<times> 'a exec_st_scheme" where
  "detect_file_arg cwd arg s =
     (case strstr arg ''@@'' of
        None \<Rightarrow> (arg, s)
      | Some aa \<Rightarrow>
          let f = (case out_file s of None \<Rightarrow> out_dir s @ ''/.cur_input'' | Some f \<Rightarrow> f);
              aa_subst = (if take 1 f = ''/'' then f else cwd @ ''/'' @ f)
          in (take (length arg - length aa) arg @ aa_subst @ drop 2 aa, s\<lparr>out_file := Some f\<rparr>))"

primrec detect_file_args :: "string \<Rightarrow> string list \<Rightarrow> 'a exec_st_scheme \<Rightarrow> string list \<times> 'a exec_st_scheme" where
  "detect_file_args cwd [] s = ([], s)"
| "detect_file_args cwd (a # as) s =
     (let (a', s1) = detect_file_arg cwd a s; (as', s2) = detect_file_args cwd as s1 in (a' # as', s2))"

end
