(* ===== verification/Stats.thy ===== *)
theory Stats
  imports Options
begin

unbundle bit_operations_syntax

section \<open>The statistics files\<close>

text \<open>
  \<open>write_stats_file\<close> and \<open>maybe_update_plot_file\<close> of \<open>src/afl/hybrid_metric/afl-fuzz.c\<close>. A
  \<open>double\<close> is the number of hundredths that \<open>%0.02f\<close> shows; a call with three zeroes, which reuses
  the last values, has \<open>None\<close>. The process number is an argument.
\<close>

record stat_st = opt_st +
  persistent_mode :: bool
  deferred_mode :: bool
  last_bcvg :: u64
  last_stab :: u64
  last_eps :: u64
  plot_file :: bytes
  prev_qp :: u32
  prev_pf :: u32
  prev_pnf :: u32
  prev_ce :: u32
  prev_md :: u32
  prev_qc :: u64
  prev_uc :: u64
  prev_uh :: u64

definition fixed2 :: "u64 \<Rightarrow> string" where
  "fixed2 v = dec (unat v div 100) @ ''.'' @ dec_pad 2 (unat v mod 100)"

definition target_mode :: "'a stat_st_scheme \<Rightarrow> string" where
  "target_mode s =
     (if qemu_mode s then ''qemu '' else '''') @ (if dumb_mode s \<noteq> 0 then '' dumb '' else '''') @
     (if no_forkserver s then ''no_forksrv '' else '''') @ (if crash_mode s \<noteq> FAULT_NONE then ''crash '' else '''') @
     (if persistent_mode s then ''persistent '' else '''') @ (if deferred_mode s then ''deferred '' else '''') @
     (if qemu_mode s \<or> dumb_mode s \<noteq> 0 \<or> no_forkserver s \<or> crash_mode s \<noteq> FAULT_NONE \<or>
         persistent_mode s \<or> deferred_mode s then '''' else ''default'')"

text \<open>\<open>use_banner\<close> is set by then; a null pointer would be printed as \<open>(null)\<close>.\<close>

definition banner :: "'a opt_st_scheme \<Rightarrow> string" where
  "banner s = (case use_banner s of None \<Rightarrow> ''(null)'' | Some b \<Rightarrow> b)"

definition stats_head :: "u32 \<Rightarrow> u64 \<Rightarrow> 'a stat_st_scheme \<Rightarrow> string list" where
  "stats_head pid now s =
     [''start_time        : '' @ dec (unat (start_time s div 1000)),
      ''last_update       : '' @ dec (unat (now div 1000)),
      ''fuzzer_pid        : '' @ dec (unat pid),
      ''cycles_done       : '' @ dec (unat (if queue_cycle s \<noteq> 0 then queue_cycle s - 1 else 0)),
      ''execs_done        : '' @ dec (unat (total_execs s)),
      ''execs_per_sec     : '' @ fixed2 (last_eps s),
      ''paths_total       : '' @ dec (unat (queued_paths s)),
      ''paths_favored     : '' @ dec (unat (queued_favored s)),
      ''paths_found       : '' @ dec (unat (queued_discovered s)),
      ''paths_imported    : '' @ dec (unat (queued_imported s)),
      ''max_depth         : '' @ dec (unat (max_depth s))]"

definition stats_tail :: "'a stat_st_scheme \<Rightarrow> string list" where
  "stats_tail s =
     [''pending_favs      : '' @ dec (unat (pending_favored s)),
      ''pending_total     : '' @ dec (unat (pending_not_fuzzed s)),
      ''variable_paths    : '' @ dec (unat (queued_variable s)),
      ''stability         : '' @ fixed2 (last_stab s) @ ''%'',
      ''bitmap_cvg        : '' @ fixed2 (last_bcvg s) @ ''%'',
      ''unique_crashes    : '' @ dec (unat (unique_crashes s)),
      ''unique_hangs      : '' @ dec (unat (unique_hangs s)),
      ''last_path         : '' @ dec (unat (last_path_time s div 1000)),
      ''last_crash        : '' @ dec (unat (last_crash_time s div 1000)),
      ''last_hang         : '' @ dec (unat (last_hang_time s div 1000)),
      ''execs_since_crash : '' @ dec (unat (total_execs s - last_crash_execs s)),
      ''exec_timeout      : '' @ dec (unat (exec_tmout s)),
      ''afl_banner        : '' @ banner s,
      ''afl_version       : 2.52b'',
      ''target_mode       : '' @ target_mode s,
      ''command_line      : '' @ orig_cmdline s]"

definition newline :: char where "newline = CHR 0x0A"

definition lines_text :: "string list \<Rightarrow> string" where
  "lines_text ls = concat (map (\<lambda>l. l @ [newline]) ls)"

definition stats_text :: "u32 \<Rightarrow> u64 \<Rightarrow> 'a stat_st_scheme \<Rightarrow> string" where
  "stats_text pid now s =
     lines_text (stats_head pid now s @ (''cur_path          : '' @ dec (unat (current_entry s))) # stats_tail s)"

definition keep_last :: "(u64 \<times> u64 \<times> u64) option \<Rightarrow> 'a stat_st_scheme \<Rightarrow> 'a stat_st_scheme" where
  "keep_last vals s =
     (case vals of
        None \<Rightarrow> s
      | Some (bitmap_cvg, stability, eps) \<Rightarrow> s\<lparr>last_bcvg := bitmap_cvg, last_stab := stability, last_eps := eps\<rparr>)"

definition write_stats_file :: "env \<Rightarrow> u32 \<Rightarrow> (u64 \<times> u64 \<times> u64) option \<Rightarrow> 'a stat_st_scheme \<Rightarrow> 'a stat_st_scheme res" where
  "write_stats_file E pid vals s0 =
     (let (now, s) = get_cur_time E (keep_last vals s0)
      in create_trunc E (out_dir s @ ''/fuzzer_stats'') (bytes_of (stats_text pid now s)) s)"

subsection \<open>maybe_update_plot_file\<close>

definition plot_line :: "u64 \<Rightarrow> u64 \<Rightarrow> u64 \<Rightarrow> 'a stat_st_scheme \<Rightarrow> string" where
  "plot_line now bitmap_cvg eps s =
     dec (unat (now div 1000)) @ '', '' @ dec (unat (queue_cycle s - 1)) @ '', '' @ dec (unat (current_entry s)) @ '', '' @
     dec (unat (queued_paths s)) @ '', '' @ dec (unat (pending_not_fuzzed s)) @ '', '' @
     dec (unat (pending_favored s)) @ '', '' @ fixed2 bitmap_cvg @ ''%, '' @ dec (unat (unique_crashes s)) @ '', '' @
     dec (unat (unique_hangs s)) @ '', '' @ dec (unat (max_depth s)) @ '', '' @ fixed2 eps @ [newline]"

definition plot_unchanged :: "'a stat_st_scheme \<Rightarrow> bool" where
  "plot_unchanged s \<longleftrightarrow>
     prev_qp s = queued_paths s \<and> prev_pf s = pending_favored s \<and> prev_pnf s = pending_not_fuzzed s \<and>
     prev_ce s = current_entry s \<and> prev_qc s = queue_cycle s \<and> prev_uc s = unique_crashes s \<and>
     prev_uh s = unique_hangs s \<and> prev_md s = max_depth s"

definition maybe_update_plot_file :: "env \<Rightarrow> u64 \<Rightarrow> u64 \<Rightarrow> 'a stat_st_scheme \<Rightarrow> 'a stat_st_scheme" where
  "maybe_update_plot_file E bitmap_cvg eps s0 =
     (if plot_unchanged s0 then s0
      else
        let s1 = s0\<lparr>prev_qp := queued_paths s0, prev_pf := pending_favored s0, prev_pnf := pending_not_fuzzed s0,
                   prev_ce := current_entry s0, prev_qc := queue_cycle s0, prev_uc := unique_crashes s0,
                   prev_uh := unique_hangs s0, prev_md := max_depth s0\<rparr>;
            (now, s) = get_cur_time E s1
        in s\<lparr>plot_file := plot_file s @ bytes_of (plot_line now bitmap_cvg eps s)\<rparr>)"

end
