(* ===== verification/Outdir.thy ===== *)
theory Outdir
  imports Stats
begin

unbundle bit_operations_syntax

section \<open>The output directory\<close>

text \<open>
  \<open>delete_files\<close>, \<open>nuke_resume_dir\<close>, \<open>maybe_delete_out_dir\<close> and \<open>setup_dirs_fds\<close> of
  \<open>src/afl/hybrid_metric/afl-fuzz.c\<close>, built without \<open>SIMPLE_FILES\<close>. The output directory is a tree;
  a path is the list of its names below \<open>out_dir\<close>. What the system permits is the record \<open>host\<close>.
  A clean-up that stops half way has already deleted files, so a step answers the error beside the
  tree it leaves behind. Links are leaves; what a link leads to is \<open>linked\<close>. A listing is taken when
  the directory is opened.
\<close>

subsection \<open>Trees\<close>

datatype node = File fnode | Dir "(string \<times> node) list"

primrec get :: "string list \<Rightarrow> node \<Rightarrow> node option" where
  "get [] n = Some n"
| "get (x # p) n =
     (case n of
        File f \<Rightarrow> None
      | Dir c \<Rightarrow> (case map_of c x of None \<Rightarrow> None | Some m \<Rightarrow> get p m))"

text \<open>\<open>ENOENT\<close>: every directory on the way is there, but not the name.\<close>

primrec missing :: "string list \<Rightarrow> node \<Rightarrow> bool" where
  "missing [] n = False"
| "missing (x # p) n =
     (case n of
        File f \<Rightarrow> False
      | Dir c \<Rightarrow> (case map_of c x of None \<Rightarrow> True | Some m \<Rightarrow> missing p m))"

text \<open>Changes the entries of the directory at a path.\<close>

primrec alter :: "string list \<Rightarrow> ((string \<times> node) list \<Rightarrow> (string \<times> node) list) \<Rightarrow> node \<Rightarrow> node" where
  "alter [] g n = (case n of File f \<Rightarrow> File f | Dir c \<Rightarrow> Dir (g c))"
| "alter (x # p) g n =
     (case n of
        File f \<Rightarrow> File f
      | Dir c \<Rightarrow> Dir (map (\<lambda>(y, m). (y, if y = x then alter p g m else m)) c))"

definition drop_name :: "string \<Rightarrow> (string \<times> node) list \<Rightarrow> (string \<times> node) list" where
  "drop_name x c = filter (\<lambda>(y, m). y \<noteq> x) c"

subsection \<open>System calls\<close>

record host =
  may_remove :: "string list \<Rightarrow> bool"
  may_make :: "string list \<Rightarrow> bool"
  may_list :: "string list \<Rightarrow> bool"
  may_rename :: "string \<Rightarrow> string \<Rightarrow> bool"
  may_open :: bool
  in_use :: bool
  linked :: "string \<Rightarrow> bytes option"
  local_time :: "nat \<Rightarrow> nat \<times> nat \<times> nat \<times> nat \<times> nat \<times> nat"
  sync_dir_made :: bool
  devices_there :: bool

definition unlink :: "host \<Rightarrow> string list \<Rightarrow> string \<Rightarrow> node \<Rightarrow> node option" where
  "unlink h p x t =
     (case get (p @ [x]) t of
        Some (File f) \<Rightarrow> if may_remove h (p @ [x]) then Some (alter p (drop_name x) t) else None
      | _ \<Rightarrow> None)"

definition rmdir :: "host \<Rightarrow> string list \<Rightarrow> string \<Rightarrow> node \<Rightarrow> node option" where
  "rmdir h p x t =
     (case get (p @ [x]) t of
        Some (Dir []) \<Rightarrow> if may_remove h (p @ [x]) then Some (alter p (drop_name x) t) else None
      | _ \<Rightarrow> None)"

definition add_entry :: "host \<Rightarrow> node \<Rightarrow> string list \<Rightarrow> string \<Rightarrow> node \<Rightarrow> node option" where
  "add_entry h m p x t =
     (case get p t of
        Some (Dir c) \<Rightarrow> if map_of c x = None \<and> may_make h (p @ [x]) then Some (alter p (\<lambda>c. c @ [(x, m)]) t) else None
      | _ \<Rightarrow> None)"

definition mkdir :: "host \<Rightarrow> string list \<Rightarrow> string \<Rightarrow> node \<Rightarrow> node option" where
  "mkdir h = add_entry h (Dir [])"

text \<open>\<open>rename\<close> of an entry of the output directory: a directory replaces an empty one, a file a file.\<close>

definition replaces :: "node \<Rightarrow> node \<Rightarrow> bool" where
  "replaces n m \<longleftrightarrow> (case n of File f \<Rightarrow> (case m of File g \<Rightarrow> True | Dir d \<Rightarrow> False) | Dir c \<Rightarrow> m = Dir [])"

definition rename :: "host \<Rightarrow> string \<Rightarrow> string \<Rightarrow> node \<Rightarrow> node option" where
  "rename h x y t =
     (case t of
        File f \<Rightarrow> None
      | Dir c \<Rightarrow>
          (case map_of c x of
             None \<Rightarrow> None
           | Some n \<Rightarrow>
               if may_rename h x y \<and> (case map_of c y of None \<Rightarrow> True | Some m \<Rightarrow> replaces n m)
               then Some (Dir ((y, n) # drop_name x (drop_name y c))) else None))"

subsection \<open>Steps\<close>

type_synonym step = "node \<Rightarrow> fatal option \<times> node"

primrec steps :: "step list \<Rightarrow> step" where
  "steps [] t = (None, t)"
| "steps (f # gs) t = (case f t of (None, t') \<Rightarrow> steps gs t' | (Some e, t') \<Rightarrow> (Some e, t'))"

text \<open>A call whose failure is ignored, and one whose failure is the error \<open>e\<close> except for \<open>ENOENT\<close>.\<close>

definition ignoring :: "(node \<Rightarrow> node option) \<Rightarrow> step" where
  "ignoring f t = (None, case f t of None \<Rightarrow> t | Some t' \<Rightarrow> t')"

definition unless_missing :: "fatal \<Rightarrow> string list \<Rightarrow> (node \<Rightarrow> node option) \<Rightarrow> step" where
  "unless_missing e p f t =
     (case f t of
        Some t' \<Rightarrow> (None, t')
      | None \<Rightarrow> (if missing p t then None else Some e, t))"

definition or_fail :: "fatal \<Rightarrow> (node \<Rightarrow> node option) \<Rightarrow> step" where
  "or_fail e f t = (case f t of Some t' \<Rightarrow> (None, t') | None \<Rightarrow> (Some e, t))"

definition cleanup_failed :: fatal where
  "cleanup_failed = Fatal ''Output directory cleanup failed''"

subsection \<open>delete_files\<close>

definition CASE_PREFIX :: string where "CASE_PREFIX = ''id:''"

definition to_delete :: "string option \<Rightarrow> string \<Rightarrow> bool" where
  "to_delete prefix x \<longleftrightarrow>
     take 1 x \<noteq> ''.'' \<and> (case prefix of None \<Rightarrow> True | Some s \<Rightarrow> take (length s) x = s)"

primrec delete_names :: "host \<Rightarrow> string list \<Rightarrow> string list \<Rightarrow> step" where
  "delete_names h p [] t = (None, t)"
| "delete_names h p (x # xs) t =
     (case unlink h p x t of
        None \<Rightarrow> (Some (Fatal ''Unable to delete''), t)
      | Some t' \<Rightarrow> delete_names h p xs t')"

text \<open>The directory is \<open>p/x\<close>; the answer is true when it could not be removed.\<close>

definition delete_files :: "host \<Rightarrow> string list \<Rightarrow> string \<Rightarrow> string option \<Rightarrow> node \<Rightarrow> bool res \<times> node" where
  "delete_files h p x prefix t =
     (case get (p @ [x]) t of
        Some (Dir c) \<Rightarrow>
          if \<not> may_list h (p @ [x]) then (Inr False, t)
          else
            (case delete_names h (p @ [x]) (filter (to_delete prefix) (map fst c)) t of
               (Some e, t') \<Rightarrow> (Inl e, t')
             | (None, t') \<Rightarrow>
                 (case rmdir h p x t' of
                    None \<Rightarrow> (Inr True, t')
                  | Some t'' \<Rightarrow> (Inr False, t'')))
      | _ \<Rightarrow> (Inr False, t))"

text \<open>\<open>if (delete_files(fn, prefix)) goto dir_cleanup_failed\<close>, where the label leads to \<open>e\<close>.\<close>

definition clean :: "fatal \<Rightarrow> host \<Rightarrow> string list \<Rightarrow> string \<Rightarrow> string option \<Rightarrow> step" where
  "clean e h p x prefix t =
     (case delete_files h p x prefix t of
        (Inl e', t') \<Rightarrow> (Some e', t')
      | (Inr failed, t') \<Rightarrow> (if failed then Some e else None, t'))"

text \<open>A queue directory with its subdirectories, as it is deleted twice.\<close>

definition clean_queue :: "fatal \<Rightarrow> host \<Rightarrow> string \<Rightarrow> step" where
  "clean_queue e h q =
     steps [clean e h [q, ''.state''] ''deterministic_done'' (Some CASE_PREFIX),
            clean e h [q, ''.state''] ''auto_extras'' (Some ''auto_''),
            clean e h [q, ''.state''] ''redundant_edges'' (Some CASE_PREFIX),
            clean e h [q, ''.state''] ''variable_behavior'' (Some CASE_PREFIX),
            unless_missing e [q, ''.state''] (rmdir h [q] ''.state''),
            clean e h [] q (Some CASE_PREFIX)]"

definition nuke_resume_dir :: "host \<Rightarrow> step" where
  "nuke_resume_dir h = clean_queue (Fatal ''_resume directory cleanup failed'') h ''_resume''"

subsection \<open>maybe_delete_out_dir\<close>

definition OUTPUT_GRACE :: u64 where "OUTPUT_GRACE = 25"

text \<open>\<open>fscanf\<close> with \<open>start_time : %llu last_update : %llu\<close>; a blank of the format skips any white space.\<close>

definition expect :: "string \<Rightarrow> bytes \<Rightarrow> bytes option" where
  "expect w d = (if take (length w) d = bytes_of w then Some (drop (length w) d) else None)"

definition scan_field :: "string \<Rightarrow> bytes \<Rightarrow> (u64 \<times> bytes) option" where
  "scan_field w d =
     (case expect w d of
        None \<Rightarrow> None
      | Some r \<Rightarrow> (case expect '':'' (skip isspace r) of None \<Rightarrow> None | Some r' \<Rightarrow> scan_unsigned r'))"

definition session_times :: "bytes \<Rightarrow> (u64 \<times> u64) option" where
  "session_times d =
     (case scan_field ''start_time'' d of
        None \<Rightarrow> None
      | Some (v, r) \<Rightarrow>
          (case scan_field ''last_update'' (skip isspace r) of None \<Rightarrow> None | Some (w, r') \<Rightarrow> Some (v, w)))"

text \<open>\<open>fopen\<close> for reading; a directory opens but reads nothing.\<close>

definition open_read :: "host \<Rightarrow> string list \<Rightarrow> node \<Rightarrow> bytes option" where
  "open_read h p t =
     (case get p t of
        None \<Rightarrow> None
      | Some (File (Regular d)) \<Rightarrow> Some d
      | Some (File (Symlink l)) \<Rightarrow> linked h l
      | Some (Dir c) \<Rightarrow> Some [])"

definition at_stake :: "host \<Rightarrow> bool \<Rightarrow> node \<Rightarrow> fatal option" where
  "at_stake h resume t =
     (if \<not> may_open h then Some (Fatal ''Unable to open output directory'')
      else if in_use h then Some (Fatal ''Directory is in use'')
      else case open_read h [''fuzzer_stats''] t of
        None \<Rightarrow> None
      | Some d \<Rightarrow>
          (case session_times d of
             None \<Rightarrow> Some (Fatal ''Malformed data in fuzzer_stats'')
           | Some (started, updated) \<Rightarrow>
               if \<not> resume \<and> updated - started > OUTPUT_GRACE * 60
               then Some (Fatal ''At-risk data found'') else None))"

definition backup_name :: "host \<Rightarrow> nat \<Rightarrow> string \<Rightarrow> string" where
  "backup_name h k x =
     (case local_time h k of
        (y, mon, d, hour, minute, sec) \<Rightarrow>
          x @ ''.'' @ dec_pad 4 y @ ''-'' @ dec_pad 2 mon @ ''-'' @ dec_pad 2 d @ ''-'' @
          dec_pad 2 hour @ '':'' @ dec_pad 2 minute @ '':'' @ dec_pad 2 sec)"

text \<open>\<open>crashes\<close> and \<open>hangs\<close>: when resuming, what is not empty is moved away first.\<close>

definition save_and_clean :: "host \<Rightarrow> bool \<Rightarrow> nat \<Rightarrow> string \<Rightarrow> step" where
  "save_and_clean h resume k x =
     steps [\<lambda>t. if resume then
                  (case rmdir h [] x t of
                     Some t' \<Rightarrow> (None, t')
                   | None \<Rightarrow> ignoring (rename h x (backup_name h k x)) t)
                else (None, t),
            clean cleanup_failed h [] x (Some CASE_PREFIX)]"

definition delete_session :: "host \<Rightarrow> bool \<Rightarrow> step" where
  "delete_session h resume =
     steps [if resume then ignoring (rename h ''queue'' ''_resume'') else Pair None,
            if resume then Pair None else clean cleanup_failed h [] ''.synced'' None,
            clean_queue cleanup_failed h ''queue'',
            if resume then Pair None else ignoring (unlink h [''crashes''] ''README.txt''),
            save_and_clean h resume 0 ''crashes'',
            save_and_clean h resume 1 ''hangs'',
            unless_missing cleanup_failed [''.cur_input''] (unlink h [] ''.cur_input''),
            unless_missing cleanup_failed [''fuzz_bitmap''] (unlink h [] ''fuzz_bitmap''),
            if resume then Pair None
            else unless_missing cleanup_failed [''fuzzer_stats''] (unlink h [] ''fuzzer_stats''),
            unless_missing cleanup_failed [''plot_data''] (unlink h [] ''plot_data'')]"

definition maybe_delete_out_dir :: "host \<Rightarrow> bool \<Rightarrow> step" where
  "maybe_delete_out_dir h resume t =
     (case at_stake h resume t of Some e \<Rightarrow> (Some e, t) | None \<Rightarrow> delete_session h resume t)"

subsection \<open>setup_dirs_fds\<close>

record dir_st = stat_st +
  out_tree :: "node option"

definition plot_header :: string where
  "plot_header = ''# unix_time, cycles_done, cur_path, paths_total, pending_total, pending_favs, map_size, '' @
     ''unique_crashes, unique_hangs, max_depth, execs_per_sec'' @ [newline]"

text \<open>The directories below \<open>out_dir\<close>; \<open>.synced\<close> may be there already when resuming.\<close>

definition make_layout :: "host \<Rightarrow> bool \<Rightarrow> bool \<Rightarrow> step" where
  "make_layout h resume synced =
     (let e = Fatal ''Unable to create'' in
      steps [or_fail e (mkdir h [] ''queue''),
             or_fail e (mkdir h [''queue''] ''.state''),
             or_fail e (mkdir h [''queue'', ''.state''] ''deterministic_done''),
             or_fail e (mkdir h [''queue'', ''.state''] ''auto_extras''),
             or_fail e (mkdir h [''queue'', ''.state''] ''redundant_edges''),
             or_fail e (mkdir h [''queue'', ''.state''] ''variable_behavior''),
             if synced then
               (\<lambda>t. case mkdir h [] ''.synced'' t of
                      Some t' \<Rightarrow> (None, t')
                    | None \<Rightarrow> (if resume \<and> get [''.synced''] t \<noteq> None then None else Some e, t))
             else Pair None,
             or_fail e (mkdir h [] ''crashes''),
             or_fail e (mkdir h [] ''hangs''),
             \<lambda>t. (if devices_there h then None else Some (Fatal ''Unable to open device''), t),
             or_fail e (add_entry h (File (Regular [])) [] ''plot_data'')])"

text \<open>Makes the output directory, or takes over an old one.\<close>

definition take_over :: "host \<Rightarrow> bool \<Rightarrow> node option \<Rightarrow> fatal option \<times> node option" where
  "take_over h resume t =
     (case t of
        Some n \<Rightarrow> (case maybe_delete_out_dir h resume n of (e, n') \<Rightarrow> (e, Some n'))
      | None \<Rightarrow>
          if \<not> may_make h [] then (Some (Fatal ''Unable to create output directory''), None)
          else (if resume then Some (Fatal ''Resume attempted but old output directory not found'')
                else if may_open h \<and> \<not> in_use h then None
                else Some (Fatal ''Unable to flock() output directory.''), Some (Dir [])))"

definition setup_dirs_fds :: "host \<Rightarrow> 'a dir_st_scheme \<Rightarrow> fatal option \<times> 'a dir_st_scheme" where
  "setup_dirs_fds h s0 =
     (if sync_id s0 \<noteq> None \<and> \<not> sync_dir_made h then (Some (Fatal ''Unable to create sync directory''), s0)
      else case take_over h (in_place_resume s0) (out_tree s0) of
        (Some e, t) \<Rightarrow> (Some e, s0\<lparr>out_tree := t\<rparr>)
      | (None, None) \<Rightarrow> (None, s0)
      | (None, Some t) \<Rightarrow>
          let s = (if in_place_resume s0 then s0\<lparr>in_dir := out_dir s0 @ ''/_resume''\<rparr> else s0) in
          (case make_layout h (in_place_resume s) (sync_id s \<noteq> None) t of
             (Some e, t') \<Rightarrow> (Some e, s\<lparr>out_tree := Some t'\<rparr>)
           | (None, t') \<Rightarrow> (None, s\<lparr>out_tree := Some t', plot_file := bytes_of plot_header\<rparr>)))"

end
