(* ===== verification/Checks.thy ===== *)
theory Checks
  imports Outdir
begin

unbundle bit_operations_syntax

section \<open>Checks of the target and of the host\<close>

text \<open>
  \<open>check_binary\<close>, \<open>get_qemu_argv\<close>, \<open>check_crash_handling\<close>, \<open>check_cpu_governor\<close> and
  \<open>setup_stdio_file\<close> of \<open>src/afl/hybrid_metric/afl-fuzz.c\<close>, in the Linux build. What \<open>stat\<close>, \<open>access\<close>
  and \<open>open\<close> tell of files outside the output directory is the record \<open>disk\<close>. The variables that are
  set for the target (\<open>PERSIST_ENV_VAR\<close>, \<open>DEFER_ENV_VAR\<close>, \<open>QEMU_LOG\<close>) and the warnings are left out.
\<close>

record program =
  is_regular :: bool
  has_x_bit :: bool
  contents :: bytes

record disk =
  stat_of :: "string \<Rightarrow> program option"
  can_open :: "string \<Rightarrow> bool"
  can_run :: "string \<Rightarrow> bool"
  text_of :: "string \<Rightarrow> bytes option"
  bin_path :: string

record chk_st = dir_st +
  target_path :: string

definition SHM_ENV_VAR :: string where "SHM_ENV_VAR = ''__AFL_SHM_ID''"
definition PERSIST_SIG :: string where "PERSIST_SIG = ''##SIG_AFL_PERSISTENT##''"
definition DEFER_SIG :: string where "DEFER_SIG = ''##SIG_AFL_DEFER_FORKSRV##''"

subsection \<open>Finding the target\<close>

text \<open>\<open>f_len\<close> has 32 bits.\<close>

definition f_len :: "program \<Rightarrow> u32" where
  "f_len p = of_nat (length (contents p))"

definition runnable :: "disk \<Rightarrow> string \<Rightarrow> bool" where
  "runnable d path =
     (case stat_of d path of None \<Rightarrow> False | Some p \<Rightarrow> is_regular p \<and> has_x_bit p \<and> f_len p \<ge> 4)"

text \<open>The elements of \<open>PATH\<close>; an empty one stands for the name alone.\<close>

fun path_elements :: "string \<Rightarrow> string \<Rightarrow> string list" where
  "path_elements cur [] = [cur]"
| "path_elements cur (c # cs) =
     (if c = CHR '':'' then cur # path_elements [] cs else path_elements (cur @ [c]) cs)"

definition path_candidates :: "string \<Rightarrow> string \<Rightarrow> string list" where
  "path_candidates env_path name =
     map (\<lambda>e. if e \<noteq> '''' then e @ ''/'' @ name else name) (path_elements [] env_path)"

definition find_target :: "disk \<Rightarrow> (string \<Rightarrow> string option) \<Rightarrow> string \<Rightarrow> string option" where
  "find_target d getenv name =
     (case getenv ''PATH'' of
        Some env_path \<Rightarrow>
          if CHR ''/'' \<in> set name then (if runnable d name then Some name else None)
          else find (runnable d) (path_candidates env_path name)
      | None \<Rightarrow> if runnable d name then Some name else None)"

subsection \<open>check_binary\<close>

definition memmem :: "bytes \<Rightarrow> bytes \<Rightarrow> bool" where
  "memmem hay needle \<longleftrightarrow> list_ex (\<lambda>i. take (length needle) (drop i hay) = needle) [0..<Suc (length hay)]"

text \<open>A signature with its terminating null.\<close>

definition signature :: "bytes \<Rightarrow> string \<Rightarrow> bool" where
  "signature f_data s = memmem f_data (bytes_of s @ [0])"

definition in_tmp :: "string \<Rightarrow> bool" where
  "in_tmp path \<longleftrightarrow>
     (take 5 path = ''/tmp/'' \<and> CHR ''/'' \<notin> set (drop 5 path)) \<or>
     (take 9 path = ''/var/tmp/'' \<and> CHR ''/'' \<notin> set (drop 9 path))"

definition check_contents :: "bytes \<Rightarrow> 'a chk_st_scheme \<Rightarrow> 'a chk_st_scheme res" where
  "check_contents f s =
     (if take 2 f = [0x23, 0x21] then Inl (Fatal ''Program is a shell script'')
      else if take 4 f \<noteq> [0x7f, 0x45, 0x4c, 0x46] then Inl (Fatal ''Program is not an ELF binary'')
      else if \<not> qemu_mode s \<and> dumb_mode s = 0 \<and> \<not> signature f SHM_ENV_VAR
      then Inl (Fatal ''No instrumentation detected'')
      else if qemu_mode s \<and> signature f SHM_ENV_VAR then Inl (Fatal ''Instrumentation found in -Q mode'')
      else Inr (s\<lparr>uses_asan := uses_asan s \<or> memmem f (bytes_of ''libasan.so'') \<or> memmem f (bytes_of ''__msan_init''),
                 persistent_mode := persistent_mode s \<or> signature f PERSIST_SIG,
                 deferred_mode := deferred_mode s \<or> signature f DEFER_SIG\<rparr>))"

definition check_binary :: "disk \<Rightarrow> (string \<Rightarrow> string option) \<Rightarrow> string \<Rightarrow> 'a chk_st_scheme \<Rightarrow> 'a chk_st_scheme res" where
  "check_binary d getenv name s0 =
     (case find_target d getenv name of
        None \<Rightarrow> Inl (Fatal ''Program not found or not executable'')
      | Some path \<Rightarrow>
          let s = s0\<lparr>target_path := path\<rparr> in
          if getenv ''AFL_SKIP_BIN_CHECK'' \<noteq> None then Inr s
          else if in_tmp path then Inl (Fatal ''Please don't keep binaries in /tmp or /var/tmp'')
          else if \<not> can_open d path then Inl (Fatal ''Unable to open target'')
          else (case stat_of d path of
                  None \<Rightarrow> Inl (Fatal ''Unable to open target'')
                | Some p \<Rightarrow> check_contents (take (unat (f_len p)) (contents p)) s))"

subsection \<open>get_qemu_argv\<close>

definition get_qemu_argv :: "disk \<Rightarrow> (string \<Rightarrow> string option) \<Rightarrow> string \<Rightarrow> string list \<Rightarrow> 'a chk_st_scheme \<Rightarrow>
    (string list \<times> 'a chk_st_scheme) res" where
  "get_qemu_argv d getenv own_loc argv s =
     (let found = (\<lambda>cp. Inr (cp # ''--'' # target_path s # tl argv, s\<lparr>target_path := cp\<rparr>));
          shared = bin_path d @ ''/afl-qemu-trace'';
          fall_back = (if can_run d shared then found shared else Inl (Fatal ''Failed to locate afl-qemu-trace.''))
      in case getenv ''AFL_PATH'' of
           Some tmp \<Rightarrow>
             (let cp = tmp @ ''/afl-qemu-trace''
              in if can_run d cp then found cp else Inl (Fatal (''Unable to find '' @ tmp)))
         | None \<Rightarrow>
             (case after_last CHR ''/'' own_loc of
                None \<Rightarrow> fall_back
              | Some t \<Rightarrow>
                  let cp = take (length own_loc - length t - 1) own_loc @ ''/afl-qemu-trace''
                  in if can_run d cp then found cp else fall_back))"

subsection \<open>The host\<close>

definition check_crash_handling :: "disk \<Rightarrow> (string \<Rightarrow> string option) \<Rightarrow> unit res" where
  "check_crash_handling d getenv =
     (case text_of d ''/proc/sys/kernel/core_pattern'' of
        Some (c # cs) \<Rightarrow>
          if c = 0x7c \<and> getenv ''AFL_I_DONT_CARE_ABOUT_MISSING_CRASHES'' = None
          then Inl (Fatal ''Pipe at the beginning of core_pattern'') else Inr ()
      | _ \<Rightarrow> Inr ())"

definition freq :: "disk \<Rightarrow> string \<Rightarrow> u64" where
  "freq d fn =
     (case text_of d fn of
        None \<Rightarrow> 0
      | Some t \<Rightarrow> (case scan_unsigned t of None \<Rightarrow> 0 | Some (v, r) \<Rightarrow> v))"

definition check_cpu_governor :: "disk \<Rightarrow> (string \<Rightarrow> string option) \<Rightarrow> unit res" where
  "check_cpu_governor d getenv =
     (if getenv ''AFL_SKIP_CPUFREQ'' \<noteq> None then Inr ()
      else case text_of d ''/sys/devices/system/cpu/cpu0/cpufreq/scaling_governor'' of
        None \<Rightarrow> Inr ()
      | Some t \<Rightarrow>
          if t = [] then Inl (Fatal ''fgets() failed'')
          else if take 4 t = bytes_of ''perf'' then Inr ()
          else if freq d ''/sys/devices/system/cpu/cpu0/cpufreq/scaling_min_freq'' =
                  freq d ''/sys/devices/system/cpu/cpu0/cpufreq/scaling_max_freq''
          then Inr ()
          else Inl (Fatal ''Suboptimal CPU scaling governor''))"

text \<open>The file for the input, when the target reads its standard input.\<close>

definition setup_stdio_file :: "env \<Rightarrow> 'a world_scheme \<Rightarrow> 'a world_scheme res" where
  "setup_stdio_file E s =
     (let fn = out_dir s @ ''/.cur_input'';
          s1 = (case unlink_file fn s of None \<Rightarrow> s | Some t \<Rightarrow> t)
      in create_excl E fn [] s1)"

end
