(* ===== verification/Config.thy ===== *)
theory Config
  imports Options Startup
begin

unbundle bit_operations_syntax

section \<open>What an accepted command line guarantees\<close>

text \<open>
  Numbers on the command line are read back exactly; whatever the words are, an accepted command line
  leaves a consistent configuration, except for one check that \<open>-S\<close> and \<open>-M\<close> by-pass.
\<close>

subsection \<open>Decimal numbers\<close>

lemma bytes_of_append [simp]: "bytes_of (xs @ ys) = bytes_of xs @ bytes_of ys"
  by (simp add: bytes_of_def)

lemma bytes_of_digit:
  assumes "d < 10" shows "bytes_of [digit d] = [48 + of_nat d]" and "isdigit (48 + of_nat d)"
    and "uint (48 + of_nat d :: u8) - 48 = int d"
proof -
  have u: "unat (48 + of_nat d :: u8) = 48 + d" using assms by (simp add: unat_word_ariths unat_of_nat)
  have "(of_char (digit d) :: nat) = 48 + d" using assms by (simp add: digit_def)
  then have "unat (of_char (digit d) :: u8) = 48 + d"
    using assms by (metis of_char_of of_nat_of_char u unat_of_nat of_nat_add of_nat_numeral)
  then show "bytes_of [digit d] = [48 + of_nat d]" using u by (simp add: bytes_of_def word_unat_eq_iff)
  show "isdigit (48 + of_nat d)" using assms u by (simp add: isdigit_def word_le_nat_alt)
  show "uint (48 + of_nat d :: u8) - 48 = int d" using u by (metis add_diff_cancel_left' of_nat_add of_nat_numeral uint_nat)
qed

lemma digits_val_snoc:
  assumes "list_all isdigit l" and "isdigit c"
  shows "digits_val (l @ [c]) = 10 * digits_val l + (uint c - 48)"
proof -
  have "takeWhile isdigit l = l" "takeWhile isdigit (l @ [c]) = l @ [c]"
    using assms by (simp_all add: list_all_iff takeWhile_eq_all_conv)
  then show ?thesis by (simp only: digits_val_def foldl_append foldl.simps)
qed

lemma dec_digits: "list_all isdigit (bytes_of (dec n)) \<and> digits_val (bytes_of (dec n)) = int n \<and> dec n \<noteq> []"
proof (induction n rule: dec.induct)
  case (1 n)
  show ?case
  proof (cases "n < 10")
    case True
    then show ?thesis using bytes_of_digit [OF True]
      by (subst (1 2 3) dec.simps) (simp add: digits_val_def)
  next
    case False
    have d: "n mod 10 < 10" by simp
    note b = bytes_of_digit [OF d]
    have "int n = 10 * int (n div 10) + int (n mod 10)" by (simp add: zdiv_int zmod_int)
    then show ?thesis using 1 [OF False] b digits_val_snoc [of "bytes_of (dec (n div 10))", OF _ b(2)] False
      by (subst (1 2 3) dec.simps) simp
  qed
qed

lemma digits_prefix:
  assumes "list_all isdigit l" and "r = [] \<or> \<not> isdigit (hd r)"
  shows "takeWhile isdigit (l @ r) = l" and "skip isdigit (l @ r) = r" and "digits_val (l @ r) = digits_val l"
proof -
  have "takeWhile isdigit r = []" "dropWhile isdigit r = r" using assms(2) by (cases r; auto)+
  then show t: "takeWhile isdigit (l @ r) = l" "skip isdigit (l @ r) = r"
    using assms(1) by (simp_all add: list_all_iff skip_def)
  have "takeWhile isdigit l = l" using assms(1) by (simp add: list_all_iff takeWhile_eq_all_conv)
  then show "digits_val (l @ r) = digits_val l" using t(1) by (simp only: digits_val_def)
qed

lemma dec_head:
  obtains c cs where "bytes_of (dec n) = c # cs" and "isdigit c" and "\<not> isspace c" and "c \<noteq> 45" and "c \<noteq> 43"
proof -
  obtain c cs where b: "bytes_of (dec n) = c # cs" using dec_digits [of n] by (cases "dec n") (auto simp: bytes_of_def)
  then have d: "isdigit c" using dec_digits [of n] by simp
  then have "48 \<le> unat c" by (simp add: isdigit_def word_le_nat_alt)
  then have "\<not> isspace c" "c \<noteq> 45" "c \<noteq> 43" by (auto simp: isspace_def word_le_nat_alt word_unat_eq_iff)
  then show thesis using that b d by blast
qed

lemma scan_dec:
  assumes "n < 2 ^ 64" and "r = [] \<or> \<not> isdigit (hd r)"
  shows "scan_unsigned (bytes_of (dec n) @ r) = Some (of_nat n, r)"
proof -
  obtain c cs where c: "bytes_of (dec n) = c # cs" "isdigit c" "\<not> isspace c" "c \<noteq> 45" "c \<noteq> 43" by (rule dec_head)
  have l: "list_all isdigit (c # cs)" "digits_val (c # cs) = int n" using dec_digits [of n] c(1) by simp_all
  note p = digits_prefix [OF l(1) assms(2)]
  have s: "skip isspace (c # cs @ r) = c # cs @ r" using c(3) by (simp add: skip_def)
  show ?thesis
    using c p l(2) assms(1) unfolding scan_unsigned_def Let_def c(1) append_Cons s by simp
qed

lemma atoi_dec:
  assumes "r = [] \<or> \<not> isdigit (hd r)"
  shows "atoi (bytes_of (dec n) @ r) = of_nat n"
proof -
  obtain c cs where c: "bytes_of (dec n) = c # cs" "isdigit c" "\<not> isspace c" "c \<noteq> 45" "c \<noteq> 43" by (rule dec_head)
  have l: "list_all isdigit (c # cs)" "digits_val (c # cs) = int n" using dec_digits [of n] c(1) by simp_all
  note p = digits_prefix [OF l(1) assms]
  have s: "skip isspace (c # cs @ r) = c # cs @ r" using c(3) by (simp add: skip_def)
  show ?thesis
    using c p l(2) unfolding atoi_def c(1) append_Cons s by simp
qed

subsection \<open>Numbers on the command line\<close>

lemma take_minus: "take 1 (dec n @ r) \<noteq> ''-''"
proof -
  obtain c cs where c: "bytes_of (dec n) = c # cs" "c \<noteq> 45" by (rule dec_head)
  then have "dec n \<noteq> [] \<and> of_char (hd (dec n)) \<noteq> (45 :: u8)" by (cases "dec n") (auto simp: bytes_of_def)
  then show ?thesis by (cases "dec n") auto
qed

definition mem_scaled :: "char \<Rightarrow> nat \<Rightarrow> nat" where
  "mem_scaled c n = (if c = CHR ''k'' then n div 1024 else if c = CHR ''G'' then n * 1024
     else if c = CHR ''T'' then n * (1024 * 1024) else n)"

text \<open>
  Numbers given to \<open>-t\<close> and \<open>-m\<close> in decimal are read back exactly: \<open>-t n\<close> and \<open>-t n+\<close> set
  \<open>exec_tmout\<close> to \<open>n\<close> and \<open>timeout_given\<close> to 1 and 2 and refuse less than 5; \<open>-m n\<close> with a suffix
  \<open>k\<close>, \<open>M\<close>, \<open>G\<close> or \<open>T\<close> sets \<open>mem_limit\<close> to \<open>n\<close> scaled to megabytes, rounded down, and refuses
  less than 5 (below \<open>2^44\<close>, from where on the scaling by \<open>T\<close> wraps around).
\<close>

theorem numeric_options:
  assumes "timeout_given s = 0" and "n < 2 ^ 32" and "\<not> mem_limit_given u" and "m < 2 ^ 44"
    and "c \<in> {CHR ''k'', CHR ''M'', CHR ''G'', CHR ''T''}"
  shows "opt_timeout (dec n @ (if scaled then ''+'' else '''')) s =
      (if n < 5 then Inl (Fatal ''Dangerously low value of -t'')
       else Inr (s\<lparr>exec_tmout := of_nat n, timeout_given := (if scaled then 2 else 1)\<rparr>)) \<and>
    opt_mem (dec m @ [c]) u =
      (if mem_scaled c m < 5 then Inl (Fatal ''Dangerously low value of -m'')
       else Inr (u\<lparr>mem_limit_given := True, mem_limit := of_nat (mem_scaled c m)\<rparr>))"
proof (intro conjI)
  let ?p = "if scaled then ''+'' else ''''"
  have p: "bytes_of ?p = (if scaled then [43] else [])" by (simp add: bytes_of_def)
  have sc: "scan_unsigned (bytes_of (dec n @ ?p)) = Some (of_nat n, bytes_of ?p)"
    unfolding bytes_of_append using assms(2) by (intro scan_dec) (auto simp: p isdigit_def)
  have v: "ucast (of_nat n :: u64) = (of_nat n :: u32)" using assms(2) by (simp add: unsigned_of_nat take_bit_nat_eq_self)
  have low: "(of_nat n :: u32) < 5 \<longleftrightarrow> n < 5" using assms(2) by (simp add: word_less_nat_alt unat_of_nat)
  show "opt_timeout (dec n @ ?p) s = (if n < 5 then Inl (Fatal ''Dangerously low value of -t'')
       else Inr (s\<lparr>exec_tmout := of_nat n, timeout_given := (if scaled then 2 else 1)\<rparr>))"
    using assms(1) take_minus [of n ?p] low unfolding opt_timeout_def sc Let_def by (simp add: v p)
next
  have nd: "[of_char c] = [] \<or> \<not> isdigit (hd [of_char c :: u8])"
    using assms(5) by (auto simp: isdigit_def)
  have sc: "scan_unsigned (bytes_of (dec m @ [c])) = Some (of_nat m, [of_char c])"
    unfolding bytes_of_append using scan_dec [OF _ nd, of m] assms(4) by (simp add: bytes_of_def)
  have u: "unat (of_nat m :: u64) = m" using assms(4) by (simp add: unat_of_nat)
  have d: "of_nat m div 1024 = (of_nat (m div 1024) :: u64)"
    using u by (simp add: word_unat_eq_iff unat_div_distrib unat_of_nat)
  have x: "mem_suffix [of_char c] (of_nat m) = Some (of_nat (mem_scaled c m))"
    using assms(5) by (elim insertE emptyE) (simp_all add: mem_suffix_def mem_scaled_def d)
  have "mem_scaled c m < 2 ^ 64" using assms(4) by (auto simp: mem_scaled_def)
  then have low: "(of_nat (mem_scaled c m) :: u64) < 5 \<longleftrightarrow> mem_scaled c m < 5" by (simp add: word_less_nat_alt unat_of_nat)
  have nn: "dec m @ [c] \<noteq> ''none''"
  proof
    assume e: "dec m @ [c] = ''none''"
    have "last (dec m @ [c]) = last ''none''" unfolding e ..
    then show False using assms(5) by auto
  qed
  show "opt_mem (dec m @ [c]) u = (if mem_scaled c m < 5 then Inl (Fatal ''Dangerously low value of -m'')
       else Inr (u\<lparr>mem_limit_given := True, mem_limit := of_nat (mem_scaled c m)\<rparr>))"
    unfolding opt_mem_def Let_def if_not_P [OF assms(3)] if_not_P [OF nn] sc option.case prod.case
      if_not_P [OF take_minus] x low by (rule refl)
qed

definition opt_demo :: opt_st where
  "opt_demo = main_st.extend demo_main (opt_st.fields None None None None None '''' 50 False False False)"

theorem numeric_options_witness:
  "opt_timeout (dec 250 @ ''+'') opt_demo = Inr (opt_demo\<lparr>exec_tmout := 250, timeout_given := 2\<rparr>) \<and>
   opt_mem (dec 3 @ ''G'') opt_demo = Inr (opt_demo\<lparr>mem_limit_given := True, mem_limit := 3072\<rparr>)"
  using numeric_options [of opt_demo 250 opt_demo 3 "CHR ''G''" True]
  by (simp add: opt_demo_def demo_main_def main_st.defs opt_st.defs mem_scaled_def)

subsection \<open>Accepted configurations\<close>

text \<open>What every option leaves in order.\<close>

definition opts_ok :: "'a opt_st_scheme \<Rightarrow> bool" where
  "opts_ok s \<longleftrightarrow> 5 \<le> exec_tmout s \<and> hang_tmout s \<noteq> 0 \<and> (mem_limit s = 0 \<or> 5 \<le> mem_limit s) \<and>
     master_id s \<le> master_max s \<and> master_max s \<le> 1000000 \<and> (master_max s \<noteq> 0 \<longrightarrow> master_id s \<noteq> 0 \<and> force_deterministic s)"

lemma opts_ok_updates [simp]:
  "opts_ok (s\<lparr>TF_switch := b\<rparr>) = opts_ok s" "opts_ok (s\<lparr>in_arg := x\<rparr>) = opts_ok s"
  "opts_ok (s\<lparr>out_arg := x\<rparr>) = opts_ok s" "opts_ok (s\<lparr>in_place_resume := b\<rparr>) = opts_ok s"
  "opts_ok (s\<lparr>sync_id := x\<rparr>) = opts_ok s" "opts_ok (s\<lparr>out_file := x\<rparr>) = opts_ok s"
  "opts_ok (s\<lparr>extras_dir := x\<rparr>) = opts_ok s" "opts_ok (s\<lparr>skip_deterministic := b\<rparr>) = opts_ok s"
  "opts_ok (s\<lparr>use_splicing := b\<rparr>) = opts_ok s" "opts_ok (s\<lparr>in_bitmap := x\<rparr>) = opts_ok s"
  "opts_ok (s\<lparr>crash_mode := f\<rparr>) = opts_ok s" "opts_ok (s\<lparr>dumb_mode := m\<rparr>) = opts_ok s"
  "opts_ok (s\<lparr>use_banner := x\<rparr>) = opts_ok s" "opts_ok (s\<lparr>qemu_mode := b\<rparr>) = opts_ok s"
  "opts_ok (s\<lparr>virgin_bits := v\<rparr>) = opts_ok s" "opts_ok (s\<lparr>exit_1 := b\<rparr>) = opts_ok s"
  "opts_ok (s\<lparr>in_dir := d\<rparr>) = opts_ok s" "opts_ok (s\<lparr>out_dir := d\<rparr>) = opts_ok s"
  "opts_ok (s\<lparr>sync_dir := d\<rparr>) = opts_ok s" "opts_ok (s\<lparr>no_forkserver := b\<rparr>) = opts_ok s"
  "opts_ok (s\<lparr>no_arith := b\<rparr>) = opts_ok s" "opts_ok (s\<lparr>shuffle_queue := b\<rparr>) = opts_ok s"
  "opts_ok (s\<lparr>fast_cal := b\<rparr>) = opts_ok s" "opts_ok (s\<lparr>orig_cmdline := t\<rparr>) = opts_ok s"
  "opts_ok (s\<lparr>timeout_given := g\<rparr>) = opts_ok s" "opts_ok (s\<lparr>mem_limit_given := b\<rparr>) = opts_ok s"
  by (simp_all add: opts_ok_def)

lemma opts_ok_master: "opts_ok s \<Longrightarrow> safe opts_ok (opt_master arg s)"
  by (auto simp: opt_master_def Let_def safe_def opts_ok_def split: list.split option.split)

lemma opts_ok_timeout:
  fixes s :: "'a opt_st_scheme"
  shows "opts_ok s \<Longrightarrow> safe opts_ok (opt_timeout arg s)"
  by (auto simp: opt_timeout_def Let_def safe_def opts_ok_def not_less split: option.split)

lemma opts_ok_mem: "opts_ok s \<Longrightarrow> safe opts_ok (opt_mem arg s)"
  by (auto simp: opt_mem_def Let_def safe_def opts_ok_def not_less split: option.split)

lemma opts_ok_parse: "opts_ok s \<Longrightarrow> safe opts_ok (parse_opt getenv opt s)"
proof -
  assume s: "opts_ok s"
  have q: "opts_ok (s\<lparr>qemu_mode := True, mem_limit := MEM_LIMIT_QEMU\<rparr>)"
    using s by (simp add: opts_ok_def MEM_LIMIT_QEMU_def)
  then have q': "opts_ok (if mem_limit_given s then s\<lparr>qemu_mode := True\<rparr> else s\<lparr>qemu_mode := True, mem_limit := MEM_LIMIT_QEMU\<rparr>)"
    using s by simp
  have b: "safe opts_ok (read_bitmap fn (s\<lparr>in_bitmap := x\<rparr>))" for fn x
    using s by (simp add: read_bitmap_def safe_def split: option.split)
  have i: "safe opts_ok (opt_in arg s)" "safe opts_ok (opt_out arg s)" for arg
    using s by (simp_all add: opt_in_def opt_out_def safe_def)
  have e: "safe opts_ok (Inl (Fatal m) :: 'a opt_st_scheme res)" for m by (simp add: safe_def)
  obtain c arg where o: "opt = (c, arg)" by fastforce
  show ?thesis
    unfolding o parse_opt_def prod.case
    by (intro if_split [where P = "safe opts_ok", THEN iffD2] conjI impI)
      (simp_all only: safe_Inr opts_ok_updates s q' b i e opts_ok_master opts_ok_timeout opts_ok_mem)
qed

definition id_ok :: "'a opt_st_scheme \<Rightarrow> bool" where
  "id_ok s \<longleftrightarrow> (\<forall>x. sync_id s = Some x \<longrightarrow> list_all id_char x \<and> length x \<le> 32 \<and> dumb_mode s = 0 \<and>
     out_dir s = sync_dir s @ ''/'' @ x \<and> skip_deterministic s = (\<not> force_deterministic s))"

definition modes_ok :: "'a opt_st_scheme \<Rightarrow> bool" where
  "modes_ok s \<longleftrightarrow> in_dir s \<noteq> out_dir s \<and> (dumb_mode s \<noteq> 0 \<longrightarrow> crash_mode s = FAULT_NONE \<and> \<not> qemu_mode s)"

lemma fix_up_sync_ok:
  assumes "opts_ok s" and "sync_id s = Some x"
  shows "safe (\<lambda>t. opts_ok t \<and> id_ok t) (fix_up_sync x s)"
  using assms by (auto simp: fix_up_sync_def Let_def safe_def id_ok_def)

lemma env_settings_ok:
  assumes "opts_ok s \<and> id_ok s \<and> modes_ok s"
  shows "safe (\<lambda>t. opts_ok t \<and> id_ok t \<and> modes_ok t \<and> (dumb_mode t = 2 \<longrightarrow> \<not> no_forkserver t)) (env_settings getenv s)"
proof -
  define u where "u = s\<lparr>no_forkserver := no_forkserver s \<or> getenv ''AFL_NO_FORKSRV'' \<noteq> None,
                 no_arith := no_arith s \<or> getenv ''AFL_NO_ARITH'' \<noteq> None,
                 shuffle_queue := shuffle_queue s \<or> getenv ''AFL_SHUFFLE_QUEUE'' \<noteq> None,
                 fast_cal := fast_cal s \<or> getenv ''AFL_FAST_CAL'' \<noteq> None\<rparr>"
  have u: "opts_ok u \<and> id_ok u \<and> modes_ok u" using assms by (simp add: u_def id_ok_def modes_ok_def)
  then have h: "opts_ok (u\<lparr>hang_tmout := v\<rparr>) \<and> id_ok (u\<lparr>hang_tmout := v\<rparr>) \<and> modes_ok (u\<lparr>hang_tmout := v\<rparr>)" if "v \<noteq> 0" for v
    using that by (simp add: opts_ok_def id_ok_def modes_ok_def)
  have "safe (\<lambda>t. opts_ok t \<and> id_ok t \<and> modes_ok t) (case getenv ''AFL_HANG_TMOUT'' of None \<Rightarrow> Inr u
      | Some v \<Rightarrow> if atoi (bytes_of v) = 0 then Inl (Fatal m) else Inr (u\<lparr>hang_tmout := atoi (bytes_of v)\<rparr>))" for m
    using u h by (cases "getenv ''AFL_HANG_TMOUT''") (simp_all add: safe_def)
  then show ?thesis
    unfolding env_settings_def Let_def u_def [symmetric] by (rule safe_bnd) (simp add: safe_def)
qed

lemma fix_up_banner_ok:
  "opts_ok (fix_up_banner p s) = opts_ok s" "id_ok (fix_up_banner p s) = id_ok s"
  "modes_ok (fix_up_banner p s) = modes_ok s" "dumb_mode (fix_up_banner p s) = dumb_mode s"
  "no_forkserver (fix_up_banner p s) = no_forkserver s"
  "\<exists>b. use_banner (fix_up_banner p s) = Some b \<and> length b \<le> 43"
  by (simp_all add: fix_up_banner_def Let_def id_ok_def modes_ok_def)

lemma save_cmdline_ok:
  "opts_ok (save_cmdline ws s) = opts_ok s" "id_ok (save_cmdline ws s) = id_ok s"
  "modes_ok (save_cmdline ws s) = modes_ok s" "dumb_mode (save_cmdline ws s) = dumb_mode s"
  "no_forkserver (save_cmdline ws s) = no_forkserver s"
  by (simp_all add: save_cmdline_def id_ok_def modes_ok_def)

lemma configure_ok:
  assumes "opts_ok s"
  shows "safe (\<lambda>t. opts_ok t \<and> id_ok t \<and> modes_ok t \<and> (dumb_mode t = 2 \<longrightarrow> \<not> no_forkserver t) \<and>
      (\<exists>b. use_banner t = Some b \<and> length b \<le> 43)) (configure getenv argv s)" (is "safe ?P _")
proof -
  obtain opts rest where g: "getopt (tl argv) = (opts, rest)" by fastforce
  let ?s = "s\<lparr>exit_1 := getenv ''AFL_BENCH_JUST_ONE'' \<noteq> None\<rparr>"
  have p: "safe opts_ok (fold_res (parse_opt getenv) opts ?s)"
    by (rule safe_fold_res [where R = opts_ok, OF opts_ok_parse]) (simp_all add: assms)
  have tail: "safe ?P (bnd (check_asan_opts getenv) (\<lambda>_. bnd (case sync_id u of None \<Rightarrow> Inr u | Some x \<Rightarrow> fix_up_sync x u) (\<lambda>s.
            bnd (check_modes s) (\<lambda>s. bnd (env_settings getenv s) (\<lambda>s. Inr (fix_up_banner prog (save_cmdline argv s)))))))"
    if u: "opts_ok u" for prog and u :: "'a opt_st_scheme"
  proof (rule safe_bnd [where Q = "\<lambda>_. True"], goal_cases)
    case 1
    show ?case by (simp add: check_asan_opts_def Let_def safe_def)
  next
    case 2
    have i: "safe (\<lambda>t. opts_ok t \<and> id_ok t) (case sync_id u of None \<Rightarrow> Inr u | Some x \<Rightarrow> fix_up_sync x u)"
      using u fix_up_sync_ok [OF u] by (auto simp: id_ok_def split: option.split)
    have m: "safe (\<lambda>t. opts_ok t \<and> id_ok t \<and> modes_ok t) (check_modes t)" if "opts_ok t \<and> id_ok t" for t :: "'a opt_st_scheme"
      using that by (auto simp: check_modes_def safe_def modes_ok_def)
    show ?case
      by (rule safe_bnd [OF i], rule safe_bnd [OF m], assumption, rule safe_bnd [OF env_settings_ok], assumption)
        (simp add: fix_up_banner_ok save_cmdline_ok)
  qed
  show ?thesis
    unfolding configure_def g prod.case
  proof (rule safe_bnd [OF p], goal_cases)
    case (1 t)
    have "opts_ok (t\<lparr>in_dir := i, out_dir := d\<rparr>)" for i d using 1 by simp
    note d = tail [OF this]
    show ?case
    proof (cases "rest = [] \<or> in_arg t = None \<or> out_arg t = None")
      case True
      then show ?thesis by (cases rest; cases "in_arg t"; cases "out_arg t") (simp_all add: safe_def [of _ "Inl _"])
    next
      case False
      then obtain prog ws i out where r: "rest = prog # ws" "in_arg t = Some i" "out_arg t = Some out"
        by (cases rest; cases "in_arg t"; cases "out_arg t") simp_all
      show ?thesis unfolding r prod.case list.case option.case Let_def by (rule d)
    qed
  qed
qed

text \<open>
  C27: Whatever the words and the environment are, reading the command line ends, and a configuration
  it accepts is consistent: \<open>exec_tmout\<close> is at least 5, \<open>hang_tmout\<close> not 0, the memory limit off or at
  least 5; \<open>master_id\<close> is between 1 and \<open>master_max\<close> when a split is given; a fuzzer id has at most 32
  letters, digits, \<open>_\<close> and \<open>-\<close>, names the subdirectory of \<open>sync_dir\<close> that is the output directory,
  excludes dumb mode and fixes whether deterministic stages run; the input directory is not the output
  directory; dumb mode excludes crash mode and QEMU, and its fork server the absence of one; and the
  banner has at most 43 characters.
\<close>

theorem configure_consistent:
  assumes "opts_ok s"
  shows "configure getenv argv s \<noteq> Inl Diverges \<and>
    (\<forall>t. configure getenv argv s = Inr t \<longrightarrow>
       5 \<le> exec_tmout t \<and> hang_tmout t \<noteq> 0 \<and> (mem_limit t = 0 \<or> 5 \<le> mem_limit t) \<and>
       master_id t \<le> master_max t \<and> master_max t \<le> 1000000 \<and> (master_max t \<noteq> 0 \<longrightarrow> master_id t \<noteq> 0) \<and>
       (\<forall>x. sync_id t = Some x \<longrightarrow> list_all id_char x \<and> length x \<le> 32 \<and> dumb_mode t = 0 \<and>
          out_dir t = sync_dir t @ ''/'' @ x \<and> skip_deterministic t = (\<not> force_deterministic t)) \<and>
       in_dir t \<noteq> out_dir t \<and> (dumb_mode t \<noteq> 0 \<longrightarrow> crash_mode t = FAULT_NONE \<and> \<not> qemu_mode t) \<and>
       (dumb_mode t = 2 \<longrightarrow> \<not> no_forkserver t) \<and> (\<exists>b. use_banner t = Some b \<and> length b \<le> 43))"
proof -
  note ok = configure_ok [OF assms, of getenv argv]
  have "opts_ok t \<and> id_ok t \<and> modes_ok t \<and> (dumb_mode t = 2 \<longrightarrow> \<not> no_forkserver t) \<and>
      (\<exists>b. use_banner t = Some b \<and> length b \<le> 43)" if "configure getenv argv s = Inr t" for t
    using ok unfolding that safe_Inr .
  then show ?thesis using ok by (auto simp: safe_def ends_def opts_ok_def id_ok_def modes_ok_def)
qed

text \<open>
  The check that input and output directories differ comes after \<open>fix_up_sync\<close>: the same directory for
  both is refused without \<open>-S\<close> and accepted with it.
\<close>

definition dirs :: "opt_st res \<Rightarrow> (string \<times> string \<times> string) option" where
  "dirs r = (case r of Inl e \<Rightarrow> None | Inr s \<Rightarrow> Some (in_dir s, sync_dir s, out_dir s))"

lemma demo_accepted:
  "dirs (configure (\<lambda>_. None) [''afl-fuzz'', ''-i'', ''x'', ''-o'', ''x'', ''-S'', ''a'', ''prog''] opt_demo) =
     Some (''x'', ''x'', ''x/a'')"
  by code_simp

theorem same_directories:
  "dirs (configure (\<lambda>_. None) [''afl-fuzz'', ''-i'', ''x'', ''-o'', ''x'', ''-S'', ''a'', ''prog''] opt_demo) =
     Some (''x'', ''x'', ''x/a'') \<and>
   configure (\<lambda>_. None) [''afl-fuzz'', ''-i'', ''x'', ''-o'', ''x'', ''prog''] opt_demo =
     Inl (Fatal ''Input and output directories can't be the same'')"
  by (intro conjI demo_accepted) (simp add: configure_def parse_opt_def opt_in_def opt_out_def check_asan_opts_def
      lacks_def check_modes_def opt_demo_def demo_main_def main_st.defs opt_st.defs)

theorem configure_consistent_witness:
  "\<exists>t. configure (\<lambda>_. None) [''afl-fuzz'', ''-i'', ''x'', ''-o'', ''x'', ''-S'', ''a'', ''prog''] opt_demo = Inr t \<and>
     in_dir t \<noteq> out_dir t \<and> in_dir t = sync_dir t \<and> (\<exists>b. use_banner t = Some b \<and> length b \<le> 43)"
proof -
  have ok: "opts_ok opt_demo" by (simp add: opts_ok_def opt_demo_def demo_main_def main_st.defs opt_st.defs)
  obtain t where t: "configure (\<lambda>_. None) [''afl-fuzz'', ''-i'', ''x'', ''-o'', ''x'', ''-S'', ''a'', ''prog''] opt_demo = Inr t"
    "in_dir t = sync_dir t" using demo_accepted by (auto simp: dirs_def split: sum.splits)
  then show ?thesis using configure_consistent [OF ok, of "\<lambda>_. None", THEN conjunct2, rule_format, OF t(1)] by blast
qed

end
