(* ===== verification/Resume.thy ===== *)
theory Resume
  imports Stats Config
begin

unbundle bit_operations_syntax

section \<open>Resuming from the statistics file\<close>

text \<open>
  What \<open>write_stats_file\<close> writes, \<open>find_start_position\<close> finds: the number of the current entry. What
  \<open>find_timeout\<close> looks for is never there.
\<close>

subsection \<open>Searching line by line\<close>

lemma strstr_Cons: "strstr (c # cs) (k # ks) = (if c = k \<and> take (length ks) cs = ks then Some (c # cs) else strstr cs (k # ks))"
  by (subst strstr.simps) simp

lemma strstr_Nil: "strstr [] (k # ks) = None"
  by (subst strstr.simps) simp

lemma strstr_line:
  assumes "newline \<notin> set (k # ks)" and "strstr l (k # ks) = None"
  shows "strstr (l @ newline # r) (k # ks) = strstr r (k # ks)"
  using assms(2)
proof (induction l)
  case Nil
  then show ?case using assms(1) by (simp add: strstr_Cons)
next
  case (Cons c cs)
  have "\<not> (c = k \<and> take (length ks) cs = ks)" and n: "strstr cs (k # ks) = None"
    using Cons.prems by (auto simp: strstr_Cons split: if_splits)
  moreover have "take (length ks) (cs @ newline # r) \<noteq> ks" if "take (length ks) cs \<noteq> ks"
  proof
    assume e: "take (length ks) (cs @ newline # r) = ks"
    have "length ks \<le> length cs"
    proof (rule ccontr)
      assume "\<not> length ks \<le> length cs"
      then have "newline \<in> set (take (length ks) (cs @ newline # r))"
        by (cases "length ks - length cs") simp_all
      then show False using assms(1) unfolding e by simp
    qed
    then show False using e that by simp
  qed
  ultimately show ?case using Cons.IH [OF n] by (auto simp: strstr_Cons)
qed

lemma strstr_lines:
  assumes "newline \<notin> set (k # ks)" and "\<forall>l \<in> set ls. strstr l (k # ks) = None"
  shows "strstr (lines_text ls @ r) (k # ks) = strstr r (k # ks)"
  using assms(2)
proof (induction ls)
  case (Cons l ls)
  then show ?case using strstr_line [OF assms(1), of l "lines_text ls @ r"] by (simp add: lines_text_def)
qed (simp add: lines_text_def)

text \<open>A key that begins with a character the text lacks is passed over.\<close>

lemma strstr_lacks: "k \<notin> set xs \<Longrightarrow> strstr (xs @ r) (k # ks) = strstr r (k # ks)"
  by (induction xs) (auto simp: strstr_Cons)

lemma strstr_lacks_all: "k \<notin> set xs \<Longrightarrow> strstr xs (k # ks) = None"
  using strstr_lacks [of k xs "[]" ks] by (simp add: strstr_Nil)

lemma set_dec: "set (dec n) \<subseteq> {c. isdigit (of_char c)}"
  using dec_digits [of n] by (auto simp: bytes_of_def list_all_iff)

lemma dec_lacks: "\<not> isdigit (of_char c) \<Longrightarrow> c \<notin> set (dec n)"
  using set_dec [of n] by auto

lemma fixed2_lacks: "\<not> isdigit (of_char c) \<Longrightarrow> c \<noteq> CHR ''.'' \<Longrightarrow> c \<notin> set (fixed2 v)"
  using dec_lacks [of c] by (auto simp: fixed2_def dec_pad_def isdigit_def)

lemma strstr_take: "strstr (take n xs) (k # ks) = Some r \<Longrightarrow> strstr xs (k # ks) \<noteq> None"
proof (induction xs arbitrary: n)
  case (Cons c cs)
  then show ?case
  proof (cases n)
    case (Suc m)
    have "take (length ks) cs = ks" if t: "take (length ks) (take m cs) = ks"
    proof -
      have "length (take (length ks) (take m cs)) = length ks" using t by simp
      then show ?thesis using t by (simp add: min_def split: if_splits)
    qed
    then show ?thesis using Cons Suc by (auto simp: strstr_Cons split: if_splits)
  qed (simp add: strstr_Nil)
qed (simp add: strstr_Nil)

subsection \<open>Lengths\<close>

lemma length_dec: "n < 10 ^ Suc k \<Longrightarrow> length (dec n) \<le> Suc k"
proof (induction k arbitrary: n)
  case 0
  then show ?case by (subst dec.simps) simp
next
  case (Suc k)
  have "n div 10 < 10 ^ Suc k" using Suc.prems by (simp add: less_mult_imp_div_less mult.commute)
  then show ?case using Suc.IH [of "n div 10"] by (subst dec.simps) simp
qed

lemma length_dec64: "length (dec (unat (w :: u64))) \<le> 20"
proof -
  have "unat w < 10 ^ Suc 19" using unsigned_less [where 'a = nat, of w] by simp
  then show ?thesis using length_dec by fastforce
qed

lemma length_dec32: "length (dec (unat (w :: u32))) \<le> 10"
proof -
  have "unat w < 10 ^ Suc 9" using unsigned_less [where 'a = nat, of w] by simp
  then show ?thesis using length_dec by fastforce
qed

lemma length_fixed2: "length (fixed2 v) \<le> 23"
proof -
  have "unat v div 100 < 10 ^ Suc 19" using unsigned_less [where 'a = nat, of v] by simp
  then have "length (dec (unat v div 100)) \<le> 20" using length_dec by fastforce
  moreover have "length (dec (unat v mod 100)) \<le> 2" using length_dec [of "unat v mod 100" 1] by simp
  ultimately show ?thesis by (simp add: fixed2_def dec_pad_def)
qed

lemma length_head: "length (lines_text (stats_head pid now s)) \<le> 500"
proof -
  note b = length_dec64 [of "start_time s div 1000"] length_dec64 [of "now div 1000"] length_dec32 [of pid]
    length_dec64 [of "if queue_cycle s \<noteq> 0 then queue_cycle s - 1 else 0"] length_dec64 [of "total_execs s"]
    length_fixed2 [of "last_eps s"] length_dec32 [of "queued_paths s"] length_dec32 [of "queued_favored s"]
    length_dec32 [of "queued_discovered s"] length_dec32 [of "queued_imported s"] length_dec32 [of "max_depth s"]
  show ?thesis unfolding lines_text_def stats_head_def using b by simp
qed

subsection \<open>The file as C strings\<close>

lemma chars_back: "map (\<lambda>b. char_of (unat b)) (bytes_of xs) = (xs :: string)"
proof -
  have "char_of (unat (of_char c :: u8)) = c" for c
  proof -
    have "(of_char c :: nat) < 256" by simp
    then have "unat (of_nat (of_char c) :: u8) = of_char c" by (simp add: unat_of_nat del: of_nat_of_char)
    then have "unat (of_char c :: u8) = of_char c" unfolding of_nat_of_char .
    then show ?thesis by simp
  qed
  then show ?thesis by (simp add: bytes_of_def map_idI)
qed


lemma c_string_take: "\<exists>k. map (\<lambda>b. char_of (unat b)) (c_string (take n (bytes_of xs))) = take k xs"
proof -
  obtain j where "c_string (take n (bytes_of xs)) = take j (take n (bytes_of xs))"
    using takeWhile_eq_take unfolding c_string_def by blast
  then have "map (\<lambda>b. char_of (unat b)) (c_string (take n (bytes_of xs))) =
      take (min j n) (map (\<lambda>b. char_of (unat b)) (bytes_of xs))"
    by (simp add: take_map)
  then show ?thesis unfolding chars_back by blast
qed

lemma c_string_prefix:
  assumes "CHR 0x00 \<notin> set a" and "length a \<le> n"
  shows "c_string (take n (bytes_of (a @ b))) = bytes_of a @ c_string (take (n - length a) (bytes_of b))"
proof -
  have z: "(of_char c :: u8) = 0 \<Longrightarrow> c = CHR 0x00" for c
  proof -
    assume "(of_char c :: u8) = 0"
    then have "unat (of_char c :: u8) = 0" by simp
    then have "char_of (unat (of_char c :: u8)) = (char_of (0 :: nat) :: char)" by simp
    moreover have "char_of (unat (of_char c :: u8)) = c" using chars_back [of "[c]"] by (simp add: bytes_of_def)
    ultimately show ?thesis by (simp add: char_of_def)
  qed
  have l: "length (bytes_of a) = length a" by (simp add: bytes_of_def)
  have "\<forall>x \<in> set (bytes_of a). x \<noteq> 0" using assms(1) z by (auto simp: bytes_of_def)
  then show ?thesis
    using assms(2) l by (simp add: c_string_def takeWhile_append2)
qed

subsection \<open>What the keys meet\<close>

lemma key_newline:
  "newline \<notin> set ''cur_path          : ''" "newline \<notin> set ''exec_timeout   : ''"
  by (simp_all add: newline_def)

lemma head_quiet: "\<forall>l \<in> set (stats_head pid now s). strstr l ''cur_path          : '' = None"
proof -
  have d: "strstr (dec n) ''cur_path          : '' = None" for n
    by (rule strstr_lacks_all) (rule dec_lacks, simp add: isdigit_def)
  have f: "strstr (fixed2 v) ''cur_path          : '' = None" for v
    by (rule strstr_lacks_all) (rule fixed2_lacks, simp_all add: isdigit_def)
  show ?thesis by (simp add: stats_head_def strstr_Cons d f)
qed

lemma head_no_timeout: "\<forall>l \<in> set (stats_head pid now s). strstr l ''exec_timeout   : '' = None"
proof -
  have d: "strstr (dec n) ''exec_timeout   : '' = None" for n
    by (rule strstr_lacks_all) (rule dec_lacks, simp add: isdigit_def)
  have f: "strstr (fixed2 v) ''exec_timeout   : '' = None" for v
    by (rule strstr_lacks_all) (rule fixed2_lacks, simp_all add: isdigit_def)
  show ?thesis by (simp add: stats_head_def strstr_Cons d f)
qed

lemma tail_no_timeout:
  assumes "strstr (banner s) ''exec_timeout   : '' = None" and "strstr (orig_cmdline s) ''exec_timeout   : '' = None"
  shows "\<forall>l \<in> set ((''cur_path          : '' @ dec n) # stats_tail s). strstr l ''exec_timeout   : '' = None"
proof -
  have d: "strstr (dec n) ''exec_timeout   : '' = None" for n
    by (rule strstr_lacks_all) (rule dec_lacks, simp add: isdigit_def)
  have f: "strstr (fixed2 v @ ''%'') ''exec_timeout   : '' = None" for v
    by (rule strstr_lacks_all) (use fixed2_lacks [of "CHR ''e''" v] in \<open>simp add: isdigit_def\<close>)
  have m: "strstr (target_mode s) ''exec_timeout   : '' = None"
    by (simp add: target_mode_def strstr_Cons strstr_Nil)
  show ?thesis using assms by (simp add: stats_tail_def strstr_Cons strstr_Nil d f m)
qed

subsection \<open>Finding the position again\<close>

lemma set_lines: "c \<noteq> newline \<Longrightarrow> \<forall>l \<in> set ls. c \<notin> set l \<Longrightarrow> c \<notin> set (lines_text ls)"
  by (auto simp: lines_text_def)

lemma head_no_null: "CHR 0x00 \<notin> set (lines_text (stats_head pid now s))"
proof -
  have d: "CHR 0x00 \<notin> set (dec n)" for n by (rule dec_lacks) (simp add: isdigit_def)
  have f: "CHR 0x00 \<notin> set (fixed2 v)" for v by (rule fixed2_lacks) (simp_all add: isdigit_def)
  show ?thesis by (rule set_lines) (simp_all add: stats_head_def newline_def d f)
qed

text \<open>\<open>u\<close> resumes from what \<open>t\<close> wrote.\<close>

definition resumes :: "'a stat_st_scheme \<Rightarrow> 'a stat_st_scheme \<Rightarrow> bool" where
  "resumes t u \<longleftrightarrow> resuming_fuzz u \<and>
     (let fn = (if in_place_resume u then out_dir u @ ''/fuzzer_stats'' else in_dir u @ ''/../fuzzer_stats'')
      in fs u fn = fs t (out_dir t @ ''/fuzzer_stats''))"

lemma stats_file_text:
  fixes s t :: "'a stat_st_scheme"
  assumes "write_stats_file E pid vals s = Inr t"
  shows "\<exists>now (v :: 'a stat_st_scheme). fs t (out_dir t @ ''/fuzzer_stats'') = Some (Regular (bytes_of (stats_text pid now v))) \<and>
    current_entry v = current_entry s \<and> use_banner v = use_banner s \<and> orig_cmdline v = orig_cmdline s"
proof -
  obtain now v where g: "get_cur_time E (keep_last vals s) = (now, v)" by fastforce
  have "current_entry v = current_entry s" "use_banner v = use_banner s" "orig_cmdline v = orig_cmdline s"
    using g by (auto simp: get_cur_time_def keep_last_def split: option.splits)
  moreover have "fs t (out_dir t @ ''/fuzzer_stats'') = Some (Regular (bytes_of (stats_text pid now v)))"
    using assms by (auto simp: write_stats_file_def g create_trunc_def split: if_splits)
  ultimately show ?thesis by blast
qed

lemma stats_value_resumes:
  fixes s t u :: "'a stat_st_scheme"
  assumes "write_stats_file E pid vals s = Inr t" and "resumes t u"
  obtains now and v :: "'a stat_st_scheme" where "\<And>key. stats_value key u = map_option (\<lambda>off. atoi (bytes_of (drop (length key) off)))
      (strstr (map (\<lambda>b. char_of (unat b)) (c_string (take 4095 (bytes_of (stats_text pid now v))))) key)"
    and "current_entry v = current_entry s" and "banner v = banner s" and "orig_cmdline v = orig_cmdline s"
proof -
  obtain now and v :: "'a stat_st_scheme" where
    v: "fs t (out_dir t @ ''/fuzzer_stats'') = Some (Regular (bytes_of (stats_text pid now v)))"
    "current_entry v = current_entry s" "use_banner v = use_banner s" "orig_cmdline v = orig_cmdline s"
    using stats_file_text [OF assms(1)] by (elim exE conjE)
  have "banner v = banner s" using v(3) by (simp add: banner_def)
  moreover have "stats_value key u = map_option (\<lambda>off. atoi (bytes_of (drop (length key) off)))
      (strstr (map (\<lambda>b. char_of (unat b)) (c_string (take 4095 (bytes_of (stats_text pid now v))))) key)" for key
    using assms(2) v(1) by (simp add: resumes_def stats_value_def read_file_def Let_def)
  ultimately show thesis using that v by blast
qed

lemma cur_path_found:
  "\<exists>r. strstr (map (\<lambda>b. char_of (unat b)) (c_string (take 4095 (bytes_of (stats_text pid now v))))) ''cur_path          : '' =
     Some (''cur_path          : '' @ dec (unat (current_entry v)) @ r) \<and> (r = [] \<or> hd r = newline)"
proof -
  let ?h = "lines_text (stats_head pid now v)"
  let ?l = "''cur_path          : '' @ dec (unat (current_entry v)) @ [newline]"
  let ?b = "lines_text (stats_tail v)"
  have t: "stats_text pid now v = (?h @ ?l) @ ?b" by (simp add: stats_text_def lines_text_def)
  have z: "CHR 0x00 \<notin> set (?h @ ?l)"
    using head_no_null [of pid now v] dec_lacks [of "CHR 0x00"] by (simp add: newline_def isdigit_def)
  have n: "length (?h @ ?l) \<le> 4095"
    using length_head [of pid now v] length_dec32 [of "current_entry v"] by simp
  obtain c where c: "map (\<lambda>b. char_of (unat b)) (c_string (take 4095 (bytes_of (stats_text pid now v)))) = ?h @ ?l @ c"
    unfolding t c_string_prefix [OF z n] map_append chars_back by auto
  have "strstr (?h @ ?l @ c) ''cur_path          : '' = strstr (?l @ c) ''cur_path          : ''"
    by (rule strstr_lines [OF key_newline(1) head_quiet])
  also have "\<dots> = Some (?l @ c)" by (simp add: strstr_Cons)
  finally show ?thesis unfolding c by (intro exI [of _ "newline # c"]) simp
qed

text \<open>
  C32: A session that resumes from the \<open>fuzzer_stats\<close> another one wrote starts at the entry that one had
  reached, if the queue has it, and at entry 0 otherwise; but it never takes over the timeout, unless
  the banner or the command line contains the key: \<open>find_timeout\<close> looks for \<open>exec_timeout\<close> with three
  spaces and \<open>write_stats_file\<close> writes six.
\<close>

theorem stats_resume:
  fixes s t u :: "'a stat_st_scheme"
  assumes "write_stats_file E pid vals s = Inr t" and "resumes t u"
  shows "find_start_position u = (if current_entry s < queued_paths u then current_entry s else 0) \<and>
    (strstr (banner s) ''exec_timeout   : '' = None \<and> strstr (orig_cmdline s) ''exec_timeout   : '' = None \<longrightarrow>
       find_timeout u = u)"
proof -
  obtain now and v :: "'a stat_st_scheme" where v: "\<And>key. stats_value key u = map_option (\<lambda>off. atoi (bytes_of (drop (length key) off)))
      (strstr (map (\<lambda>b. char_of (unat b)) (c_string (take 4095 (bytes_of (stats_text pid now v))))) key)"
    "current_entry v = current_entry s" "banner v = banner s" "orig_cmdline v = orig_cmdline s"
  proof (rule stats_value_resumes [OF assms], goal_cases)
    case (1 now v)
    show ?case by (rule 1(1)) (rule 1(2-))+
  qed
  obtain r where r: "strstr (map (\<lambda>b. char_of (unat b)) (c_string (take 4095 (bytes_of (stats_text pid now v))))) ''cur_path          : '' =
      Some (''cur_path          : '' @ dec (unat (current_entry v)) @ r)" "r = [] \<or> hd r = newline"
    using cur_path_found by blast
  have nd: "bytes_of r = [] \<or> \<not> isdigit (hd (bytes_of r))"
    using r(2) by (cases r) (auto simp: bytes_of_def newline_def isdigit_def)
  have "stats_value ''cur_path          : '' u = Some (current_entry s)"
    using atoi_dec [OF nd, of "unat (current_entry s)"] unfolding v(1) r(1) v(2) by simp
  then have start: "find_start_position u = (if current_entry s < queued_paths u then current_entry s else 0)"
    using assms(2) by (auto simp: find_start_position_def resumes_def not_less not_le dest: leD)
  have "find_timeout u = u"
    if "strstr (banner s) ''exec_timeout   : '' = None" "strstr (orig_cmdline s) ''exec_timeout   : '' = None"
  proof -
    have "strstr (stats_text pid now v) ''exec_timeout   : '' = strstr [] ''exec_timeout   : ''"
      unfolding stats_text_def
      using strstr_lines [OF key_newline(2), of "stats_head pid now v @ (''cur_path          : '' @ dec (unat (current_entry v))) # stats_tail v" "[]"]
        head_no_timeout [of pid now v] tail_no_timeout [of v "unat (current_entry v)"] that v(3,4) by auto
    then have none: "strstr (stats_text pid now v) ''exec_timeout   : '' = None" by (simp add: strstr_Nil)
    obtain k where k: "map (\<lambda>b. char_of (unat b)) (c_string (take 4095 (bytes_of (stats_text pid now v)))) = take k (stats_text pid now v)"
      using c_string_take by blast
    have "strstr (take k (stats_text pid now v)) ''exec_timeout   : '' = None"
      using none strstr_take [of k "stats_text pid now v"] by (metis option.exhaust)
    then have "stats_value ''exec_timeout   : '' u = None" by (simp only: v(1) k option.map)
    then show ?thesis by (simp add: find_timeout_def)
  qed
  then show ?thesis using start by blast
qed

text \<open>The demonstration session with the fields of the statistics.\<close>

definition stat_demo :: stat_st where
  "stat_demo = opt_st.extend (opt_demo\<lparr>current_entry := 7, queued_paths := 9, resuming_fuzz := True, in_place_resume := True\<rparr>)
     (stat_st.fields False False 0 0 0 [] 0 0 0 0 0 0 0 0)"

lemma stat_demo_fields:
  "current_entry stat_demo = 7" "queued_paths stat_demo = 9" "resuming_fuzz stat_demo" "in_place_resume stat_demo"
  "use_banner stat_demo = None" "orig_cmdline stat_demo = []"
  by (simp_all add: stat_demo_def opt_demo_def demo_main_def main_st.defs opt_st.defs stat_st.defs)

lemma write_stats_file_keeps:
  fixes s t :: "'a stat_st_scheme"
  assumes "write_stats_file E pid vals s = Inr t"
  shows "current_entry t = current_entry s" "queued_paths t = queued_paths s" "resuming_fuzz t = resuming_fuzz s"
    "in_place_resume t = in_place_resume s" "out_dir t = out_dir s"
  using assms
  by (auto simp: write_stats_file_def create_trunc_def get_cur_time_def keep_last_def split: if_splits option.splits prod.splits)

theorem stats_resume_witness:
  "\<exists>t. write_stats_file demo_env 1 None stat_demo = Inr t \<and> find_start_position t = 7 \<and> find_timeout t = t"
proof -
  obtain t where t: "write_stats_file demo_env 1 None stat_demo = Inr t"
    by (auto simp: write_stats_file_def create_trunc_def get_cur_time_def keep_last_def demo_env_def stat_demo_def
        opt_demo_def demo_main_def main_st.defs opt_st.defs stat_st.defs)
  then have "resumes t t" using write_stats_file_keeps [OF t] by (simp add: resumes_def stat_demo_fields)
  then show ?thesis using stats_resume [OF t, of t] write_stats_file_keeps [OF t] t
    by (auto simp: stat_demo_fields banner_def strstr_Cons strstr_Nil)
qed

end
