(* ===== verification/Layout.thy ===== *)
theory Layout
  imports Outdir Resume
begin

unbundle bit_operations_syntax

section \<open>What happens to an old session\<close>

text \<open>
  Cleaning up deletes session files only, refuses to touch a session with work at stake, and, when
  resuming, moves the finds to where they are looked for; a successful set-up leaves the fresh layout.
\<close>

subsection \<open>Files of a tree\<close>

definition file_at :: "string list \<Rightarrow> node \<Rightarrow> fnode option" where
  "file_at p t = (case get p t of Some (File f) \<Rightarrow> Some f | _ \<Rightarrow> None)"

lemma file_at_simps [simp]:
  "file_at [] (Dir c) = None"
  "file_at (x # p) (Dir c) = (case map_of c x of None \<Rightarrow> None | Some m \<Rightarrow> file_at p m)"
  "file_at (x # p) (File f) = None" "file_at [] (File f) = Some f"
  by (simp_all add: file_at_def split: option.split)

lemma map_of_alter:
  "map_of (map (\<lambda>(y, m). (y, if y = x then g m else m)) c) z =
     (if z = x then map_option g (map_of c z) else map_of c z)"
  by (induction c) auto

lemma map_of_drop_name [simp]: "map_of (drop_name x c) z = (if z = x then None else map_of c z)"
  by (induction c) (auto simp: drop_name_def)

lemma file_at_alter:
  "get p t = Some (Dir c) \<Longrightarrow>
   file_at r (alter p g t) = (if take (length p) r = p then file_at (drop (length p) r) (Dir (g c)) else file_at r t)"
proof (induction p arbitrary: t r)
  case (Cons x p)
  obtain d m where d: "t = Dir d" "map_of d x = Some m" "get p m = Some (Dir c)"
    using Cons.prems by (auto split: node.splits option.splits)
  show ?case
  proof (cases r)
    case (Cons y q)
    then show ?thesis using d Cons.IH [OF d(3), of q] by (simp add: map_of_alter split: option.split)
  qed (simp add: d(1))
qed simp

lemma get_snoc: "get (p @ [x]) t = Some m \<Longrightarrow> \<exists>c. get p t = Some (Dir c) \<and> map_of c x = Some m"
  by (induction p arbitrary: t) (auto split: node.splits option.splits)

lemma take_is_snoc: "take (length p) r = p \<Longrightarrow> drop (length p) r = x # q \<longleftrightarrow> r = p @ x # q"
  by (metis append_take_drop_id append_eq_conv_conj)

lemma file_at_get: "get p t = Some m \<Longrightarrow> file_at (p @ q) t = file_at q m"
  by (induction p arbitrary: t) (auto split: node.splits option.splits)

lemma file_at_alter_drop:
  assumes "get (p @ [x]) t = Some m"
  shows "file_at r (alter p (drop_name x) t) = (if take (length p + 1) r = p @ [x] then None else file_at r t)"
proof -
  obtain c where c: "get p t = Some (Dir c)" "map_of c x = Some m" using get_snoc [OF assms] by blast
  show ?thesis
  proof (cases "take (length p) r = p")
    case True
    define q where "q = drop (length p) r"
    have r: "r = p @ q" using True unfolding q_def by (metis append_take_drop_id)
    show ?thesis
      using file_at_get [OF c(1), of q] by (cases q) (simp_all add: r file_at_alter [OF c(1)])
  next
    case False
    then have "take (length p + 1) r \<noteq> p @ [x]" by (metis append_eq_conv_conj min.absorb1 le_add1 take_take)
    then show ?thesis using False by (simp add: file_at_alter [OF c(1)])
  qed
qed

lemma unlink_files:
  assumes "unlink h p x t = Some t'"
  shows "file_at r t' = (if r = p @ [x] then None else file_at r t)"
proof -
  obtain f where f: "get (p @ [x]) t = Some (File f)" and t': "t' = alter p (drop_name x) t"
    using assms by (auto simp: unlink_def split: option.splits node.splits if_splits)
  have "file_at r t = None" if "take (length p + 1) r = p @ [x]" "r \<noteq> p @ [x]"
  proof -
    have q: "r = (p @ [x]) @ drop (length p + 1) r" by (subst that(1) [symmetric]) (simp only: append_take_drop_id)
    show ?thesis
      using that(2) file_at_get [OF f, of "drop (length p + 1) r"] unfolding q [symmetric]
      by (cases "drop (length p + 1) r") (use q in simp_all)
  qed
  then show ?thesis unfolding t' file_at_alter_drop [OF f] by auto
qed

lemma rmdir_files:
  assumes "rmdir h p x t = Some t'"
  shows "file_at r t' = file_at r t"
proof -
  have d: "get (p @ [x]) t = Some (Dir [])" and t': "t' = alter p (drop_name x) t"
    using assms by (auto simp: rmdir_def split: option.splits node.splits list.splits if_splits)
  have "file_at r t = None" if "take (length p + 1) r = p @ [x]"
  proof -
    have q: "r = (p @ [x]) @ drop (length p + 1) r" by (subst that [symmetric]) (simp only: append_take_drop_id)
    show ?thesis
      using file_at_get [OF d, of "drop (length p + 1) r"] unfolding q [symmetric]
      by (cases "drop (length p + 1) r") simp_all
  qed
  then show ?thesis unfolding t' file_at_alter_drop [OF d] by auto
qed

lemma rename_files:
  assumes "rename h x y t = Some t'"
  shows "file_at (z # r) t' = (if z = y then file_at (x # r) t else if z = x then None else file_at (z # r) t)"
  using assms by (auto simp: rename_def split: option.splits node.splits if_splits)

subsection \<open>Steps that keep all other files\<close>

text \<open>No other file changes, and no name appears in the output directory itself.\<close>

definition keeps :: "(string list \<Rightarrow> bool) \<Rightarrow> node \<Rightarrow> node \<Rightarrow> bool" where
  "keeps P t t' \<longleftrightarrow> (\<forall>r. P r \<or> file_at r t' = file_at r t) \<and> (\<forall>b. get [b] t = None \<longrightarrow> get [b] t' = None)"

lemma keeps_refl [simp]: "keeps P t t" by (simp add: keeps_def)

lemma keeps_trans: "keeps P t u \<Longrightarrow> keeps P u v \<Longrightarrow> keeps P t v"
  unfolding keeps_def by metis

lemma no_new_name: "get [b] t = None \<Longrightarrow> get [b] (alter p (drop_name x) t) = None"
  by (cases p; cases t) (auto simp: map_of_alter split: option.splits)

lemma removes_entry:
  "unlink h p x t = Some t' \<Longrightarrow> t' = alter p (drop_name x) t" "rmdir h p x t = Some t' \<Longrightarrow> t' = alter p (drop_name x) t"
  by (auto simp: unlink_def rmdir_def split: option.splits node.splits list.splits if_splits)

lemma keeps_steps: "list_all (\<lambda>f. \<forall>t. keeps P t (snd (f t))) gs \<Longrightarrow> keeps P t (snd (steps gs t))"
proof (induction gs arbitrary: t)
  case (Cons f gs)
  have f: "keeps P t (snd (f t))" using Cons.prems by simp
  obtain e u where e: "f t = (e, u)" by fastforce
  show ?case
  proof (cases e)
    case None
    have "keeps P t u" using f e by simp
    moreover have "keeps P u (snd (steps gs u))" by (rule Cons.IH) (use Cons.prems in simp)
    ultimately show ?thesis using keeps_trans by (simp add: e None)
  qed (use f e in simp)
qed simp

lemma unlink_keeps: "unlink h p x t = Some t' \<Longrightarrow> P (p @ [x]) \<Longrightarrow> keeps P t t'"
  using removes_entry(1) by (fastforce simp: keeps_def unlink_files no_new_name simp del: get.simps)

lemma rmdir_keeps: "rmdir h p x t = Some t' \<Longrightarrow> keeps P t t'"
  using removes_entry(2) by (fastforce simp: keeps_def rmdir_files no_new_name simp del: get.simps)

lemma delete_names_keeps:
  "\<forall>x \<in> set xs. P (p @ [x]) \<Longrightarrow> keeps P t (snd (delete_names h p xs t))"
  by (induction xs arbitrary: t) (auto split: option.split intro: keeps_trans unlink_keeps)

lemma delete_files_keeps:
  assumes "\<And>y. to_delete pre y \<Longrightarrow> P (p @ [x, y])"
  shows "keeps P t (snd (delete_files h p x pre t))"
proof -
  have n: "keeps P t (snd (delete_names h (p @ [x]) (filter (to_delete pre) (map fst c)) t))" for c
    by (rule delete_names_keeps) (use assms in auto)
  show ?thesis
  proof (cases "get (p @ [x]) t")
    case (Some m)
    show ?thesis
    proof (cases m)
      case (Dir c)
      obtain e u where e: "delete_names h (p @ [x]) (filter (to_delete pre) (map fst c)) t = (e, u)" by fastforce
      then have u: "keeps P t u" using n [of c] by simp
      have "keeps P t v" if "rmdir h p x u = Some v" for v using keeps_trans [OF u rmdir_keeps [OF that]] .
      then show ?thesis
        using u by (cases e; cases "rmdir h p x u") (simp_all add: delete_files_def Some Dir \<open>_ = (e, u)\<close>)
    qed (simp add: delete_files_def Some)
  qed (simp add: delete_files_def)
qed

lemma clean_keeps:
  assumes "\<And>y. to_delete pre y \<Longrightarrow> P (p @ [x, y])"
  shows "keeps P t (snd (clean e h p x pre t))"
  using delete_files_keeps [of pre P p x t h] assms
  by (auto simp: clean_def split: prod.splits sum.splits)

lemma unless_missing_keeps: "(\<And>t'. f t = Some t' \<Longrightarrow> keeps P t t') \<Longrightarrow> keeps P t (snd (unless_missing e p f t))"
  by (auto simp: unless_missing_def split: option.split)

lemma ignoring_keeps: "(\<And>t'. f t = Some t' \<Longrightarrow> keeps P t t') \<Longrightarrow> keeps P t (snd (ignoring f t))"
  by (auto simp: ignoring_def split: option.split)

subsection \<open>Only session files are deleted\<close>

text \<open>The files that a session without \<open>-i -\<close> removes.\<close>

definition session_file :: "string list \<Rightarrow> bool" where
  "session_file p =
     (case p of
        [x] \<Rightarrow> x \<in> set [''.cur_input'', ''fuzz_bitmap'', ''fuzzer_stats'', ''plot_data'']
      | [d, x] \<Rightarrow> d = ''.synced'' \<and> take 1 x \<noteq> ''.'' \<or> d \<in> set [''queue'', ''crashes'', ''hangs''] \<and> take 3 x = ''id:'' \<or>
                  d = ''crashes'' \<and> x = ''README.txt''
      | [q, s, d, x] \<Rightarrow> q = ''queue'' \<and> s = ''.state'' \<and>
          (d \<in> set [''deterministic_done'', ''redundant_edges'', ''variable_behavior''] \<and> take 3 x = ''id:'' \<or>
           d = ''auto_extras'' \<and> take 5 x = ''auto_'')
      | _ \<Rightarrow> False)"

definition resume_file :: "string list \<Rightarrow> bool" where
  "resume_file p =
     (case p of
        [q, x] \<Rightarrow> q = ''_resume'' \<and> take 3 x = ''id:''
      | [q, s, d, x] \<Rightarrow> q = ''_resume'' \<and> s = ''.state'' \<and>
          (d \<in> set [''deterministic_done'', ''redundant_edges'', ''variable_behavior''] \<and> take 3 x = ''id:'' \<or>
           d = ''auto_extras'' \<and> take 5 x = ''auto_'')
      | _ \<Rightarrow> False)"

lemma to_delete_prefix:
  "to_delete (Some CASE_PREFIX) y \<Longrightarrow> take 3 y = ''id:''" "to_delete (Some ''auto_'') y \<Longrightarrow> take 5 y = ''auto_''"
  by (simp_all add: to_delete_def CASE_PREFIX_def eval_nat_numeral)

lemma clean_queue_keeps:
  assumes "\<And>x. take 3 x = ''id:'' \<Longrightarrow> P [q, x]"
    and "\<And>d x. d \<in> set [''deterministic_done'', ''redundant_edges'', ''variable_behavior''] \<Longrightarrow> take 3 x = ''id:'' \<Longrightarrow>
          P [q, ''.state'', d, x]"
    and "\<And>x. take 5 x = ''auto_'' \<Longrightarrow> P [q, ''.state'', ''auto_extras'', x]"
  shows "keeps P t (snd (clean_queue e h q t))"
  unfolding clean_queue_def
  by (rule keeps_steps)
    (auto intro!: clean_keeps unless_missing_keeps assms dest: to_delete_prefix elim: rmdir_keeps)

lemma nuke_resume_dir_keeps: "keeps resume_file t (snd (nuke_resume_dir h t))"
  unfolding nuke_resume_dir_def by (rule clean_queue_keeps) (auto simp: resume_file_def)

lemma delete_session_keeps: "keeps session_file t (snd (delete_session h False t))"
proof -
  have q: "keeps session_file t (snd (clean_queue e h ''queue'' t))" for e t
    by (rule clean_queue_keeps) (auto simp: session_file_def)
  have s: "keeps session_file t (snd (save_and_clean h False k x t))" if "x \<in> set [''crashes'', ''hangs'']" for k x t
    unfolding save_and_clean_def
    by (rule keeps_steps) (use that in \<open>auto intro!: clean_keeps dest!: to_delete_prefix simp: session_file_def\<close>)
  have y: "keeps session_file t (snd (clean cleanup_failed h [] ''.synced'' None t))" for t
    by (rule clean_keeps) (simp add: to_delete_def session_file_def)
  have u: "keeps session_file t (snd (unless_missing cleanup_failed [x] (unlink h [] x) t))"
    if "x \<in> set [''.cur_input'', ''fuzz_bitmap'', ''fuzzer_stats'', ''plot_data'']" for x t
    by (rule unless_missing_keeps, erule unlink_keeps) (use that in \<open>simp add: session_file_def\<close>)
  have r: "keeps session_file t (snd (ignoring (unlink h [''crashes''] ''README.txt'') t))" for t
    by (rule ignoring_keeps, erule unlink_keeps) (simp add: session_file_def)
  show ?thesis
    unfolding delete_session_def by (rule keeps_steps) (simp add: q s y u r)
qed

subsection \<open>Work at stake\<close>

lemma skip_space: "skip isspace (bytes_of (CHR '' '' # x)) = skip isspace (bytes_of x)"
  by (simp add: bytes_of_def isspace_def skip_def)


lemma expect_bytes: "expect w (bytes_of (w @ x)) = Some (bytes_of x)"
  by (simp add: expect_def bytes_of_def)

lemma field_line:
  assumes "n < 2 ^ 64"
  shows "scan_field w (bytes_of (w @ replicate k CHR '' '' @ '': '' @ dec n @ newline # x)) = Some (of_nat n, bytes_of (newline # x))"
proof -
  have s: "skip isspace (bytes_of (replicate k CHR '' '' @ '': '' @ y)) = bytes_of ('':'' @ '' '' @ y)" for y
    by (induction k) (simp_all add: bytes_of_def isspace_def skip_def)
  have "scan_unsigned (bytes_of ('' '' @ dec n @ newline # x)) = scan_unsigned (bytes_of (dec n @ newline # x))"
    by (simp add: bytes_of_def scan_unsigned_def skip_def isspace_def)
  also have "\<dots> = Some (of_nat n, bytes_of (newline # x))"
    unfolding bytes_of_append by (rule scan_dec [OF assms]) (simp add: bytes_of_def newline_def isdigit_def)
  finally show ?thesis unfolding scan_field_def expect_bytes option.case s .
qed

lemma stats_times:
  "session_times (bytes_of (stats_text pid now v)) = Some (start_time v div 1000, now div 1000)"
proof -
  obtain x where x: "stats_text pid now v =
      ''start_time'' @ replicate 8 CHR '' '' @ '': '' @ dec (unat (start_time v div 1000)) @ newline #
      ''last_update'' @ replicate 7 CHR '' '' @ '': '' @ dec (unat (now div 1000)) @ newline # x"
    by (simp add: stats_text_def lines_text_def stats_head_def eval_nat_numeral)
  have n: "unat w < 2 ^ 64" for w :: u64 using unsigned_less [where 'a = nat, of w] by simp
  have l: "skip isspace (bytes_of (newline # ''last_update'' @ y)) = bytes_of (''last_update'' @ y)" for y
    by (simp add: bytes_of_def newline_def isspace_def skip_def)
  show ?thesis unfolding x session_times_def field_line [OF n] option.case prod.case l by simp
qed

text \<open>A host that permits everything, at a fixed time.\<close>

definition demo_host :: host where
  "demo_host = \<lparr>may_remove = (\<lambda>_. True), may_make = (\<lambda>_. True), may_list = (\<lambda>_. True), may_rename = (\<lambda>_ _. True),
     may_open = True, in_use = False, linked = (\<lambda>_. None), local_time = (\<lambda>_. (1, 1, 1, 1, 1, 1)),
     sync_dir_made = True, devices_there = True\<rparr>"

text \<open>
  C29: A session that a new one finds by the \<open>fuzzer_stats\<close> it wrote is untouched, and the new one stops,
  when another process holds the directory or the file was last written more than 25 minutes after the
  session began; otherwise, and whatever the system permits, the clean-up deletes or replaces no file
  but those of a session, even if it stops half way. Removing \<open>_resume\<close> deletes session files only, too.
\<close>

theorem old_session_guarded:
  assumes "get [''fuzzer_stats''] t = Some (File (Regular (bytes_of (stats_text pid now v))))"
  shows "(if \<not> may_open h \<or> in_use h \<or> now div 1000 - start_time v div 1000 > 25 * 60
          then \<exists>e. maybe_delete_out_dir h False t = (Some e, t)
          else maybe_delete_out_dir h False t = delete_session h False t) \<and>
    (\<forall>p. session_file p \<or> file_at p (snd (maybe_delete_out_dir h False t)) = file_at p t) \<and>
    (\<forall>p. resume_file p \<or> file_at p (snd (nuke_resume_dir h t)) = file_at p t)"
proof -
  have r: "open_read h [''fuzzer_stats''] t = Some (bytes_of (stats_text pid now v))"
    using assms by (simp add: open_read_def)
  have "(if \<not> may_open h \<or> in_use h \<or> now div 1000 - start_time v div 1000 > 25 * 60
          then \<exists>e. maybe_delete_out_dir h False t = (Some e, t)
          else maybe_delete_out_dir h False t = delete_session h False t)"
    by (simp add: maybe_delete_out_dir_def at_stake_def r stats_times OUTPUT_GRACE_def)
  moreover have "keeps session_file t (snd (maybe_delete_out_dir h False t))"
    using delete_session_keeps by (simp add: maybe_delete_out_dir_def split: option.split)
  ultimately show ?thesis using nuke_resume_dir_keeps [of t h] unfolding keeps_def by blast
qed


theorem old_session_guarded_witness:
  "\<exists>e. maybe_delete_out_dir demo_host False (Dir [(''fuzzer_stats'', File (Regular (bytes_of (stats_text 1 2000000 stat_demo))))]) =
     (Some e, Dir [(''fuzzer_stats'', File (Regular (bytes_of (stats_text 1 2000000 stat_demo))))])"
proof -
  have s: "start_time stat_demo = 0" by (simp add: stat_demo_def opt_demo_def demo_main_def main_st.defs opt_st.defs stat_st.defs)
  show ?thesis
    using old_session_guarded [of "Dir [(''fuzzer_stats'', File (Regular (bytes_of (stats_text 1 2000000 stat_demo))))]"
        1 2000000 stat_demo demo_host]
    by (simp add: s demo_host_def)
qed

subsection \<open>Resuming loses nothing\<close>

lemma steps_done:
  "steps (f # gs) t = (None, t') \<Longrightarrow> (\<And>u. f t = (None, u) \<Longrightarrow> steps gs u = (None, t') \<Longrightarrow> thesis) \<Longrightarrow> thesis"
  by (cases "f t") (auto split: option.splits)

text \<open>All below the name \<open>x\<close> is now below \<open>y\<close>, where nothing was; what is not below \<open>x\<close>, and not \<open>P\<close>, stays.\<close>

definition carried :: "string \<Rightarrow> string \<Rightarrow> node \<Rightarrow> node \<Rightarrow> bool" where
  "carried x y t t' \<longleftrightarrow>
     (\<forall>r. file_at (y # r) t' = file_at (x # r) t) \<and>
     (\<forall>z r. z \<noteq> x \<longrightarrow> z \<noteq> y \<longrightarrow> file_at (z # r) t' = file_at (z # r) t) \<and>
     (\<forall>b. b \<noteq> y \<longrightarrow> get [b] t = None \<longrightarrow> get [b] t' = None)"

lemma carriedD:
  assumes "carried x y t t'"
  shows "file_at (y # r) t' = file_at (x # r) t" "z \<notin> {x, y} \<Longrightarrow> file_at (z # r) t' = file_at (z # r) t"
  using assms by (simp_all add: carried_def)

lemma absent_files: "get [x] t = None \<Longrightarrow> file_at (x # r) t = None"
  by (simp add: file_at_def split: node.splits option.splits)

lemma rename_carried:
  assumes "may_rename h x y" and "get [y] t = None" and "x \<noteq> y"
  shows "carried x y t (snd (ignoring (rename h x y) t))"
proof (cases "rename h x y t")
  case (Some t')
  have "get [b] t' = None" if "b \<noteq> y" "get [b] t = None" for b
    using Some that by (auto simp: rename_def split: node.splits option.splits if_splits)
  then show ?thesis using Some assms(3) by (auto simp: ignoring_def carried_def rename_files [OF Some])
next
  case None
  have "get [x] t = None"
    using None assms by (auto simp: rename_def split: node.splits option.splits)
  then show ?thesis using None absent_files assms(2) by (simp add: ignoring_def carried_def)
qed

lemma rmdir_carried:
  assumes "rmdir h [] x t = Some t'" and "get [y] t = None" and "x \<noteq> y"
  shows "carried x y t t'"
proof -
  have k: "keeps (\<lambda>_. False) t t'" by (rule rmdir_keeps [OF assms(1)])
  have "get [x] t = Some (Dir [])"
    using assms(1) by (auto simp: rmdir_def simp del: get.simps split: option.splits node.splits list.splits if_splits)
  then have "file_at (x # r) t = None" for r
    using file_at_get [of "[x]" t "Dir []" r] by (cases r) auto
  then show ?thesis using k absent_files [OF assms(2)] by (simp add: keeps_def carried_def)
qed

lemma carried_keeps:
  assumes "carried x y t u" and "keeps (\<lambda>p. p = [] \<or> hd p = x) u v" and "x \<noteq> y"
  shows "carried x y t v"
  using assms unfolding carried_def keeps_def by (metis list.distinct(1) list.sel(1))

lemma save_and_clean_carried:
  assumes "save_and_clean h True k x t = (None, t')" and "may_rename h x (backup_name h k x)"
    and "get [backup_name h k x] t = None" and "x \<noteq> backup_name h k x"
  shows "carried x (backup_name h k x) t t'"
proof -
  let ?b = "backup_name h k x"
  obtain u where u: "(case rmdir h [] x t of Some t' \<Rightarrow> (None, t') | None \<Rightarrow> ignoring (rename h x ?b) t) = (None, u)"
    "steps [clean cleanup_failed h [] x (Some CASE_PREFIX)] u = (None, t')"
    using assms(1) unfolding save_and_clean_def by (rule steps_done) simp
  have "carried x ?b t u"
    using u(1) rmdir_carried [OF _ assms(3,4)] rename_carried [OF assms(2-4)] by (auto split: option.splits)
  moreover have "clean cleanup_failed h [] x (Some CASE_PREFIX) u = (None, t')" using u(2) by (rule steps_done) simp
  moreover have "keeps (\<lambda>p. p = [] \<or> hd p = x) u (snd (clean cleanup_failed h [] x (Some CASE_PREFIX) u))"
    by (rule clean_keeps) simp
  ultimately show ?thesis using carried_keeps assms(4) by simp
qed


definition moved :: "host \<Rightarrow> string \<Rightarrow> string" where
  "moved h d =
     (if d = ''queue'' then ''_resume''
      else if d = ''crashes'' then backup_name h 0 ''crashes''
      else if d = ''hangs'' then backup_name h 1 ''hangs'' else d)"

lemma backup_names:
  "backup_name h k ''crashes'' \<notin> set [''queue'', ''_resume'', ''crashes'', ''hangs'', ''.cur_input'', ''fuzz_bitmap'', ''plot_data'']"
  "backup_name h k ''hangs'' \<notin> set [''queue'', ''_resume'', ''crashes'', ''hangs'', ''.cur_input'', ''fuzz_bitmap'', ''plot_data'']"
  "backup_name h k ''crashes'' \<noteq> backup_name h j ''hangs''"
  by (simp_all add: backup_name_def split: prod.split)

lemma resumed_session:
  assumes "maybe_delete_out_dir h True t = (None, t')"
  obtains u1 u2 u3 u4 where "u1 = snd (ignoring (rename h ''queue'' ''_resume'') t)"
    and "u2 = snd (clean_queue cleanup_failed h ''queue'' u1)"
    and "save_and_clean h True 0 ''crashes'' u2 = (None, u3)" and "save_and_clean h True 1 ''hangs'' u3 = (None, u4)"
    and "keeps (\<lambda>p. p \<in> {[''.cur_input''], [''fuzz_bitmap''], [''plot_data'']}) u4 t'"
proof -
  have "delete_session h True t = (None, t')"
    using assms by (simp add: maybe_delete_out_dir_def split: option.splits)
  then obtain u1 u2 u3 u4 where u: "ignoring (rename h ''queue'' ''_resume'') t = (None, u1)"
    "clean_queue cleanup_failed h ''queue'' u1 = (None, u2)"
    "save_and_clean h True 0 ''crashes'' u2 = (None, u3)" "save_and_clean h True 1 ''hangs'' u3 = (None, u4)"
    and e: "steps [unless_missing cleanup_failed [''.cur_input''] (unlink h [] ''.cur_input''),
            unless_missing cleanup_failed [''fuzz_bitmap''] (unlink h [] ''fuzz_bitmap''), Pair None,
            unless_missing cleanup_failed [''plot_data''] (unlink h [] ''plot_data'')] u4 = (None, t')"
    unfolding delete_session_def if_True by (elim steps_done) simp
  have "keeps (\<lambda>p. p \<in> {[''.cur_input''], [''fuzz_bitmap''], [''plot_data'']}) u4
      (snd (steps [unless_missing cleanup_failed [''.cur_input''] (unlink h [] ''.cur_input''),
            unless_missing cleanup_failed [''fuzz_bitmap''] (unlink h [] ''fuzz_bitmap''), Pair None,
            unless_missing cleanup_failed [''plot_data''] (unlink h [] ''plot_data'')] u4))"
    by (rule keeps_steps) (auto intro!: unless_missing_keeps elim: unlink_keeps)
  then show thesis using that [OF _ _ u(3,4)] u(1,2) e by simp
qed

text \<open>
  C28: Resuming in place (\<open>-i -\<close>) loses nothing: when \<open>maybe_delete_out_dir\<close> succeeds, the system lets it
  rename, and neither \<open>_resume\<close> nor the names for the backups are taken, every file of the old session
  but \<open>.cur_input\<close>, \<open>fuzz_bitmap\<close> and \<open>plot_data\<close> is there afterwards with the same contents: those of
  \<open>queue\<close> in \<open>_resume\<close>, those of \<open>crashes\<close> and \<open>hangs\<close> in the backups, all others where they were.
\<close>

theorem resume_loses_nothing:
  assumes "maybe_delete_out_dir h True t = (None, t')"
    and "may_rename h ''queue'' ''_resume''" and "may_rename h ''crashes'' (moved h ''crashes'')"
    and "may_rename h ''hangs'' (moved h ''hangs'')"
    and "get [''_resume''] t = None" and "get [moved h ''crashes''] t = None" and "get [moved h ''hangs''] t = None"
    and "file_at (d # r) t = Some f" and "d # r \<notin> {[''.cur_input''], [''fuzz_bitmap''], [''plot_data'']}"
  shows "file_at (moved h d # r) t' = Some f"
proof -
  let ?c = "backup_name h 0 ''crashes''" and ?g = "backup_name h 1 ''hangs''"
  have m: "moved h ''crashes'' = ?c" "moved h ''hangs'' = ?g" by (simp_all add: moved_def)
  obtain u1 u2 u3 u4 where u: "u1 = snd (ignoring (rename h ''queue'' ''_resume'') t)"
    "u2 = snd (clean_queue cleanup_failed h ''queue'' u1)"
    "save_and_clean h True 0 ''crashes'' u2 = (None, u3)" "save_and_clean h True 1 ''hangs'' u3 = (None, u4)"
    "keeps (\<lambda>p. p \<in> {[''.cur_input''], [''fuzz_bitmap''], [''plot_data'']}) u4 t'"
    by (rule resumed_session [OF assms(1)])
  have "carried ''queue'' ''_resume'' t u1" unfolding u(1) by (rule rename_carried) (use assms in simp_all)
  moreover have "keeps (\<lambda>p. p = [] \<or> hd p = ''queue'') u1 u2" unfolding u(2) by (rule clean_queue_keeps) simp_all
  ultimately have q: "carried ''queue'' ''_resume'' t u2" by (rule carried_keeps) simp
  then have n: "get [?c] u2 = None" "get [?g] u2 = None"
    using assms(6,7) backup_names(1) [of h 0] backup_names(2) [of h 1] unfolding carried_def m by simp_all
  have c: "carried ''crashes'' ?c u2 u3"
    by (rule save_and_clean_carried [OF u(3)]) (use assms(3) n backup_names(1) [of h 0] in \<open>auto simp: m simp del: get.simps\<close>)
  then have n: "get [?g] u3 = None"
    using n(2) backup_names(3) [of h 0 1] unfolding carried_def by (metis (no_types))
  have g: "carried ''hangs'' ?g u3 u4"
    by (rule save_and_clean_carried [OF u(4)]) (use assms(4) n backup_names(2) [of h 1] in \<open>auto simp: m simp del: get.simps\<close>)
  have "file_at (moved h d # r) u4 = Some f"
  proof -
    have f: "d \<noteq> ''_resume''" "d \<noteq> ?c" "d \<noteq> ?g"
      using assms(5-8) absent_files unfolding m by (metis option.distinct(1))+
    note b = backup_names(1) [of h 0] backup_names(2) [of h 1] backup_names(3) [of h 0 1]
    consider "d = ''queue''" | "d = ''crashes''" | "d = ''hangs''" | "d \<notin> {''queue'', ''crashes'', ''hangs''}" by blast
    then show ?thesis
    proof cases
      case 1
      have "file_at (''_resume'' # r) u4 = file_at (''_resume'' # r) u2"
        by (subst carriedD(2) [OF g], use b in force) (rule carriedD(2) [OF c], use b in force)
      then show ?thesis using 1 carriedD(1) [OF q] assms(8) by (simp add: moved_def)
    next
      case 2
      have "file_at (?c # r) u4 = file_at (''crashes'' # r) u2"
        by (subst carriedD(2) [OF g], use b in force) (rule carriedD(1) [OF c])
      then show ?thesis using 2 carriedD(2) [OF q, of d] assms(8) by (simp add: moved_def)
    next
      case 3
      have "file_at (?g # r) u4 = file_at (''hangs'' # r) u2"
        by (subst carriedD(1) [OF g]) (rule carriedD(2) [OF c], use b in force)
      then show ?thesis using 3 carriedD(2) [OF q, of d] assms(8) by (simp add: moved_def)
    next
      case 4
      then have "file_at (d # r) u4 = file_at (d # r) u2"
        using f by (subst carriedD(2) [OF g], force) (rule carriedD(2) [OF c], force)
      then show ?thesis using 4 f carriedD(2) [OF q, of d] assms(8) by (simp add: moved_def)
    qed
  qed
  moreover have "moved h d # r \<notin> {[''.cur_input''], [''fuzz_bitmap''], [''plot_data'']}"
    using assms(9) backup_names(1) [of h 0] backup_names(2) [of h 1] by (auto simp: moved_def)
  ultimately show ?thesis using u(5) unfolding keeps_def by metis
qed


definition demo_tree :: node where
  "demo_tree = Dir [(''queue'', Dir [(''.state'', Dir [(''deterministic_done'', Dir []), (''auto_extras'', Dir [])]),
       (''id:000000'', File (Regular [1]))]),
     (''crashes'', Dir [(''id:000000'', File (Regular [2]))]), (''hangs'', Dir []),
     (''fuzz_bitmap'', File (Regular [0])), (''plot_data'', File (Regular []))]"

lemma resume_demo: "fst (maybe_delete_out_dir demo_host True demo_tree) = None"
  by code_simp

theorem resume_loses_nothing_witness:
  "\<exists>t'. maybe_delete_out_dir demo_host True demo_tree = (None, t') \<and>
     file_at [moved demo_host ''crashes'', ''id:000000''] t' = Some (Regular [2])"
proof -
  obtain t' where t': "maybe_delete_out_dir demo_host True demo_tree = (None, t')"
    using resume_demo by (cases "maybe_delete_out_dir demo_host True demo_tree") simp
  have "file_at (moved demo_host ''crashes'' # [''id:000000'']) t' = Some (Regular [2])"
    by (rule resume_loses_nothing [OF t']) (simp_all add: demo_tree_def demo_host_def moved_def backup_name_def)
  then show ?thesis using t' by simp
qed

text \<open>
  A failing \<open>rename\<close> is ignored, and the old crashes are deleted without a backup: here the name is
  taken by an earlier backup.
\<close>

definition clash_tree :: node where
  "clash_tree = Dir [(''crashes'', Dir [(''id:000001'', File (Regular []))]),
     (''crashes.0001-01-01-01:01:01'', Dir [(''id:000000'', File (Regular []))])]"

theorem backup_clash:
  "(case maybe_delete_out_dir demo_host True clash_tree of
      (Some e, t) \<Rightarrow> False
    | (None, t) \<Rightarrow> Option.is_none (get [''crashes'', ''id:000001''] t) \<and>
        Option.is_none (get [''crashes.0001-01-01-01:01:01'', ''id:000001''] t))"
  by code_simp

subsection \<open>A fresh layout\<close>

lemma map_keep: "map_of c x = None \<Longrightarrow> map (\<lambda>(y, m). (y, if y = x then g m else m)) c = c"
  by (induction c) (auto split: if_splits)

lemma alter_last: "map_of c x = None \<Longrightarrow> alter (x # p) g (Dir (c @ [(x, m)])) = Dir (c @ [(x, alter p g m)])"
  by (simp add: map_keep)

lemma made_entry:
  assumes "or_fail e (add_entry h m p x) t = (None, t')"
  shows "\<exists>c. get p t = Some (Dir c) \<and> map_of c x = None \<and> t' = alter p (\<lambda>c. c @ [(x, m)]) t"
  using assms by (auto simp: or_fail_def add_entry_def split: option.splits node.splits if_splits)

lemma made_root:
  assumes "or_fail e (add_entry h m [] x) t = (None, t')"
  obtains c where "t = Dir c" and "map_of c x = None" and "t' = Dir (c @ [(x, m)])"
  using made_entry [OF assms] by (auto split: node.splits)

lemma made_below:
  assumes "or_fail e (add_entry h m (y # p) x) (Dir (c @ [(y, d)])) = (None, t')" and "map_of c y = None"
  shows "t' = Dir (c @ [(y, alter p (\<lambda>c. c @ [(x, m)]) d)])"
  using made_entry [OF assms(1)] assms(2) by (auto simp: alter_last simp del: alter.simps)

definition empty_queue :: node where
  "empty_queue = Dir [(''.state'', Dir [(''deterministic_done'', Dir []), (''auto_extras'', Dir []),
     (''redundant_edges'', Dir []), (''variable_behavior'', Dir [])])]"

lemma make_layout_fresh:
  assumes "make_layout h resume synced t = (None, t')"
  shows "\<exists>c. t' = Dir c \<and> map_of c ''queue'' = Some empty_queue \<and> map_of c ''crashes'' = Some (Dir []) \<and>
    map_of c ''hangs'' = Some (Dir []) \<and> map_of c ''plot_data'' = Some (File (Regular [])) \<and>
    (synced \<longrightarrow> (if resume then map_of c ''.synced'' \<noteq> None else map_of c ''.synced'' = Some (Dir [])))"
proof -
  let ?e = "Fatal ''Unable to create''"
  obtain u1 u2 u3 u4 u5 u6 u7 u8 u9 where
    u: "or_fail ?e (add_entry h (Dir []) [] ''queue'') t = (None, u1)"
    "or_fail ?e (add_entry h (Dir []) [''queue''] ''.state'') u1 = (None, u2)"
    "or_fail ?e (add_entry h (Dir []) [''queue'', ''.state''] ''deterministic_done'') u2 = (None, u3)"
    "or_fail ?e (add_entry h (Dir []) [''queue'', ''.state''] ''auto_extras'') u3 = (None, u4)"
    "or_fail ?e (add_entry h (Dir []) [''queue'', ''.state''] ''redundant_edges'') u4 = (None, u5)"
    "or_fail ?e (add_entry h (Dir []) [''queue'', ''.state''] ''variable_behavior'') u5 = (None, u6)"
    and s: "(if synced then (\<lambda>t. case add_entry h (Dir []) [] ''.synced'' t of Some t' \<Rightarrow> (None, t')
        | None \<Rightarrow> (if resume \<and> get [''.synced''] t \<noteq> None then None else Some ?e, t)) else Pair None) u6 = (None, u7)"
    and v: "or_fail ?e (add_entry h (Dir []) [] ''crashes'') u7 = (None, u8)"
    "or_fail ?e (add_entry h (Dir []) [] ''hangs'') u8 = (None, u9)"
    "or_fail ?e (add_entry h (File (Regular [])) [] ''plot_data'') u9 = (None, t')"
    using assms unfolding make_layout_def Let_def mkdir_def
    by (elim steps_done) (auto split: if_splits)
  obtain c where c: "map_of c ''queue'' = None" "u1 = Dir (c @ [(''queue'', Dir [])])" by (rule made_root [OF u(1)])
  note e = made_below [OF _ c(1)]
  have "u2 = Dir (c @ [(''queue'', Dir [(''.state'', Dir [])])])" using e [OF u(2) [unfolded c(2)]] by simp
  then have "u3 = Dir (c @ [(''queue'', Dir [(''.state'', Dir [(''deterministic_done'', Dir [])])])])"
    using e [OF u(3) [unfolded \<open>u2 = _\<close>]] by simp
  then have "u4 = Dir (c @ [(''queue'', Dir [(''.state'', Dir [(''deterministic_done'', Dir []), (''auto_extras'', Dir [])])])])"
    using e [OF u(4) [unfolded \<open>u3 = _\<close>]] by simp
  then have "u5 = Dir (c @ [(''queue'', Dir [(''.state'', Dir [(''deterministic_done'', Dir []), (''auto_extras'', Dir []),
      (''redundant_edges'', Dir [])])])])"
    using e [OF u(5) [unfolded \<open>u4 = _\<close>]] by simp
  then have q: "u6 = Dir (c @ [(''queue'', empty_queue)])"
    using e [OF u(6) [unfolded \<open>u5 = _\<close>]] by (simp add: empty_queue_def)
  have "\<exists>c. u7 = Dir c \<and> map_of c ''queue'' = Some empty_queue \<and>
      (synced \<longrightarrow> (if resume then map_of c ''.synced'' \<noteq> None else map_of c ''.synced'' = Some (Dir [])))"
    using s c(1) unfolding q
    by (cases resume) (auto simp: add_entry_def map_add_def split: if_splits option.splits)
  then obtain d where d: "u7 = Dir d" "map_of d ''queue'' = Some empty_queue"
    "synced \<longrightarrow> (if resume then map_of d ''.synced'' \<noteq> None else map_of d ''.synced'' = Some (Dir []))" by blast
  obtain d8 where d8: "u7 = Dir d8" "map_of d8 ''crashes'' = None" "u8 = Dir (d8 @ [(''crashes'', Dir [])])"
    by (rule made_root [OF v(1)])
  obtain d9 where d9: "u8 = Dir d9" "map_of d9 ''hangs'' = None" "u9 = Dir (d9 @ [(''hangs'', Dir [])])"
    by (rule made_root [OF v(2)])
  obtain d10 where d10: "u9 = Dir d10" "map_of d10 ''plot_data'' = None" "t' = Dir (d10 @ [(''plot_data'', File (Regular []))])"
    by (rule made_root [OF v(3)])
  show ?thesis
    using d d8 d9 d10 by (auto simp: map_add_def split: option.splits)
qed


text \<open>
  C30: When \<open>setup_dirs_fds\<close> succeeds, with a new or an old output directory, resuming or not, the
  directories are laid out for a new session: an empty \<open>queue\<close> with its four state directories, no
  crashes and no hangs, an empty \<open>plot_data\<close>, a \<open>.synced\<close> for a fuzzer with an id (new unless resuming);
  the header is written to \<open>plot_data\<close>, and a resumed session reads its inputs from \<open>_resume\<close>.
\<close>

theorem fresh_layout:
  assumes "setup_dirs_fds h s = (None, s')"
  shows "\<exists>c. out_tree s' = Some (Dir c) \<and> map_of c ''queue'' = Some empty_queue \<and> map_of c ''crashes'' = Some (Dir []) \<and>
    map_of c ''hangs'' = Some (Dir []) \<and> map_of c ''plot_data'' = Some (File (Regular [])) \<and>
    (sync_id s \<noteq> None \<longrightarrow> (if in_place_resume s then map_of c ''.synced'' \<noteq> None else map_of c ''.synced'' = Some (Dir []))) \<and>
    plot_file s' = bytes_of plot_header \<and>
    in_dir s' = (if in_place_resume s then out_dir s @ ''/_resume'' else in_dir s)"
proof -
  obtain u where u: "take_over h (in_place_resume s) (out_tree s) = (None, Some u)"
    using assms by (auto simp: setup_dirs_fds_def take_over_def split: if_splits option.splits prod.splits)
  then obtain t' where t': "make_layout h (in_place_resume s) (sync_id s \<noteq> None) u = (None, t')"
    "out_tree s' = Some t'" "plot_file s' = bytes_of plot_header"
    "in_dir s' = (if in_place_resume s then out_dir s @ ''/_resume'' else in_dir s)"
    using assms(1) by (auto simp: setup_dirs_fds_def Let_def split: if_splits option.splits prod.splits)
  then show ?thesis using make_layout_fresh [OF t'(1)] by auto
qed

definition dir_demo :: dir_st where
  "dir_demo = stat_st.extend stat_demo (dir_st.fields (Some demo_tree))"

theorem fresh_layout_witness:
  "\<exists>s' c. setup_dirs_fds demo_host dir_demo = (None, s') \<and> out_tree s' = Some (Dir c) \<and>
     map_of c ''queue'' = Some empty_queue \<and> in_dir s' = out_dir dir_demo @ ''/_resume''"
proof -
  have r: "in_place_resume dir_demo" "sync_id dir_demo = None" "out_tree dir_demo = Some demo_tree"
    by (simp_all add: dir_demo_def stat_demo_def opt_demo_def demo_main_def main_st.defs opt_st.defs stat_st.defs dir_st.defs)
  obtain t where t: "maybe_delete_out_dir demo_host True demo_tree = (None, t)"
    using resume_demo by (cases "maybe_delete_out_dir demo_host True demo_tree") simp
  have "fst (make_layout demo_host True False (snd (maybe_delete_out_dir demo_host True demo_tree))) = None" by code_simp
  then obtain t' where "make_layout demo_host True False t = (None, t')"
    unfolding t by (cases "make_layout demo_host True False t") simp
  then obtain s' where s': "setup_dirs_fds demo_host dir_demo = (None, s')"
    by (simp add: setup_dirs_fds_def take_over_def r t Let_def)
  then show ?thesis using fresh_layout [OF s'] r by auto
qed

end
