(* ===== verification/Accepts.thy ===== *)
theory Accepts
  imports Checks Layout
begin

unbundle bit_operations_syntax

section \<open>Which targets are accepted\<close>

text \<open>
  The target is the first file of \<open>PATH\<close> that can be run, in the order of the elements, and it is
  instrumented exactly when the mode needs it.
\<close>

lemma memmem_iff: "memmem hay needle \<longleftrightarrow> (\<exists>a b. hay = a @ needle @ b)"
proof
  assume "memmem hay needle"
  then obtain i where i: "take (length needle) (drop i hay) = needle" by (auto simp: memmem_def list_ex_iff)
  have "hay = take i hay @ take (length needle) (drop i hay) @ drop (length needle) (drop i hay)"
    by (simp only: append_take_drop_id)
  then show "\<exists>a b. hay = a @ needle @ b" unfolding i by blast
next
  assume "\<exists>a b. hay = a @ needle @ b"
  then obtain a b where "hay = a @ needle @ b" by blast
  then show "memmem hay needle"
    by (auto simp: memmem_def list_ex_iff intro!: bexI [of _ "length a"])
qed

lemma find_first: "find P xs = Some x \<longleftrightarrow> (\<exists>a b. xs = a @ x # b \<and> P x \<and> (\<forall>y \<in> set a. \<not> P y))"
proof
  assume "find P xs = Some x"
  then obtain i where i: "i < length xs" "P (xs ! i)" "x = xs ! i" "\<forall>j < i. \<not> P (xs ! j)"
    by (auto simp: find_Some_iff)
  have "xs = take i xs @ x # drop (Suc i) xs" using i(1,3) by (simp add: id_take_nth_drop)
  moreover have "\<forall>y \<in> set (take i xs). \<not> P y" using i(1,4) by (auto simp: in_set_conv_nth)
  ultimately show "\<exists>a b. xs = a @ x # b \<and> P x \<and> (\<forall>y \<in> set a. \<not> P y)" using i(2,3) by blast
next
  assume "\<exists>a b. xs = a @ x # b \<and> P x \<and> (\<forall>y \<in> set a. \<not> P y)"
  then obtain a b where a: "xs = a @ x # b" "P x" "\<forall>y \<in> set a. \<not> P y" by blast
  have "find P (a @ x # b) = Some x" using a(2,3) by (induction a) auto
  then show "find P xs = Some x" unfolding a(1) .
qed

lemma path_elements_split:
  "list_all (\<lambda>e. CHR '':'' \<notin> set e) es \<Longrightarrow> CHR '':'' \<notin> set e \<Longrightarrow>
   path_elements cur (concat (map (\<lambda>e. e @ '':'') es) @ e) = (case es @ [e] of [] \<Rightarrow> [] | x # xs \<Rightarrow> (cur @ x) # xs)"
proof (induction es arbitrary: cur)
  case Nil
  have "path_elements cur e = [cur @ e]" if "CHR '':'' \<notin> set e" for cur e
    using that by (induction e arbitrary: cur) auto
  then show ?case using Nil by simp
next
  case (Cons x xs)
  have "path_elements cur (x @ '':'' @ r) = (cur @ x) # path_elements [] r" if "CHR '':'' \<notin> set x" for r cur x
    using that by (induction x arbitrary: cur) auto
  then show ?case using Cons by (cases xs) auto
qed

text \<open>
  C31: With the binary checks on, \<open>check_binary\<close> accepts a target exactly when one is found that can be
  opened, does not lie directly in a temporary directory, starts with the ELF magic and is
  instrumented when, and only when, neither QEMU nor dumb mode is on (dumb mode takes both); of a name
  without a slash it takes the first file along \<open>PATH\<close> that can be run; and it notes whether the
  sanitizers and the signatures of the persistent and the deferred mode occur in the file.
\<close>

theorem accepted_target:
  assumes "getenv ''AFL_SKIP_BIN_CHECK'' = None" and "getenv ''PATH'' = Some (concat (map (\<lambda>e. e @ '':'') es) @ e)"
    and "list_all (\<lambda>e. CHR '':'' \<notin> set e) (es @ [e])" and "CHR ''/'' \<notin> set name"
  shows "check_binary d getenv name s = Inr t \<longleftrightarrow>
    (\<exists>path a b p f. map (\<lambda>e. if e = '''' then name else e @ ''/'' @ name) (es @ [e]) = a @ path # b \<and>
       (\<forall>y \<in> set a. \<not> runnable d y) \<and> runnable d path \<and> can_open d path \<and> \<not> in_tmp path \<and>
       stat_of d path = Some p \<and> f = take (unat (f_len p)) (contents p) \<and> take 4 f = [0x7f, 0x45, 0x4c, 0x46] \<and>
       (if qemu_mode s then \<not> signature f SHM_ENV_VAR else dumb_mode s \<noteq> 0 \<or> signature f SHM_ENV_VAR) \<and>
       t = s\<lparr>target_path := path, uses_asan := uses_asan s \<or> (\<exists>x y. f = x @ bytes_of ''libasan.so'' @ y) \<or>
                (\<exists>x y. f = x @ bytes_of ''__msan_init'' @ y),
             persistent_mode := persistent_mode s \<or> signature f PERSIST_SIG,
             deferred_mode := deferred_mode s \<or> signature f DEFER_SIG\<rparr>)"
proof -
  define c where "c = map (\<lambda>e. if e = '''' then name else e @ ''/'' @ name) (es @ [e])"
  have pc: "path_candidates (concat (map (\<lambda>e. e @ '':'') es) @ e) name = c"
    using path_elements_split [of es e "[]"] assms(3) by (cases es) (simp_all add: path_candidates_def c_def)
  have ft: "find_target d getenv name = find (runnable d) c" using assms(2,4) pc by (simp add: find_target_def)
  have r: "\<exists>p. stat_of d path = Some p" if "runnable d path" for path using that by (auto simp: runnable_def split: option.splits)
  have cc: "check_contents f s = Inr t \<longleftrightarrow> take 4 f = [0x7f, 0x45, 0x4c, 0x46] \<and>
      (if qemu_mode s then \<not> signature f SHM_ENV_VAR else dumb_mode s \<noteq> 0 \<or> signature f SHM_ENV_VAR) \<and>
      t = s\<lparr>uses_asan := uses_asan s \<or> (\<exists>x y. f = x @ bytes_of ''libasan.so'' @ y) \<or> (\<exists>x y. f = x @ bytes_of ''__msan_init'' @ y),
            persistent_mode := persistent_mode s \<or> signature f PERSIST_SIG,
            deferred_mode := deferred_mode s \<or> signature f DEFER_SIG\<rparr>" for f and s t :: "'a chk_st_scheme"
  proof -
    have sh: "take 2 f \<noteq> [0x23, 0x21]" if "take 4 f = [0x7f, 0x45, 0x4c, 0x46]"
    proof
      assume "take 2 f = [0x23, 0x21]"
      then have "take 2 (take 4 f) = [0x23, 0x21]" by (simp add: min_def)
      moreover have "take 2 [0x7f, 0x45, 0x4c, 0x46 :: u8] = [0x7f, 0x45]" by (simp add: numeral_2_eq_2)
      ultimately have "[0x7f, 0x45] = [0x23, 0x21 :: u8]" unfolding that by simp
      then show False by simp
    qed
    show ?thesis unfolding check_contents_def memmem_iff [symmetric] using sh by auto
  qed
  show ?thesis
  proof (cases "find (runnable d) c")
    case None
    then have "\<not> runnable d path" if "c = a @ path # b" for a path b
      unfolding find_None_iff that by auto
    then show ?thesis unfolding c_def [symmetric] using None by (auto simp: check_binary_def ft)
  next
    case (Some path)
    obtain p where p: "stat_of d path = Some p" using Some r by (auto simp: find_first)
    have u: "(\<exists>a b. c = a @ path' # b \<and> (\<forall>y \<in> set a. \<not> runnable d y) \<and> runnable d path') \<longleftrightarrow> path' = path" for path'
      using find_first [of "runnable d" c path'] unfolding Some option.inject by blast
    have "check_binary d getenv name s = Inr t \<longleftrightarrow> \<not> in_tmp path \<and> can_open d path \<and>
        check_contents (take (unat (f_len p)) (contents p)) (s\<lparr>target_path := path\<rparr>) = Inr t"
      using assms(1) p by (simp add: check_binary_def ft Some Let_def)
    also have "\<dots> \<longleftrightarrow> (\<exists>path' p' f. (\<exists>a b. c = a @ path' # b \<and> (\<forall>y \<in> set a. \<not> runnable d y) \<and> runnable d path') \<and>
        can_open d path' \<and> \<not> in_tmp path' \<and> stat_of d path' = Some p' \<and> f = take (unat (f_len p')) (contents p') \<and>
        check_contents f (s\<lparr>target_path := path'\<rparr>) = Inr t)"
      unfolding u using p by auto
    finally show ?thesis unfolding c_def [symmetric] cc by simp blast
  qed
qed

text \<open>A program in the second directory of \<open>PATH\<close>, for dumb mode.\<close>

definition demo_disk :: disk where
  "demo_disk = \<lparr>stat_of = (\<lambda>x. if x = ''/b/prog'' then Some \<lparr>is_regular = True, has_x_bit = True, contents = [0x7f, 0x45, 0x4c, 0x46]\<rparr>
       else None), can_open = (\<lambda>_. True), can_run = (\<lambda>_. False), text_of = (\<lambda>_. None), bin_path = ''/usr/bin''\<rparr>"

definition chk_demo :: chk_st where
  "chk_demo = dir_st.extend dir_demo (chk_st.fields [])"

theorem accepted_target_witness:
  "\<exists>t. check_binary demo_disk [''PATH'' \<mapsto> ''/a:/b''] ''prog'' (chk_demo\<lparr>dumb_mode := 1, qemu_mode := False\<rparr>) = Inr t \<and>
     target_path t = ''/b/prog''"
proof -
  let ?s = "chk_demo\<lparr>dumb_mode := 1, qemu_mode := False\<rparr>"
  let ?p = "\<lparr>is_regular = True, has_x_bit = True, contents = [0x7f, 0x45, 0x4c, 0x46 :: u8]\<rparr>"
  have f: "f_len ?p = 4" by (simp add: f_len_def)
  let ?t = "?s\<lparr>target_path := ''/b/prog'', uses_asan := uses_asan ?s \<or> (\<exists>x y. contents ?p = x @ bytes_of ''libasan.so'' @ y) \<or>
                (\<exists>x y. contents ?p = x @ bytes_of ''__msan_init'' @ y),
             persistent_mode := persistent_mode ?s \<or> signature (contents ?p) PERSIST_SIG,
             deferred_mode := deferred_mode ?s \<or> signature (contents ?p) DEFER_SIG\<rparr>"
  have "check_binary demo_disk [''PATH'' \<mapsto> ''/a:/b''] ''prog'' ?s = Inr ?t"
    by (rule accepted_target [of _ "[''/a'']" "''/b''", THEN iffD2])
      (simp_all, intro exI [of _ "''/b/prog''"] exI [of _ "[''/a/prog'']"] exI [of _ "[]"] exI [of _ ?p],
        simp add: demo_disk_def runnable_def f in_tmp_def)
  then show ?thesis by (intro exI [of _ ?t]) simp
qed


end
