(* ===== verification/Spec2Isabelle.thy ===== *)
theory Spec2Isabelle
  imports Favorites Mutate Mainloop StageClaims Running HavocRuns Startup Accepts
begin

text \<open>
  \<^bold>\<open>What is verified.\<close> SEDiff tests the function models of symbolic execution engines against the
  original implementations by differential fuzzing. Its fuzzing component is \<open>src/afl/hybrid_metric/afl-fuzz.c\<close>: afl-fuzz 2.52b, extended by a second shared map of
  counters (\<open>hybrid_bits\<close>), by entries marked \<open>has_new_incorrect\<close>, \<open>has_new_hybrid\<close> and
  \<open>has_max_hybrid\<close>, and by a rewritten rating and culling of the queue (\<open>TF_switch\<close>, \<open>TF_top_null\<close>).
  This library models that file, the parts of \<open>src/afl/config.h\<close>, \<open>types.h\<close> and \<open>hash.h\<close> it uses, and
  the rating and culling of the original \<open>src/afl/afl-fuzz.c\<close> beside it, for comparison.

  \<^bold>\<open>How the program works.\<close> \<open>main\<close> reads the command line, prepares the output directory, loads the
  input files into a linked queue, the dictionaries and the settings of an earlier session, runs every
  input once (\<open>perform_dry_run\<close>) and enters its loop. Each turn culls the queue, takes the next entry and
  gives it to \<open>fuzz_one\<close>, which trims it, scores it and runs it changed in many ways: by the
  deterministic stages, by random havoc, by splicing with other entries. Every changed buffer goes
  through \<open>common_fuzz_stuff\<close>, which runs the target and keeps the buffer as a new entry when its trace
  is new; the trace is classified, hashed and compared with the virgin maps. Fuzzers that share a
  directory read each other's queues (\<open>sync_fuzzers\<close>).

  \<^bold>\<open>State and environment.\<close> The globals are records that extend each other in the order of the theories:
  \<open>world\<close> (World: generator, clock, files), \<open>queue_st\<close> (Queue), \<open>dict_st\<close>, \<open>count_st\<close> and
  \<open>stage_st\<close> (State), \<open>main_st\<close> (Mainloop), \<open>opt_st\<close> (Options), \<open>stat_st\<close> (Stats),
  \<open>dir_st\<close> (Outdir) and \<open>chk_st\<close> (Checks). A pointer to a queue entry is its number in the order of allocation, which is
  never freed. What comes from outside is the record \<open>env\<close>: the random numbers after each seed, the
  readings of the clock, which files can be created, the listings of directories, and for each run of
  the target the traces, the status word, the signals and the pipe transfers. A computation answers
  \<open>Inr\<close> of its result or \<open>Inl\<close> of how the process stops: a fatal message, a null or wild
  dereference, a division by zero, an index out of bounds, or \<open>Diverges\<close>, the end of the fuel of a loop.
  Words have the width of the code.

  \<^bold>\<open>Theories that model code\<close> (functions of \<open>afl-fuzz.c\<close> in the order of the theories):
    \<^item> Prelude: buffers, little-endian loads and stores, bounded loops, stopping computations.
    \<^item> Bitmap: \<open>has_new_bits\<close>, \<open>has_max_metric\<close>, \<open>has_new_metric\<close>, \<open>count_bits\<close>, \<open>count_bytes\<close>,
      \<open>count_non_255_bytes\<close>, \<open>simplify_trace\<close>, \<open>classify_counts\<close>, \<open>minimize_bits\<close>. Hash: \<open>hash32\<close>.
    \<^item> World: \<open>UR\<close>, \<open>shuffle_ptrs\<close>, clock, files. Queue: \<open>struct queue_entry\<close>, \<open>add_to_queue\<close>, the
      \<open>mark_as_\<close> routines. Favor: \<open>update_bitmap_score\<close> and \<open>cull_queue\<close>, of both fuzzers.
    \<^item> State: the globals. Mutate: \<open>FLIP_BIT\<close>, \<open>could_be_bitflip\<close>, \<open>could_be_arith\<close>,
      \<open>could_be_interest\<close>, \<open>next_p2\<close>, \<open>locate_diffs\<close>, the effector map. Extras: \<open>load_extras_file\<close>,
      \<open>load_extras\<close>, \<open>maybe_add_auto\<close>, \<open>load_auto\<close>, \<open>save_auto\<close>.
    \<^item> Exec: \<open>write_to_testcase\<close>, \<open>write_with_gap\<close>, \<open>run_target\<close>, the bookkeeping of \<open>show_stats\<close>.
      Calibrate: \<open>calibrate_case\<close>. Save: \<open>describe_op\<close>, \<open>save_if_interesting\<close>, \<open>common_fuzz_stuff\<close>.
      Trim: \<open>trim_case\<close>. Energy: \<open>calculate_score\<close>, \<open>choose_block_len\<close>.
    \<^item> Stages, DictStages, Havoc, Fuzz: \<open>fuzz_one\<close>, from the walking bits to splicing.
    \<^item> Mainloop: \<open>read_testcases\<close>, \<open>pivot_inputs\<close>, \<open>perform_dry_run\<close>, \<open>show_init_stats\<close>,
      \<open>find_start_position\<close>, \<open>find_timeout\<close>, \<open>sync_fuzzers\<close>, the loop of \<open>main\<close>, signal handlers.
    \<^item> Options: the command line and its checks. Stats: \<open>write_stats_file\<close>,
      \<open>maybe_update_plot_file\<close>. Outdir: \<open>delete_files\<close>, \<open>nuke_resume_dir\<close>,
      \<open>maybe_delete_out_dir\<close> and \<open>setup_dirs_fds\<close> on a tree of directories. Checks: \<open>check_binary\<close>,
      \<open>get_qemu_argv\<close>, \<open>check_crash_handling\<close>, \<open>check_cpu_governor\<close>, \<open>setup_stdio_file\<close>.
    \<^item> Demo: the state and the environment on which the witnesses evaluate the model.

  \<^bold>\<open>Theories of proofs and what they show.\<close>
    \<^item> Bitmap, Counters: the word loops are the byte-wise novelty tests, classifications and counts.
    \<^item> Queue, Favor, Favorites: the queue stays a list; the original culling covers every rated byte; the
      hybrid rating slot by slot, and two defects of it on concrete runs. The locale \<open>entry_walk\<close> is the
      contract of a loop over the entries; both loops of \<open>cull_queue\<close> interpret it.
    \<^item> Mutate: what the redundancy tests accept, exactly. Dicts: the dictionaries stay sorted and bounded,
      and a dictionary file is read back.
    \<^item> Frames: what a run of the target leaves alone. Trimming: trimming ends and cuts. Running: reports of
      signals, calibration, saving, the contract of \<open>common_fuzz_stuff\<close>.
    \<^item> Walk, StageWalks, FlipWalks, DictWalks, StageClaims: under the contract \<open>executor\<close> of the routine
      that runs a buffer, every deterministic stage runs exactly a listed sequence of buffers, restores its
      input and counts right; \<open>fuzz_run\<close> interprets the locale on \<open>common_fuzz_stuff\<close>.
    \<^item> Scores, Tweaks, HavocRuns: bounds of scores and block lengths, every tweak stays inside its buffer,
      the havoc stage ends.
    \<^item> Ending, FuzzRuns, MainRuns, Startup: with the extended contract \<open>sure_executor\<close> each stage ends and
      leaves the relation \<open>kept\<close>; \<open>fuzz_one\<close> returns; culling, a new cycle and synchronising end; the
      invariant \<open>main_inv\<close> holds in every state the main loop reaches, and every turn ends.
    \<^item> Config: an accepted command line is consistent, numbers are read back. Resume: what a resumed
      session finds in the statistics of the one before.
    \<^item> Layout: a clean-up deletes session files only and no session with work at stake, a resume loses
      nothing, a new session starts from a fresh layout. Accepts: which targets are accepted.

  \<^bold>\<open>Fuel.\<close> Loops with a counter are folds or structural. The others have fuel, and running out of it is
  \<open>Diverges\<close>, which the properties exclude: the calibration loop has 41 turns (its bound is at most 40);
  the inner loop of \<open>trim_case\<close> has the length of the entry (each turn cuts or advances) and the outer one
  32 (it halves a 32-bit length); havoc has 4096 times \<open>stage_max\<close> (at most ten doublings are allowed by
  the score); a walk through the queue has the number of entries; splicing has \<open>SPLICE_CYCLES\<close> + 1 rounds;
  reading a dictionary has the length of the file. \<open>pick_tid\<close> draws until it gets another number than the
  current entry: it ends when the random numbers are \<open>lively\<close>, that is, the first 5000 of no seed
  have all the same remainder, and \<open>next_p2\<close> ends up to \<open>2^31\<close>.

  \<^bold>\<open>Floating point.\<close> The comparisons of \<open>calculate_score\<close> with fractions are those of cleared fractions; the
  percentages of the statistics are arguments, in hundredths; the refresh rate of the screen is
  \<open>exec_freq\<close> of the environment.

  \<^bold>\<open>Not modelled.\<close> The fork server and the shared memory set-up (\<open>init_forkserver\<close>, \<open>setup_shm\<close>): system
  calls, represented by \<open>target\<close> of the environment. The screen of \<open>show_stats\<close>, the messages of
  \<open>show_init_stats\<close> and \<open>usage\<close>, and the number formats \<open>DI\<close>, \<open>DF\<close>, \<open>DMS\<close>, \<open>DTD\<close>: output only, the
  latter through rounded doubles. The messages of \<open>get_core_count\<close> and the choice of a processor
  (\<open>bind_to_free_cpu\<close>). \<open>setup_dirs_fds\<close> works on a tree, the routines that follow on files by name; the
  two meet in the layout, not in one run of \<open>main\<close>. Freeing memory at exit. The builds with \<open>SIMPLE_FILES\<close>, \<open>IGNORE_FINDS\<close>,
  \<open>USE_COLOR\<close> or for other systems. The other programs under \<open>src/afl\<close> (afl-tmin, afl-analyze,
  afl-showmap, the compiler wrappers, the LLVM and QEMU modes) are upstream tools, and
  \<open>src/static\<close> holds third-party analysers and their data.
\<close>

end
